(* ===== verification/Prelude.thy ===== *)
theory Prelude
  imports Main "HOL-Library.Finite_Map" "HOL-Library.List_Lexorder" "HOL-Library.Char_ord"
begin

text \<open>
  Shared vocabulary of the development: the fixed-width integers of Go, the zero-value
  reading of a Go map, finite sums over maps (the tool of every accounting argument), error
  values with \<^verbatim>\<open>errors.Is\<close>, and the collections of rewrite rules the component theories fill.

  Numbers. A Go \<^verbatim>\<open>int\<close>, \<^verbatim>\<open>int64\<close> or \<^verbatim>\<open>int32\<close> is an \<^typ>\<open>int\<close> and a \<^verbatim>\<open>uint32\<close> or
  \<^verbatim>\<open>uint64\<close> is a \<^typ>\<open>nat\<close>; the wrap-around of an operation is written where the
  operation stands, with the conversions \<open>i64\<close>, \<open>i32\<close>, \<open>u32\<close> and \<open>u64\<close> below
  (a Go \<^verbatim>\<open>int\<close> has 64 bits on the platforms the program is built for).
\<close>

named_theorems zero_defs \<open>the zero values of the Go structs\<close>
named_theorems op_defs \<open>definitions of the operations of the trading service\<close>
named_theorems frame \<open>what an operation leaves unchanged\<close>

section \<open>Fixed-width integers\<close>

definition i64 :: "int \<Rightarrow> int" where
  "i64 x = signed_take_bit 63 x"

definition i32 :: "int \<Rightarrow> int" where
  "i32 x = signed_take_bit 31 x"

definition u64 :: "int \<Rightarrow> nat" where
  "u64 x = nat (take_bit 64 x)"

definition u32 :: "int \<Rightarrow> nat" where
  "u32 x = nat (take_bit 32 x)"

abbreviation int64_max :: int where
  "int64_max \<equiv> 9223372036854775807"

abbreviation uint32_max :: int where
  "uint32_max \<equiv> 4294967295"

definition in_i64 :: "int \<Rightarrow> bool" where
  "in_i64 x \<longleftrightarrow> - int64_max - 1 \<le> x \<and> x \<le> int64_max"

lemma i64_id [simp]: "in_i64 x \<Longrightarrow> i64 x = x"
  unfolding i64_def in_i64_def by (rule signed_take_bit_int_eq_self) simp_all

lemma i64_in_range [simp]: "in_i64 (i64 x)"
  using signed_take_bit_int_greater_eq_minus_exp [of 63 x] signed_take_bit_int_less_exp [of 63 x]
  by (simp add: i64_def in_i64_def)

lemma i64_eq_iff: "i64 x = x \<longleftrightarrow> in_i64 x"
  by (metis i64_id i64_in_range)

lemma i64_add_left [simp]: "i64 (i64 a + b) = i64 (a + b)"
proof -
  have "signed_take_bit 63 (signed_take_bit 63 a + b)
      = signed_take_bit 63 (signed_take_bit 63 (signed_take_bit 63 a) + signed_take_bit 63 b)"
    by (simp only: signed_take_bit_add)
  also have "\<dots> = signed_take_bit 63 (a + b)"
    by (simp add: signed_take_bit_add)
  finally show ?thesis by (simp add: i64_def)
qed

lemma i64_add_right [simp]: "i64 (a + i64 b) = i64 (a + b)"
  by (metis i64_add_left add.commute)

lemma in_i64I: "0 \<le> x \<Longrightarrow> x \<le> int64_max \<Longrightarrow> in_i64 x"
  by (simp add: in_i64_def)

lemma in_i64_zero [simp]: "in_i64 0"
  by (simp add: in_i64_def)

lemma i64_zero [simp]: "i64 0 = 0"
  by simp

lemma i32_id: "- 2147483648 \<le> x \<Longrightarrow> x \<le> 2147483647 \<Longrightarrow> i32 x = x"
  unfolding i32_def by (rule signed_take_bit_int_eq_self) simp_all

lemma u32_id: "0 \<le> x \<Longrightarrow> x \<le> uint32_max \<Longrightarrow> u32 x = nat x"
  by (simp add: u32_def take_bit_int_eq_self)

lemma u32_bound: "int (u32 x) \<le> uint32_max"
  using take_bit_int_less_exp [of 32 x] by (simp add: u32_def)

lemma u64_id: "0 \<le> x \<Longrightarrow> x \<le> 18446744073709551615 \<Longrightarrow> u64 x = nat x"
  by (simp add: u64_def take_bit_int_eq_self)

text \<open>The conversion \<^verbatim>\<open>uint64(q)\<close> of an \<^verbatim>\<open>int\<close> sends a negative \<^verbatim>\<open>q\<close> above every \<^verbatim>\<open>int\<close>.\<close>

lemma u64_negative:
  assumes "in_i64 x" and "x < 0"
  shows "int64_max < int (u64 x)"
proof -
  have "take_bit 64 x = x mod 18446744073709551616"
    by (simp add: take_bit_eq_mod)
  also have "\<dots> = (x + 18446744073709551616) mod 18446744073709551616"
    by simp
  also have "\<dots> = x + 18446744073709551616"
    using assms by (intro mod_pos_pos_trivial) (simp_all add: in_i64_def)
  finally have "take_bit 64 x = x + 18446744073709551616" .
  then show ?thesis
    using assms by (simp add: u64_def in_i64_def)
qed

lemma u64_le_uint32_iff:
  assumes "in_i64 x"
  shows "int (u64 x) \<le> uint32_max \<longleftrightarrow> 0 \<le> x \<and> x \<le> uint32_max"
proof (cases "x < 0")
  case True
  then show ?thesis using u64_negative [OF assms True] by simp
next
  case False
  then show ?thesis using assms by (simp add: u64_id in_i64_def)
qed

section \<open>Go maps\<close>

text \<open>Reading a missing key of a Go map yields the zero value of the element type.\<close>

definition fmget :: "'v \<Rightarrow> ('k, 'v) fmap \<Rightarrow> 'k \<Rightarrow> 'v" where
  "fmget z m k = (case fmlookup m k of None \<Rightarrow> z | Some v \<Rightarrow> v)"

lemma fmget_upd [simp]: "fmget z (fmupd k v m) k' = (if k = k' then v else fmget z m k')"
  by (simp add: fmget_def)

lemma fmget_empty [simp]: "fmget z fmempty k = z"
  by (simp add: fmget_def)

lemma fmget_Some: "fmlookup m k = Some v \<Longrightarrow> fmget z m k = v"
  by (simp add: fmget_def)

lemma fmget_None: "fmlookup m k = None \<Longrightarrow> fmget z m k = z"
  by (simp add: fmget_def)

text \<open>The sum of a measure of the entries of a map.\<close>

definition fmsum :: "('k \<Rightarrow> 'v \<Rightarrow> int) \<Rightarrow> ('k, 'v) fmap \<Rightarrow> int" where
  "fmsum f m = (\<Sum>k\<in>fmdom' m. case fmlookup m k of None \<Rightarrow> 0 | Some v \<Rightarrow> f k v)"

lemma finite_fmdom' [simp]: "finite (fmdom' m)"
  by (simp add: fmdom'_alt_def)

lemma fmsum_empty [simp]: "fmsum f fmempty = 0"
  by (simp add: fmsum_def)

lemma fmsum_remove:
  assumes "fmlookup m k = Some v"
  shows "fmsum f m = f k v + (\<Sum>k'\<in>fmdom' m - {k}. case fmlookup m k' of None \<Rightarrow> 0 | Some v \<Rightarrow> f k' v)"
proof -
  have "k \<in> fmdom' m" using assms by (simp add: fmlookup_dom'_iff)
  then show ?thesis
    using assms by (simp add: fmsum_def sum.remove [of _ k])
qed

lemma fmsum_upd:
  "fmsum f (fmupd k v m) =
    fmsum f m - (case fmlookup m k of None \<Rightarrow> 0 | Some w \<Rightarrow> f k w) + f k v"
proof -
  have rest: "(\<Sum>k'\<in>fmdom' m - {k}. case fmlookup (fmupd k v m) k' of None \<Rightarrow> 0 | Some v \<Rightarrow> f k' v)
      = (\<Sum>k'\<in>fmdom' m - {k}. case fmlookup m k' of None \<Rightarrow> 0 | Some v \<Rightarrow> f k' v)"
    by (rule sum.cong) auto
  have new: "fmsum f (fmupd k v m)
      = f k v + (\<Sum>k'\<in>fmdom' m - {k}. case fmlookup m k' of None \<Rightarrow> 0 | Some v \<Rightarrow> f k' v)"
    using fmsum_remove [of "fmupd k v m" k v f] rest by simp
  show ?thesis
  proof (cases "fmlookup m k")
    case None
    then have "k \<notin> fmdom' m" by (simp add: fmdom'_notI)
    then show ?thesis using new None by (simp add: fmsum_def)
  next
    case (Some w)
    then show ?thesis using new fmsum_remove [OF Some, of f] by simp
  qed
qed

lemma fmsum_cong:
  assumes "\<And>k v. fmlookup m k = Some v \<Longrightarrow> f k v = g k v"
  shows "fmsum f m = fmsum g m"
  unfolding fmsum_def by (rule sum.cong) (auto simp: assms split: option.splits)

lemma fmsum_nonneg:
  assumes "\<And>k v. fmlookup m k = Some v \<Longrightarrow> 0 \<le> f k v"
  shows "0 \<le> fmsum f m"
  unfolding fmsum_def by (rule sum_nonneg) (auto simp: assms split: option.splits)

lemma fmsum_member_le:
  assumes "fmlookup m k = Some v" and "\<And>k v. fmlookup m k = Some v \<Longrightarrow> 0 \<le> f k v"
  shows "f k v \<le> fmsum f m"
proof -
  have "0 \<le> (\<Sum>k'\<in>fmdom' m - {k}. case fmlookup m k' of None \<Rightarrow> 0 | Some v \<Rightarrow> f k' v)"
    by (rule sum_nonneg) (auto simp: assms(2) split: option.splits)
  then show ?thesis using fmsum_remove [OF assms(1), of f] by simp
qed

lemma fmsum_add: "fmsum (\<lambda>k v. f k v + g k v) m = fmsum f m + fmsum g m"
  unfolding fmsum_def sum.distrib [symmetric] by (rule sum.cong) (auto split: option.splits)

lemma fmsum_zero: "(\<And>k v. fmlookup m k = Some v \<Longrightarrow> f k v = 0) \<Longrightarrow> fmsum f m = 0"
  unfolding fmsum_def by (rule sum.neutral) (auto split: option.splits)

text \<open>Code that iterates over a map in the order of its sorted keys.\<close>

lemma set_sorted_keys: "set (sorted_list_of_fset (fmdom m)) = fmdom' m"
  by (simp add: fmdom'_alt_def)

lemma distinct_sorted_keys [simp]: "distinct (sorted_list_of_fset A)"
  by (simp add: sorted_list_of_fset.rep_eq)

lemma sorted_sorted_keys [simp]: "sorted (sorted_list_of_fset A)"
  by (simp add: sorted_list_of_fset.rep_eq)

section \<open>Errors\<close>

text \<open>
  The sentinel errors of the program and of \<^verbatim>\<open>context\<close>, errors made from a text, errors of
  code outside the program, and the two ways the program wraps: \<open>Wrap\<close> is
  \<^verbatim>\<open>fmt.Errorf("text: %w", err)\<close>, \<open>WrapV\<close> is \<^verbatim>\<open>fmt.Errorf("%w: %v", sentinel, err)\<close>,
  which keeps only the text of its second argument.
\<close>

datatype goerror =
    ErrNotMarketOwner
  | ErrRecoveryRequired
  | ErrOrderQueueFull
  | DeadlineExceeded
  | Canceled
  | New string
  | External string
  | Wrap string goerror
  | WrapV goerror goerror

text \<open>\<^verbatim>\<open>errors.Is(err, target)\<close> follows the wrapped errors.\<close>

fun errors_Is :: "goerror \<Rightarrow> goerror \<Rightarrow> bool" where
  "errors_Is (Wrap t e) target = (Wrap t e = target \<or> errors_Is e target)"
| "errors_Is (WrapV e v) target = (WrapV e v = target \<or> errors_Is e target)"
| "errors_Is e target = (e = target)"

end
