(* ===== verification/Trading_Types.thy ===== *)
theory Trading_Types
  imports Prelude
begin

text \<open>
  The data of package \<^verbatim>\<open>trading\<close> (service.go, lines 22 to 215): sides, statuses, markets,
  orders, trades, events, the results of the matching engine, the interfaces of the engine and
  of the SQL projector, the configuration, the snapshot and the service itself.

  A Go string that the code compares with a fixed set of constants is a datatype with one
  constructor per constant and one constructor for every other string. The fields carry the
  first letter of their struct, since Go structs may share field names and HOL records may not.
\<close>

section \<open>Enumerations\<close>

datatype Side = BuyYes | BuyNo | SellYes | SellNo | OtherSide string

datatype Status = Pending | Open | Partial | Filled | Cancelled | ResolvedYes | ResolvedNo
  | OtherStatus string

datatype EventType = EventMarket | EventBalance | EventOrder | EventPosition | EventTrade
  | OtherEvent string

section \<open>Structs\<close>

record Market =
  mID :: string
  mSymbol :: string
  mOwnerID :: string
  mStatus :: Status

record Order =
  oID :: string
  oUserID :: string
  oMarketID :: string
  oSide :: Side
  oPrice :: int
  oQuantity :: int
  oFilledQuantity :: int
  oEnginePrice :: int
  oEngineSide :: string
  oEngineID :: nat
  oStatus :: Status
  oSequence :: nat

record Trade =
  tMarketID :: string
  tBuyOrderID :: string
  tSellOrderID :: string
  tPrice :: int
  tQuantity :: nat

record Event =
  eID :: string
  eSequence :: nat
  eType :: EventType
  eMarket :: Market
  eOrder :: Order
  eTrade :: Trade
  eUserID :: string
  eMarketID :: string
  eAmount :: int
  eYesDelta :: int
  eNoDelta :: int

record Position =
  pYes :: int
  pNo :: int

record EngineTrade =
  etBuyOrderID :: nat
  etSellOrderID :: nat
  etPrice :: int
  etQuantity :: nat

record EngineResult =
  erOrderID :: nat
  erTrades :: "EngineTrade list"

record EngineOrder =
  eoSymbol :: string
  eoPrice :: int
  eoQuantity :: nat
  eoSide :: string

record EngineQuote =
  qSymbol :: string
  qBid :: int
  qAsk :: int

record EngineBatch =
  ebResults :: "EngineResult list"
  ebQuotes :: "EngineQuote list"

record MarketQuote =
  mqMarketID :: string
  mqSymbol :: string
  mqBid :: int
  mqAsk :: int
  mqSequence :: nat

text \<open>Engine order IDs are local to a market owner: the key pairs the market with the ID.\<close>

type_synonym engineOrderKey = "string \<times> nat"

section \<open>Zero values\<close>

definition Market0 :: Market where [zero_defs]:
  "Market0 = \<lparr>mID = [], mSymbol = [], mOwnerID = [], mStatus = OtherStatus []\<rparr>"

definition Order0 :: Order where [zero_defs]:
  "Order0 = \<lparr>oID = [], oUserID = [], oMarketID = [], oSide = OtherSide [], oPrice = 0,
     oQuantity = 0, oFilledQuantity = 0, oEnginePrice = 0, oEngineSide = [], oEngineID = 0,
     oStatus = OtherStatus [], oSequence = 0\<rparr>"

definition Trade0 :: Trade where [zero_defs]:
  "Trade0 = \<lparr>tMarketID = [], tBuyOrderID = [], tSellOrderID = [], tPrice = 0, tQuantity = 0\<rparr>"

definition Event0 :: Event where [zero_defs]:
  "Event0 = \<lparr>eID = [], eSequence = 0, eType = OtherEvent [], eMarket = Market0, eOrder = Order0,
     eTrade = Trade0, eUserID = [], eMarketID = [], eAmount = 0, eYesDelta = 0, eNoDelta = 0\<rparr>"

definition Position0 :: Position where [zero_defs]:
  "Position0 = \<lparr>pYes = 0, pNo = 0\<rparr>"

lemma Event0_simps [simp]:
  "eID Event0 = []" "eSequence Event0 = 0" "eType Event0 = OtherEvent []" "eUserID Event0 = []"
  "eMarketID Event0 = []" "eAmount Event0 = 0" "eYesDelta Event0 = 0" "eNoDelta Event0 = 0"
  "eOrder Event0 = Order0" "eMarket Event0 = Market0" "eTrade Event0 = Trade0"
  by (simp_all add: Event0_def)

lemma Position0_simps [simp]: "pYes Position0 = 0" "pNo Position0 = 0"
  by (simp_all add: Position0_def)

section \<open>Interfaces of the collaborators\<close>

text \<open>
  The Go interfaces \<^verbatim>\<open>Engine\<close>, \<^verbatim>\<open>BatchEngine\<close> and \<^verbatim>\<open>QuoteEngine\<close> as one record of
  operations over the engine's state \<^typ>\<open>'e\<close>: the type assertions to the optional interfaces
  are the options. A call returns its Go results and the next engine state, also when it
  returns an error. The context argument of the calls only lets a call fail early, which an
  error result already covers.
\<close>

record 'e Engine =
  AddBook :: "'e \<Rightarrow> string \<Rightarrow> goerror option \<times> 'e"
  AddOrder :: "'e \<Rightarrow> string \<Rightarrow> int \<Rightarrow> nat \<Rightarrow> string \<Rightarrow> (goerror + EngineResult) \<times> 'e"
  RemoveOrder :: "'e \<Rightarrow> string \<Rightarrow> nat \<Rightarrow> (goerror + bool) \<times> 'e"
  AddOrders :: "('e \<Rightarrow> EngineOrder list \<Rightarrow> (goerror + EngineBatch) \<times> 'e) option"
  EngineQuoteOf :: "('e \<Rightarrow> string \<Rightarrow> (goerror + EngineQuote) \<times> 'e) option"

text \<open>The interfaces \<^verbatim>\<open>Projector\<close> and \<^verbatim>\<open>BatchProjector\<close>, over the projection's state.\<close>

record 'p Projector =
  Apply :: "'p \<Rightarrow> Event \<Rightarrow> goerror option \<times> 'p"
  ApplyBatch :: "('p \<Rightarrow> Event list \<Rightarrow> goerror option \<times> 'p) option"

section \<open>Durable files\<close>

text \<open>
  A WAL file is the list of its lines, each in the form the reader sees after
  \<^verbatim>\<open>json.Unmarshal\<close>: a versioned batch, a bare event of the older format, a complete line that
  is no valid JSON, or the trailing bytes of a line without its newline. An absent file is
  \<open>None\<close>.
\<close>

datatype walLine = Batch int "Event list" | Legacy Event | Corrupt | Torn

text \<open>
  The outcome of one operating-system call: success, failure without effect, or (for a write)
  failure after a proper prefix of the bytes reached the file. A run takes its outcomes from a
  script; a call past the end of the script succeeds.
\<close>

datatype ioOutcome = IoOk | IoErr goerror | IoTorn goerror

record snapshot =
  snSequence :: nat
  snMarkets :: "(string, Market) fmap"
  snOrders :: "(string, Order) fmap"
  snBalances :: "(string, int) fmap"
  snPositions :: "(string, (string, Position) fmap) fmap"

record disk =
  walCurrent :: "walLine list option"
  walPrevious :: "walLine list option"
  snapshotFile :: "snapshot option"
  snapshotTmp :: "snapshot option"
  ioScript :: "ioOutcome list"

section \<open>Configuration and service state\<close>

text \<open>
  \<open>newUUID\<close> stands for \<^verbatim>\<open>uuid.NewString\<close> (a third-party package) as a function of a counter,
  \<open>recordLen\<close> for the length of a marshalled WAL record, \<open>PublishQuotes\<close> for whether the
  callback is set. The timing callback \<^verbatim>\<open>Observe\<close> carries no business state and is left out.
\<close>

record ('e, 'p) Config =
  WALPath :: string
  SnapshotPath :: string
  EngineOf :: "'e Engine option"
  ProjectorOf :: "'p Projector option"
  SyncWAL :: bool
  OrderBatchSize :: int
  DisableEngineBatch :: bool
  PublishQuotes :: bool
  newUUID :: "nat \<Rightarrow> string"
  recordLen :: "walLine \<Rightarrow> nat"

text \<open>
  The accounting state of the service. It is a record of its own, so that the functions that
  only read or replay it do not depend on the environment; the service extends it.
\<close>

record ledger =
  markets :: "(string, Market) fmap"
  orders :: "(string, Order) fmap"
  engineOrders :: "(engineOrderKey, string) fmap"
  balances :: "(string, int) fmap"
  positions :: "(string, (string, Position) fmap) fmap"
  sequence :: nat

text \<open>
  The service: the accounting state, the configuration, the latched failure, whether the WAL
  file is open, the files on disk, the states of the engine and of the projection, the UUIDs
  drawn so far and the quote groups handed to the callback. The queue of waiting placements is
  a state of its own in the theory of batches.
\<close>

record ('e, 'p) Service = ledger +
  cfg :: "('e, 'p) Config"
  failure :: "goerror option"
  walFile :: bool
  disk :: disk
  engineState :: 'e
  projection :: 'p
  uuidCount :: nat
  published :: "MarketQuote list list"

type_synonym ('e, 'p) outcome = "goerror option \<times> ('e, 'p) Service"

end
