(* ===== verification/Ledger.thy ===== *)
theory Ledger
  imports Trading_Types
begin

text \<open>
  The accounting state and its events: \<^verbatim>\<open>apply\<close> (service.go, line 338), \<^verbatim>\<open>translate\<close> and
  \<^verbatim>\<open>isBuy\<close> (lines 509 to 525), the readers (lines 887 to 918). The theory then gives the
  ideal ledger, the same events over unbounded integers, and shows that the program's ledger is
  the ideal one modulo \<open>2 ^ 64\<close>; and it defines what the ledger must keep: well-formed orders,
  no negative cash or shares, as many YES as NO shares in each market, and the value that
  deposits brought in.
\<close>

section \<open>Prices and sides\<close>

definition translate :: "Side \<Rightarrow> int \<Rightarrow> goerror + int \<times> string" where
  "translate side price =
    (if price < 1 \<or> price > 99 then Inl (New ''price must be 1-99'')
     else case side of
       BuyYes \<Rightarrow> Inr (price, ''buy'')
     | SellYes \<Rightarrow> Inr (price, ''sell'')
     | BuyNo \<Rightarrow> Inr (100 - price, ''sell'')
     | SellNo \<Rightarrow> Inr (100 - price, ''buy'')
     | OtherSide _ \<Rightarrow> Inl (New ''invalid side''))"

definition isBuy :: "Side \<Rightarrow> bool" where
  "isBuy side \<longleftrightarrow> side = BuyYes \<or> side = BuyNo"

lemma isBuy_simps [simp]:
  "isBuy BuyYes" "isBuy BuyNo" "\<not> isBuy SellYes" "\<not> isBuy SellNo" "\<not> isBuy (OtherSide x)"
  by (simp_all add: isBuy_def)

section \<open>Events\<close>

definition live :: "Order \<Rightarrow> bool" where
  "live od \<longleftrightarrow> oStatus od = Pending \<or> oStatus od = Open \<or> oStatus od = Partial"

definition addBalance :: "string \<Rightarrow> int \<Rightarrow> 'a ledger_scheme \<Rightarrow> 'a ledger_scheme" where
  "addBalance u a s = s\<lparr>balances := fmupd u (i64 (fmget 0 (balances s) u + a)) (balances s)\<rparr>"

definition putOrder :: "Order \<Rightarrow> 'a ledger_scheme \<Rightarrow> 'a ledger_scheme" where
  "putOrder od s =
    (let dropped = (case fmlookup (orders s) (oID od) of
            Some old \<Rightarrow> if oEngineID old \<noteq> 0
              then fmdrop (oMarketID old, oEngineID old) (engineOrders s) else engineOrders s
          | None \<Rightarrow> engineOrders s);
         indexed = (if oEngineID od \<noteq> 0 \<and> live od
            then fmupd (oMarketID od, oEngineID od) (oID od) dropped else dropped)
     in s\<lparr>orders := fmupd (oID od) od (orders s), engineOrders := indexed\<rparr>)"

definition addPosition :: "string \<Rightarrow> string \<Rightarrow> int \<Rightarrow> int \<Rightarrow> 'a ledger_scheme \<Rightarrow> 'a ledger_scheme" where
  "addPosition u m y n s =
    (let ps = fmget fmempty (positions s) u;
         p = fmget Position0 ps m
     in s\<lparr>positions :=
          fmupd u (fmupd m \<lparr>pYes = i64 (pYes p + y), pNo = i64 (pNo p + n)\<rparr> ps) (positions s)\<rparr>)"

definition apply_event :: "Event \<Rightarrow> 'a ledger_scheme \<Rightarrow> 'a ledger_scheme" where
  "apply_event e s0 =
    (let s = (if sequence s0 < eSequence e then s0\<lparr>sequence := eSequence e\<rparr> else s0)
     in case eType e of
          EventMarket \<Rightarrow> s\<lparr>markets := fmupd (mID (eMarket e)) (eMarket e) (markets s)\<rparr>
        | EventBalance \<Rightarrow> addBalance (eUserID e) (eAmount e) s
        | EventOrder \<Rightarrow> addBalance (eUserID e) (eAmount e) (putOrder (eOrder e) s)
        | EventPosition \<Rightarrow>
            addBalance (eUserID e) (eAmount e)
              (addPosition (eUserID e) (eMarketID e) (eYesDelta e) (eNoDelta e) s)
        | EventTrade \<Rightarrow> s
        | OtherEvent _ \<Rightarrow> s)"

definition apply_all :: "Event list \<Rightarrow> 'a ledger_scheme \<Rightarrow> 'a ledger_scheme" where
  "apply_all es s = fold apply_event es s"

text \<open>The terms of an order: what its owner asked for, and how the engine sees it. No event changes them.\<close>

type_synonym terms = "(string \<times> string \<times> Side) \<times> (int \<times> int) \<times> int \<times> string"

definition orderTerms :: "Order \<Rightarrow> terms" where
  "orderTerms od = ((oUserID od, oMarketID od, oSide od), (oPrice od, oQuantity od), oEnginePrice od, oEngineSide od)"

lemma orderTerms_update [simp]:
  "orderTerms (od\<lparr>oStatus := a\<rparr>) = orderTerms od" "orderTerms (od\<lparr>oEngineID := b\<rparr>) = orderTerms od"
  "orderTerms (od\<lparr>oFilledQuantity := c\<rparr>) = orderTerms od" "orderTerms (od\<lparr>oSequence := d\<rparr>) = orderTerms od"
  by (simp_all add: orderTerms_def)

text \<open>
  One assignment of terms to the IDs of orders that fits the ledger: events that fit it too can be
  applied one after the other.
\<close>

definition fits_terms :: "(string \<Rightarrow> terms) \<Rightarrow> 'a ledger_scheme \<Rightarrow> bool" where
  "fits_terms T s \<longleftrightarrow> (\<forall>i od. fmlookup (orders s) i = Some od \<longrightarrow> orderTerms od = T i)"

lemma event_orders:
  "orders (apply_event e s) = (if eType e = EventOrder then fmupd (oID (eOrder e)) (eOrder e) (orders s) else orders s)"
  by (cases "eType e") (auto simp: apply_event_def putOrder_def addBalance_def addPosition_def Let_def)

lemma fits_event:
  "fits_terms T s \<Longrightarrow> (eType e = EventOrder \<Longrightarrow> orderTerms (eOrder e) = T (oID (eOrder e))) \<Longrightarrow> fits_terms T (apply_event e s)"
  by (auto simp: fits_terms_def event_orders)

lemma fits_frame: "orders t = orders s \<Longrightarrow> fits_terms T t = fits_terms T s"
  by (simp add: fits_terms_def)

section \<open>Readers\<close>

definition Balance :: "'a ledger_scheme \<Rightarrow> string \<Rightarrow> int" where
  "Balance s u = fmget 0 (balances s) u"

definition PositionOf :: "'a ledger_scheme \<Rightarrow> string \<Rightarrow> string \<Rightarrow> Position" where
  "PositionOf s u m = fmget Position0 (fmget fmempty (positions s) u) m"

definition OrderOf :: "'a ledger_scheme \<Rightarrow> string \<Rightarrow> Order \<times> bool" where
  "OrderOf s i = (fmget Order0 (orders s) i, fmlookup (orders s) i \<noteq> None)"

definition MarketOf :: "'a ledger_scheme \<Rightarrow> string \<Rightarrow> Market \<times> bool" where
  "MarketOf s i = (fmget Market0 (markets s) i, fmlookup (markets s) i \<noteq> None)"

text \<open>
  \<^verbatim>\<open>Markets\<close> collects the values and sorts them by ID; each market is stored under its own ID,
  so this is the list of the values in the order of the keys.
\<close>

definition Markets :: "'a ledger_scheme \<Rightarrow> Market list" where
  "Markets s = map (fmget Market0 (markets s)) (sorted_list_of_fset (fmdom (markets s)))"

section \<open>The ideal ledger\<close>

text \<open>
  The same events over unbounded integers, without the index of engine orders (which the ideal
  ledger leaves as it is in the program) rounded nowhere.
\<close>

definition ideal_balance :: "string \<Rightarrow> int \<Rightarrow> 'a ledger_scheme \<Rightarrow> 'a ledger_scheme" where
  "ideal_balance u a s = s\<lparr>balances := fmupd u (fmget 0 (balances s) u + a) (balances s)\<rparr>"

definition ideal_position :: "string \<Rightarrow> string \<Rightarrow> int \<Rightarrow> int \<Rightarrow> 'a ledger_scheme \<Rightarrow> 'a ledger_scheme" where
  "ideal_position u m y n s =
    (let ps = fmget fmempty (positions s) u;
         p = fmget Position0 ps m
     in s\<lparr>positions := fmupd u (fmupd m \<lparr>pYes = pYes p + y, pNo = pNo p + n\<rparr> ps) (positions s)\<rparr>)"

definition ideal_event :: "Event \<Rightarrow> 'a ledger_scheme \<Rightarrow> 'a ledger_scheme" where
  "ideal_event e s0 =
    (let s = (if sequence s0 < eSequence e then s0\<lparr>sequence := eSequence e\<rparr> else s0)
     in case eType e of
          EventMarket \<Rightarrow> s\<lparr>markets := fmupd (mID (eMarket e)) (eMarket e) (markets s)\<rparr>
        | EventBalance \<Rightarrow> ideal_balance (eUserID e) (eAmount e) s
        | EventOrder \<Rightarrow> ideal_balance (eUserID e) (eAmount e) (putOrder (eOrder e) s)
        | EventPosition \<Rightarrow>
            ideal_balance (eUserID e) (eAmount e)
              (ideal_position (eUserID e) (eMarketID e) (eYesDelta e) (eNoDelta e) s)
        | EventTrade \<Rightarrow> s
        | OtherEvent _ \<Rightarrow> s)"

definition ideal_all :: "Event list \<Rightarrow> 'a ledger_scheme \<Rightarrow> 'a ledger_scheme" where
  "ideal_all es s = fold ideal_event es s"

text \<open>Rounding every balance and position to 64 bits.\<close>

definition round_position :: "Position \<Rightarrow> Position" where
  "round_position p = \<lparr>pYes = i64 (pYes p), pNo = i64 (pNo p)\<rparr>"

definition round_ledger :: "'a ledger_scheme \<Rightarrow> 'a ledger_scheme" where
  "round_ledger s = s\<lparr>balances := fmmap i64 (balances s),
     positions := fmmap (fmmap round_position) (positions s)\<rparr>"

lemma fmget_fmmap: "f z = z' \<Longrightarrow> fmget z' (fmmap f m) k = f (fmget z m k)"
  by (simp add: fmget_def split: option.splits)

lemma round_Position0 [simp]: "round_position Position0 = Position0"
  by (simp add: round_position_def Position0_def)

lemma round_frame [simp]:
  "markets (round_ledger s) = markets s" "orders (round_ledger s) = orders s"
  "engineOrders (round_ledger s) = engineOrders s" "sequence (round_ledger s) = sequence s"
  "balances (round_ledger s) = fmmap i64 (balances s)"
  "positions (round_ledger s) = fmmap (fmmap round_position) (positions s)"
  by (simp_all add: round_ledger_def)

lemma round_balance: "addBalance u a (round_ledger s) = round_ledger (ideal_balance u a s)"
  by (simp add: addBalance_def ideal_balance_def round_ledger_def fmmap_fmupd
      fmget_fmmap [where f = i64 and z = 0])

lemma round_position_step: "addPosition u m y n (round_ledger s) = round_ledger (ideal_position u m y n s)"
  by (simp add: addPosition_def ideal_position_def round_ledger_def Let_def fmmap_fmupd
      fmget_fmmap [where f = "fmmap round_position" and z = fmempty]
      fmget_fmmap [where f = round_position and z = Position0] round_position_def)

lemma round_putOrder: "putOrder od (round_ledger s) = round_ledger (putOrder od s)"
  by (auto simp: putOrder_def round_ledger_def Let_def split: option.splits)

lemma round_event: "apply_event e (round_ledger s) = round_ledger (ideal_event e s)"
proof -
  have seq: "(round_ledger s)\<lparr>sequence := n\<rparr> = round_ledger (s\<lparr>sequence := n\<rparr>)" for n
    by (simp add: round_ledger_def)
  have mkt: "(round_ledger t)\<lparr>markets := x\<rparr> = round_ledger (t\<lparr>markets := x\<rparr>)" for t :: "'a ledger_scheme" and x
    by (simp add: round_ledger_def)
  show ?thesis
    by (simp add: apply_event_def ideal_event_def Let_def seq mkt round_balance
        round_position_step round_putOrder split: EventType.splits)
qed

lemma round_all: "apply_all es (round_ledger s) = round_ledger (ideal_all es s)"
  by (induction es arbitrary: s) (simp_all add: apply_all_def ideal_all_def round_event)

definition ledger_in_range :: "'a ledger_scheme \<Rightarrow> bool" where
  "ledger_in_range s \<longleftrightarrow>
    (\<forall>u b. fmlookup (balances s) u = Some b \<longrightarrow> in_i64 b) \<and>
    (\<forall>u ps m p. fmlookup (positions s) u = Some ps \<longrightarrow> fmlookup ps m = Some p \<longrightarrow>
       in_i64 (pYes p) \<and> in_i64 (pNo p))"

lemma fmmap_idI: "(\<And>k v. fmlookup m k = Some v \<Longrightarrow> f v = v) \<Longrightarrow> fmmap f m = m"
  by (rule fmap_ext) (simp add: map_option_case split: option.splits)

lemma round_in_range: "ledger_in_range s \<Longrightarrow> round_ledger s = s"
proof -
  assume r: "ledger_in_range s"
  have "fmmap i64 (balances s) = balances s"
    using r by (intro fmmap_idI) (auto simp: ledger_in_range_def)
  moreover have "fmmap (fmmap round_position) (positions s) = positions s"
    using r by (intro fmmap_idI) (fastforce simp: ledger_in_range_def round_position_def)
  ultimately show ?thesis by (simp add: round_ledger_def)
qed

text \<open>Where the ideal ledger stays in range, the program's ledger is the ideal one.\<close>

lemma apply_all_ideal:
  assumes "ledger_in_range s" and "ledger_in_range (ideal_all es s)"
  shows "apply_all es s = ideal_all es s"
  using round_all [of es s] assms by (simp add: round_in_range)

end
