(* ===== verification/Accounting.thy ===== *)
theory Accounting
  imports Ledger
begin

text \<open>
  What the exchange owes. Cash is held in balances and reserved by live buy orders; shares are
  held in positions and reserved by live sell orders. The value of a ledger counts a YES share
  at the 100 cents that a complete YES/NO pair pays out. The theory states how each ideal event
  changes these sums, defines the accounting invariant \<open>ledger_ok\<close>, and shows that a ledger
  that keeps it and whose value fits 64 bits has every balance and position in range.
\<close>

section \<open>Reserved and held amounts\<close>

definition remaining :: "Order \<Rightarrow> int" where
  "remaining od = oQuantity od - oFilledQuantity od"

definition lockedCash :: "Order \<Rightarrow> int" where
  "lockedCash od = (if live od \<and> isBuy (oSide od) then oPrice od * remaining od else 0)"

definition lockedYes :: "Order \<Rightarrow> int" where
  "lockedYes od = (if live od \<and> oSide od = SellYes then remaining od else 0)"

definition lockedNo :: "Order \<Rightarrow> int" where
  "lockedNo od = (if live od \<and> oSide od = SellNo then remaining od else 0)"

definition cash :: "'a ledger_scheme \<Rightarrow> int" where
  "cash s = fmsum (\<lambda>u b. b) (balances s)"

definition reserved :: "'a ledger_scheme \<Rightarrow> int" where
  "reserved s = fmsum (\<lambda>k od. lockedCash od) (orders s)"

definition sharesYes :: "'a ledger_scheme \<Rightarrow> string \<Rightarrow> int" where
  "sharesYes s m = fmsum (\<lambda>u ps. pYes (fmget Position0 ps m)) (positions s)
     + fmsum (\<lambda>k od. if oMarketID od = m then lockedYes od else 0) (orders s)"

definition sharesNo :: "'a ledger_scheme \<Rightarrow> string \<Rightarrow> int" where
  "sharesNo s m = fmsum (\<lambda>u ps. pNo (fmget Position0 ps m)) (positions s)
     + fmsum (\<lambda>k od. if oMarketID od = m then lockedNo od else 0) (orders s)"

definition totalYes :: "'a ledger_scheme \<Rightarrow> int" where
  "totalYes s = fmsum (\<lambda>u ps. fmsum (\<lambda>m p. pYes p) ps) (positions s)
     + fmsum (\<lambda>k od. lockedYes od) (orders s)"

definition value_of :: "'a ledger_scheme \<Rightarrow> int" where
  "value_of s = cash s + reserved s + 100 * totalYes s"

definition skew :: "'a ledger_scheme \<Rightarrow> string \<Rightarrow> int" where
  "skew s m = sharesYes s m - sharesNo s m"

lemmas measure_defs = cash_def reserved_def sharesYes_def sharesNo_def totalYes_def

section \<open>How the steps of an event change them\<close>

text \<open>Only the balances, the orders and the positions count.\<close>

lemma measures_frame:
  assumes "balances t = balances s" "orders t = orders s" "positions t = positions s"
  shows "cash t = cash s" "reserved t = reserved s" "totalYes t = totalYes s"
    "sharesYes t m = sharesYes s m" "sharesNo t m = sharesNo s m" "value_of t = value_of s"
    "skew t m = skew s m"
  using assms by (simp_all add: measure_defs value_of_def skew_def)

lemma ideal_balance_frame [simp]:
  "orders (ideal_balance u a s) = orders s" "positions (ideal_balance u a s) = positions s"
  "markets (ideal_balance u a s) = markets s" "engineOrders (ideal_balance u a s) = engineOrders s"
  "sequence (ideal_balance u a s) = sequence s"
  by (simp_all add: ideal_balance_def)

lemma ideal_balance_cash: "cash (ideal_balance u a s) = cash s + a"
  by (simp add: cash_def ideal_balance_def fmsum_upd fmget_def split: option.splits)

lemma ideal_balance_measures:
  "reserved (ideal_balance u a s) = reserved s" "totalYes (ideal_balance u a s) = totalYes s"
  "sharesYes (ideal_balance u a s) m = sharesYes s m" "sharesNo (ideal_balance u a s) m = sharesNo s m"
  by (simp_all add: measure_defs)

lemma ideal_position_frame [simp]:
  "orders (ideal_position u m y n s) = orders s" "balances (ideal_position u m y n s) = balances s"
  "markets (ideal_position u m y n s) = markets s"
  "engineOrders (ideal_position u m y n s) = engineOrders s"
  "sequence (ideal_position u m y n s) = sequence s"
  by (simp_all add: ideal_position_def Let_def)

lemma ideal_position_measures:
  "cash (ideal_position u m y n s) = cash s" "reserved (ideal_position u m y n s) = reserved s"
  "totalYes (ideal_position u m y n s) = totalYes s + y"
  "sharesYes (ideal_position u m y n s) m' = sharesYes s m' + (if m' = m then y else 0)"
  "sharesNo (ideal_position u m y n s) m' = sharesNo s m' + (if m' = m then n else 0)"
proof -
  show "cash (ideal_position u m y n s) = cash s" "reserved (ideal_position u m y n s) = reserved s"
    by (simp_all add: measure_defs)
  show "totalYes (ideal_position u m y n s) = totalYes s + y"
    by (simp add: totalYes_def ideal_position_def Let_def fmsum_upd fmget_def split: option.splits)
  show "sharesYes (ideal_position u m y n s) m' = sharesYes s m' + (if m' = m then y else 0)"
    by (auto simp: sharesYes_def ideal_position_def Let_def fmsum_upd fmget_def split: option.splits)
  show "sharesNo (ideal_position u m y n s) m' = sharesNo s m' + (if m' = m then n else 0)"
    by (auto simp: sharesNo_def ideal_position_def Let_def fmsum_upd fmget_def split: option.splits)
qed

lemma putOrder_frame [simp]:
  "balances (putOrder od s) = balances s" "positions (putOrder od s) = positions s"
  "markets (putOrder od s) = markets s" "sequence (putOrder od s) = sequence s"
  "orders (putOrder od s) = fmupd (oID od) od (orders s)"
  by (simp_all add: putOrder_def Let_def)

text \<open>What the order stored under an ID contributes to a sum over the orders.\<close>

definition held :: "(Order \<Rightarrow> int) \<Rightarrow> 'a ledger_scheme \<Rightarrow> string \<Rightarrow> int" where
  "held f s k = (case fmlookup (orders s) k of None \<Rightarrow> 0 | Some od \<Rightarrow> f od)"

lemma held_Some: "fmlookup (orders s) k = Some od \<Longrightarrow> held f s k = f od"
  by (simp add: held_def)

lemma held_None: "fmlookup (orders s) k = None \<Longrightarrow> held f s k = 0"
  by (simp add: held_def)

lemma putOrder_measures:
  "cash (putOrder od s) = cash s"
  "reserved (putOrder od s) = reserved s - held lockedCash s (oID od) + lockedCash od"
  "totalYes (putOrder od s) = totalYes s - held lockedYes s (oID od) + lockedYes od"
  "sharesYes (putOrder od s) m = sharesYes s m
     - held (\<lambda>x. if oMarketID x = m then lockedYes x else 0) s (oID od)
     + (if oMarketID od = m then lockedYes od else 0)"
  "sharesNo (putOrder od s) m = sharesNo s m
     - held (\<lambda>x. if oMarketID x = m then lockedNo x else 0) s (oID od)
     + (if oMarketID od = m then lockedNo od else 0)"
  by (simp_all add: measure_defs fmsum_upd held_def)

section \<open>The accounting invariant\<close>

definition order_ok :: "string \<Rightarrow> Order \<Rightarrow> bool" where
  "order_ok k od \<longleftrightarrow> oID od = k \<and> oID od \<noteq> [] \<and> oUserID od \<noteq> [] \<and>
     0 < oQuantity od \<and> oQuantity od \<le> uint32_max \<and>
     0 \<le> oFilledQuantity od \<and> oFilledQuantity od \<le> oQuantity od \<and>
     (live od \<longrightarrow> oFilledQuantity od < oQuantity od) \<and>
     translate (oSide od) (oPrice od) = Inr (oEnginePrice od, oEngineSide od)"

definition ledger_pos :: "'a ledger_scheme \<Rightarrow> bool" where
  "ledger_pos s \<longleftrightarrow>
    (\<forall>k od. fmlookup (orders s) k = Some od \<longrightarrow> order_ok k od) \<and>
    (\<forall>u b. fmlookup (balances s) u = Some b \<longrightarrow> 0 \<le> b) \<and>
    (\<forall>u ps m p. fmlookup (positions s) u = Some ps \<longrightarrow> fmlookup ps m = Some p \<longrightarrow>
       0 \<le> pYes p \<and> 0 \<le> pNo p)"

definition ledger_ok :: "'a ledger_scheme \<Rightarrow> bool" where
  "ledger_ok s \<longleftrightarrow> ledger_pos s \<and> (\<forall>m. skew s m = 0)"

lemma ledger_posD:
  assumes "ledger_pos s"
  shows "fmlookup (orders s) k = Some od \<Longrightarrow> order_ok k od"
    and "fmlookup (balances s) u = Some b \<Longrightarrow> 0 \<le> b"
    and "fmlookup (positions s) u = Some ps \<Longrightarrow> fmlookup ps m = Some p \<Longrightarrow> 0 \<le> pYes p"
    and "fmlookup (positions s) u = Some ps \<Longrightarrow> fmlookup ps m = Some p \<Longrightarrow> 0 \<le> pNo p"
  using assms unfolding ledger_pos_def by blast+

lemma ledger_ok_pos: "ledger_ok s \<Longrightarrow> ledger_pos s"
  by (simp add: ledger_ok_def)

lemma order_ok_ID: "order_ok k od \<Longrightarrow> oID od = k"
  by (simp add: order_ok_def)

lemma order_ok_price: "order_ok k od \<Longrightarrow> 1 \<le> oPrice od \<and> oPrice od \<le> 99"
  by (auto simp: order_ok_def translate_def split: if_splits)

lemma order_ok_locked:
  assumes "order_ok k od"
  shows "0 \<le> lockedCash od" "0 \<le> lockedYes od" "0 \<le> lockedNo od"
  using assms order_ok_price [OF assms]
  by (simp_all add: order_ok_def lockedCash_def lockedYes_def lockedNo_def remaining_def)

lemmas ledger_pos_locked = order_ok_locked [OF ledger_posD(1)]

lemma ledger_pos_balance_nonneg: "ledger_pos s \<Longrightarrow> 0 \<le> fmget 0 (balances s) u"
  by (simp add: fmget_def ledger_posD(2) split: option.splits)

lemma ledger_pos_position_nonneg:
  assumes "ledger_pos s"
  shows "fmlookup (positions s) u = Some ps \<Longrightarrow> 0 \<le> pYes (fmget Position0 ps m)"
    "fmlookup (positions s) u = Some ps \<Longrightarrow> 0 \<le> pNo (fmget Position0 ps m)"
  using ledger_posD(3,4) [OF assms] by (simp_all add: fmget_def split: option.splits)

lemma ledger_pos_parts:
  assumes "ledger_pos s"
  shows "0 \<le> cash s" "0 \<le> reserved s" "0 \<le> totalYes s"
    "0 \<le> fmsum (\<lambda>u ps. fmsum (\<lambda>m p. pYes p) ps) (positions s)"
    "0 \<le> fmsum (\<lambda>k od. lockedYes od) (orders s)"
proof -
  show "0 \<le> cash s" unfolding cash_def by (rule fmsum_nonneg) (rule ledger_posD(2) [OF assms])
  show "0 \<le> reserved s" unfolding reserved_def
    by (rule fmsum_nonneg) (rule ledger_pos_locked [OF assms])
  show 1: "0 \<le> fmsum (\<lambda>u ps. fmsum (\<lambda>m p. pYes p) ps) (positions s)"
    by (intro fmsum_nonneg) (blast dest: ledger_posD(3) [OF assms])
  show 2: "0 \<le> fmsum (\<lambda>k od. lockedYes od) (orders s)"
    by (rule fmsum_nonneg) (rule ledger_pos_locked [OF assms])
  show "0 \<le> totalYes s" using 1 2 by (simp add: totalYes_def)
qed

lemma balance_le_value:
  assumes "ledger_pos s"
  shows "fmget 0 (balances s) u \<le> value_of s"
proof -
  have "fmget 0 (balances s) u \<le> cash s"
    using fmsum_member_le [of "balances s" u _ "\<lambda>u b. b"] ledger_posD(2) [OF assms]
      ledger_pos_parts(1) [OF assms]
    by (auto simp: fmget_def cash_def split: option.splits)
  then show ?thesis using ledger_pos_parts [OF assms] by (simp add: value_of_def)
qed

text \<open>The shares of one market are part of the shares of all markets.\<close>

lemma sharesYes_le_total:
  assumes "ledger_pos s"
  shows "sharesYes s m \<le> totalYes s"
proof -
  have row: "pYes (fmget Position0 ps m) \<le> fmsum (\<lambda>m p. pYes p) ps"
    if "fmlookup (positions s) u = Some ps" for u ps
    using fmsum_member_le [of ps m _ "\<lambda>m p. pYes p"] ledger_posD(3) [OF assms that]
      fmsum_nonneg [of ps "\<lambda>m p. pYes p"]
    by (auto simp: fmget_def split: option.splits)
  have "fmsum (\<lambda>u ps. pYes (fmget Position0 ps m)) (positions s)
      \<le> fmsum (\<lambda>u ps. fmsum (\<lambda>m p. pYes p) ps) (positions s)"
    unfolding fmsum_def [of _ "positions s"]
    by (rule sum_mono) (auto simp: row split: option.splits)
  moreover have "fmsum (\<lambda>k od. if oMarketID od = m then lockedYes od else 0) (orders s)
      \<le> fmsum (\<lambda>k od. lockedYes od) (orders s)"
    unfolding fmsum_def [of _ "orders s"]
    by (rule sum_mono) (auto simp: ledger_pos_locked [OF assms] split: option.splits)
  ultimately show ?thesis by (simp add: sharesYes_def totalYes_def)
qed

lemma position_le_shares:
  assumes "ledger_pos s" "fmlookup (positions s) u = Some ps"
  shows "pYes (fmget Position0 ps m) \<le> sharesYes s m" "pNo (fmget Position0 ps m) \<le> sharesNo s m"
proof -
  have "pYes (fmget Position0 ps m) \<le> fmsum (\<lambda>u ps. pYes (fmget Position0 ps m)) (positions s)"
    "pNo (fmget Position0 ps m) \<le> fmsum (\<lambda>u ps. pNo (fmget Position0 ps m)) (positions s)"
    using assms(2) ledger_pos_position_nonneg [OF assms(1)]
    by (auto intro!: fmsum_member_le [where f = "\<lambda>u ps. pYes (fmget Position0 ps m)"]
        fmsum_member_le [where f = "\<lambda>u ps. pNo (fmget Position0 ps m)"])
  moreover have "0 \<le> fmsum (\<lambda>k od. if oMarketID od = m then lockedYes od else 0) (orders s)"
    "0 \<le> fmsum (\<lambda>k od. if oMarketID od = m then lockedNo od else 0) (orders s)"
    by (auto intro!: fmsum_nonneg simp: ledger_pos_locked [OF assms(1)])
  ultimately show "pYes (fmget Position0 ps m) \<le> sharesYes s m"
    "pNo (fmget Position0 ps m) \<le> sharesNo s m"
    by (simp_all add: sharesYes_def sharesNo_def)
qed

lemma shares_le_value:
  assumes "ledger_ok s"
  shows "100 * sharesYes s m \<le> value_of s" "100 * sharesNo s m \<le> value_of s"
proof -
  show yes: "100 * sharesYes s m \<le> value_of s"
    using sharesYes_le_total [OF ledger_ok_pos [OF assms], of m] ledger_pos_parts [OF ledger_ok_pos [OF assms]]
    by (simp add: value_of_def)
  show "100 * sharesNo s m \<le> value_of s"
    using yes assms by (simp add: skew_def ledger_ok_def)
qed

lemma position_le_value:
  assumes "ledger_ok s"
  shows "100 * pYes (PositionOf s u m) \<le> value_of s" "100 * pNo (PositionOf s u m) \<le> value_of s"
proof -
  have nonneg: "0 \<le> value_of s"
    using ledger_pos_parts [OF ledger_ok_pos [OF assms]] by (simp add: value_of_def)
  show "100 * pYes (PositionOf s u m) \<le> value_of s" "100 * pNo (PositionOf s u m) \<le> value_of s"
    using position_le_shares [OF ledger_ok_pos [OF assms], of u _ m] shares_le_value [OF assms, of m] nonneg
    by (fastforce simp: PositionOf_def fmget_def [of fmempty] split: option.splits)+
qed

text \<open>The steps of an event keep the signs where the amounts allow it.\<close>

lemma ledger_pos_frame:
  assumes "balances t = balances s" "orders t = orders s" "positions t = positions s"
  shows "ledger_pos t = ledger_pos s" "ledger_ok t = ledger_ok s"
  using assms measures_frame [OF assms] by (simp_all add: ledger_pos_def ledger_ok_def)

lemma ledger_pos_balance:
  assumes "ledger_pos s" and "0 \<le> fmget 0 (balances s) u + a"
  shows "ledger_pos (ideal_balance u a s)"
  using assms unfolding ledger_pos_def ideal_balance_def by (auto split: if_splits)

lemma ledger_pos_position:
  assumes "ledger_pos s" and "0 \<le> pYes (PositionOf s u m) + y" and "0 \<le> pNo (PositionOf s u m) + n"
  shows "ledger_pos (ideal_position u m y n s)"
  using assms unfolding ledger_pos_def ideal_position_def PositionOf_def Let_def
  by (fastforce simp: fmget_def [of fmempty] split: if_splits option.splits)

lemma ledger_pos_putOrder:
  assumes "ledger_pos s" and "order_ok (oID od) od"
  shows "ledger_pos (putOrder od s)"
  using assms unfolding ledger_pos_def by auto

lemma ledger_pos_nonneg:
  assumes "ledger_pos s"
  shows "0 \<le> fmget 0 (balances s) u" "0 \<le> pYes (PositionOf s u m)" "0 \<le> pNo (PositionOf s u m)"
  using assms unfolding ledger_pos_def PositionOf_def
  by (force simp: fmget_def split: option.splits)+

lemma ledger_in_rangeI:
  assumes "ledger_pos s" and "cash s \<le> int64_max"
    and "\<And>u m. pYes (PositionOf s u m) \<le> int64_max \<and> pNo (PositionOf s u m) \<le> int64_max"
  shows "ledger_in_range s"
proof -
  have "in_i64 b" if "fmlookup (balances s) u = Some b" for u b
    using fmsum_member_le [OF that, of "\<lambda>u b. b"] ledger_posD(2) [OF assms(1)] assms(2) that
    by (intro in_i64I) (auto simp: cash_def)
  moreover have "in_i64 (pYes p)" "in_i64 (pNo p)"
    if "fmlookup (positions s) u = Some ps" "fmlookup ps m = Some p" for u ps m p
    using assms(3) [of u m] ledger_posD(3,4) [OF assms(1) that] that
    by (auto intro!: in_i64I simp: PositionOf_def fmget_def)
  ultimately show ?thesis by (simp add: ledger_in_range_def)
qed

text \<open>A ledger whose value fits 64 bits has every entry in range.\<close>

lemma ledger_ok_in_range:
  assumes "ledger_ok s" and "value_of s \<le> int64_max"
  shows "ledger_in_range s"
proof (rule ledger_in_rangeI)
  note pos = ledger_ok_pos [OF assms(1)]
  show "ledger_pos s" by (rule pos)
  show "cash s \<le> int64_max" using ledger_pos_parts [OF pos] assms(2) by (simp add: value_of_def)
  show "pYes (PositionOf s u m) \<le> int64_max \<and> pNo (PositionOf s u m) \<le> int64_max" for u m
    using position_le_value [OF assms(1), of u m] assms(2) ledger_pos_nonneg [OF pos] by fastforce
qed

end
