(* ===== verification/Wal.thy ===== *)
theory Wal
  imports Accounting
begin

text \<open>
  The durable commit of package \<^verbatim>\<open>trading\<close> (service.go, lines 241 to 465): numbering of
  events, the append to the write-ahead log, the projection, the latched failure, and the
  replay of a log file. Operating-system calls take their outcomes from the script of the
  disk. The lemmas say what a commit changes: all or nothing of the accounting state, one line
  of the log, and after an error the latch that stops every later commit.
\<close>

section \<open>Sequencing of fallible steps\<close>

text \<open>The Go idiom \<^verbatim>\<open>if err := step(); err != nil { return err }\<close>.\<close>

definition andThen :: "goerror option \<times> 's \<Rightarrow> ('s \<Rightarrow> goerror option \<times> 's) \<Rightarrow> goerror option \<times> 's" where
  "andThen r k = (case r of (None, s) \<Rightarrow> k s | (Some e, s) \<Rightarrow> (Some e, s))"

lemma andThen_simps [simp]: "andThen (None, s) k = k s" "andThen (Some e, s) k = (Some e, s)"
  by (simp_all add: andThen_def)

lemma andThen_frame:
  assumes "f (snd r) = c" and "\<And>s. f s = c \<Longrightarrow> f (snd (k s)) = c"
  shows "f (snd (andThen r k)) = c"
  using assms by (auto simp: andThen_def split: prod.splits option.splits)

section \<open>The operating system\<close>

definition osCall :: "('e, 'p) Service \<Rightarrow> ioOutcome \<times> ('e, 'p) Service" where
  "osCall s = (case ioScript (disk s) of
      [] \<Rightarrow> (IoOk, s)
    | r # rs \<Rightarrow> (r, s\<lparr>disk := (disk s)\<lparr>ioScript := rs\<rparr>\<rparr>))"

fun ioErr :: "ioOutcome \<Rightarrow> goerror option" where
  "ioErr IoOk = None"
| "ioErr (IoErr e) = Some e"
| "ioErr (IoTorn e) = Some e"

text \<open>A call whose failure has no effect.\<close>

definition osTry :: "('e, 'p) Service \<Rightarrow> ('e, 'p) outcome" where
  "osTry s = (case osCall s of (r, t) \<Rightarrow> (ioErr r, t))"

text \<open>\<^verbatim>\<open>syncDirectory\<close> (checkpoint.go, line 127): open, then sync.\<close>

definition syncDirectory :: "('e, 'p) Service \<Rightarrow> ('e, 'p) outcome" where
  "syncDirectory s = andThen (osTry s) osTry"

text \<open>
  A line written after an unterminated one joins it and makes a complete line that is no JSON.
\<close>

definition appendLine :: "walLine list \<Rightarrow> walLine \<Rightarrow> walLine list" where
  "appendLine ls l = (if ls \<noteq> [] \<and> last ls = Torn then butlast ls @ [Corrupt] else ls @ [l])"

definition setWal :: "(walLine list \<Rightarrow> walLine list) \<Rightarrow> ('e, 'p) Service \<Rightarrow> ('e, 'p) Service" where
  "setWal f s = s\<lparr>disk := (disk s)\<lparr>walCurrent :=
     Some (f (case walCurrent (disk s) of None \<Rightarrow> [] | Some ls \<Rightarrow> ls))\<rparr>\<rparr>"

definition writeLine :: "walLine \<Rightarrow> ('e, 'p) Service \<Rightarrow> ('e, 'p) outcome" where
  "writeLine l s = (case osCall s of
      (IoOk, t) \<Rightarrow> (None, setWal (\<lambda>ls. appendLine ls l) t)
    | (IoErr e, t) \<Rightarrow> (Some e, t)
    | (IoTorn e, t) \<Rightarrow> (Some e, setWal (\<lambda>ls. appendLine ls Torn) t))"

section \<open>Append and commit\<close>

definition maxWALRecord :: nat where
  "maxWALRecord = 64 * 1024 * 1024"

definition openWAL :: "('e, 'p) Service \<Rightarrow> ('e, 'p) outcome" where
  "openWAL s =
    (if walFile s then (None, s)
     else andThen (osTry s) (\<lambda>s.
       andThen (osTry s) (\<lambda>s.
         let t = setWal (\<lambda>ls. ls) (s\<lparr>walFile := True\<rparr>)
         in if SyncWAL (cfg t) then syncDirectory t else (None, t))))"

definition appendMany :: "Event list \<Rightarrow> ('e, 'p) Service \<Rightarrow> ('e, 'p) outcome" where
  "appendMany es s =
    andThen (openWAL s) (\<lambda>s.
      if recordLen (cfg s) (Batch 1 es) + 1 \<ge> maxWALRecord
      then (Some (New ''WAL batch exceeds 64 MiB record limit''), s)
      else andThen (writeLine (Batch 1 es) s) (\<lambda>s.
        if SyncWAL (cfg s) then osTry s else (None, s)))"

definition next_event :: "Event \<Rightarrow> ('e, 'p) Service \<Rightarrow> Event \<times> ('e, 'p) Service" where
  "next_event e s0 =
    (let s = s0\<lparr>sequence := (sequence s0 + 1) mod 2 ^ 64\<rparr>;
         e1 = e\<lparr>eSequence := sequence s\<rparr>
     in if eID e1 = [] then (e1\<lparr>eID := newUUID (cfg s) (uuidCount s)\<rparr>, s\<lparr>uuidCount := uuidCount s + 1\<rparr>)
        else (e1, s))"

fun nextAll :: "Event list \<Rightarrow> ('e, 'p) Service \<Rightarrow> Event list \<times> ('e, 'p) Service" where
  "nextAll [] s = ([], s)"
| "nextAll (e # es) s =
    (let (e1, s1) = next_event e s; (es1, s2) = nextAll es s1 in (e1 # es1, s2))"

definition fail :: "goerror \<Rightarrow> ('e, 'p) Service \<Rightarrow> ('e, 'p) outcome" where
  "fail e s = (let f = WrapV ErrRecoveryRequired e in (Some f, s\<lparr>failure := Some f\<rparr>))"

definition HealthError :: "('e, 'p) Service \<Rightarrow> goerror option" where
  "HealthError s = failure s"

fun applyEach :: "'p Projector \<Rightarrow> Event list \<Rightarrow> 'p \<Rightarrow> goerror option \<times> 'p" where
  "applyEach pr [] p = (None, p)"
| "applyEach pr (e # es) p = andThen (Apply pr p e) (applyEach pr es)"

text \<open>The error texts of the projection carry the sequence number, which only logs read.\<close>

definition project :: "'p Projector \<Rightarrow> Event list \<Rightarrow> ('e, 'p) Service \<Rightarrow> ('e, 'p) outcome" where
  "project pr es s =
    (case (case ApplyBatch pr of
             Some applyBatch \<Rightarrow> applyBatch (projection s) es
           | None \<Rightarrow> applyEach pr es (projection s)) of
       (None, p) \<Rightarrow> (None, s\<lparr>projection := p\<rparr>)
     | (Some e, p) \<Rightarrow> (Some (Wrap ''project'' e), s\<lparr>projection := p\<rparr>))"

definition commitMany :: "Event list \<Rightarrow> ('e, 'p) Service \<Rightarrow> ('e, 'p) outcome" where
  "commitMany events s =
    (case failure s of
       Some e \<Rightarrow> (Some e, s)
     | None \<Rightarrow>
        (let (es, s1) = nextAll events s
         in case appendMany es s1 of
              (Some e, s2) \<Rightarrow> fail e s2
            | (None, s2) \<Rightarrow>
               (case (case ProjectorOf (cfg s2) of None \<Rightarrow> (None, s2) | Some pr \<Rightarrow> project pr es s2) of
                  (Some e, s3) \<Rightarrow> fail e s3
                | (None, s3) \<Rightarrow> (None, apply_all es s3))))"

definition commit :: "Event \<Rightarrow> ('e, 'p) Service \<Rightarrow> ('e, 'p) outcome" where
  "commit e s = commitMany [e] s"

section \<open>Replay\<close>

text \<open>
  One line of the log as the events it commits. A line without a version is one event of the
  older format; without an ID of its own it gets one from the hash of its bytes
  (\<open>legacyID\<close>). A batch line that says version 0 decodes, as an event, to the zero event.
\<close>

definition legacyEvent :: "(walLine \<Rightarrow> string) \<Rightarrow> walLine \<Rightarrow> Event \<Rightarrow> Event" where
  "legacyEvent legacyID l e = (if eID e = [] then e\<lparr>eID := legacyID l\<rparr> else e)"

fun lineEvents :: "(walLine \<Rightarrow> string) \<Rightarrow> walLine \<Rightarrow> goerror + Event list" where
  "lineEvents h (Batch v es) =
    (if v = 0 then Inr [legacyEvent h (Batch v es) Event0]
     else if v \<noteq> 1 \<or> es = [] then Inl (New ''invalid WAL batch'')
     else Inr es)"
| "lineEvents h (Legacy e) = Inr [legacyEvent h (Legacy e) e]"
| "lineEvents h Corrupt = Inl (Wrap ''corrupt WAL'' (External ''json''))"
| "lineEvents h Torn = Inl (External ''unterminated'')"

text \<open>The check that sequences increase, collecting the events newer than the state.\<close>

fun scanBatch :: "nat \<Rightarrow> nat \<Rightarrow> Event list \<Rightarrow> goerror + nat \<times> Event list" where
  "scanBatch current previous [] = Inr (previous, [])"
| "scanBatch current previous (e # es) =
    (if eSequence e \<le> previous then Inl (New ''non-increasing WAL sequence'')
     else case scanBatch current (eSequence e) es of
            Inl err \<Rightarrow> Inl err
          | Inr (final, fresh) \<Rightarrow> Inr (final, if current < eSequence e then e # fresh else fresh))"

definition projectRaw :: "Event list \<Rightarrow> ('e, 'p) Service \<Rightarrow> ('e, 'p) outcome" where
  "projectRaw es s =
    (case ProjectorOf (cfg s) of
       None \<Rightarrow> (None, s)
     | Some pr \<Rightarrow>
        (case (case ApplyBatch pr of
                 Some applyBatch \<Rightarrow> applyBatch (projection s) es
               | None \<Rightarrow> applyEach pr es (projection s)) of
           (r, p) \<Rightarrow> (r, s\<lparr>projection := p\<rparr>)))"

definition replayBatch :: "nat \<Rightarrow> Event list \<Rightarrow> ('e, 'p) Service \<Rightarrow> (goerror + nat) \<times> ('e, 'p) Service" where
  "replayBatch previous es s =
    (case scanBatch (sequence s) previous es of
       Inl err \<Rightarrow> (Inl err, s)
     | Inr (final, fresh) \<Rightarrow>
        (if fresh = [] then (Inr final, s)
         else case projectRaw fresh s of
                (Some err, t) \<Rightarrow> (Inl err, t)
              | (None, t) \<Rightarrow> (Inr final, apply_all fresh t)))"

text \<open>
  The scan loop. \<open>n\<close> counts the complete lines read so far, which is where the file is cut
  when the last line lacks its newline. Reading a line is a call that may fail: at a line
  boundary the scanner stops with the error; inside a line the scanner hands the bytes read so
  far to the split function as if the file ended there, and the loop takes them for an
  unterminated line.
\<close>

definition truncateRepair :: "(nat \<Rightarrow> ('e, 'p) Service \<Rightarrow> ('e, 'p) Service) \<Rightarrow> nat \<Rightarrow> ('e, 'p) Service \<Rightarrow> ('e, 'p) outcome" where
  "truncateRepair cutAt n s =
    andThen (osTry s) (\<lambda>s. andThen (osTry s) (\<lambda>s. osTry (cutAt n s)))"

fun replayLines ::
  "(walLine \<Rightarrow> string) \<Rightarrow> (nat \<Rightarrow> ('e, 'p) Service \<Rightarrow> ('e, 'p) Service) \<Rightarrow>
   nat \<Rightarrow> nat \<Rightarrow> walLine list \<Rightarrow> ('e, 'p) Service \<Rightarrow> ('e, 'p) outcome" where
  "replayLines h cutAt n previous [] s = osTry s"
| "replayLines h cutAt n previous (l # ls) s =
    (case osCall s of
       (IoErr e, t) \<Rightarrow> (Some e, t)
     | (IoTorn e, t) \<Rightarrow> truncateRepair cutAt n t
     | (IoOk, t) \<Rightarrow>
        (if recordLen (cfg t) l + 1 > maxWALRecord then (Some (External ''token too long''), t)
         else if l = Torn then truncateRepair cutAt n t
         else case lineEvents h l of
                Inl err \<Rightarrow> (Some err, t)
              | Inr es \<Rightarrow>
                 (case replayBatch previous es t of
                    (Inl err, u) \<Rightarrow> (Some err, u)
                  | (Inr final, u) \<Rightarrow> replayLines h cutAt (Suc n) final ls u)))"

definition cutCurrent :: "nat \<Rightarrow> ('e, 'p) Service \<Rightarrow> ('e, 'p) Service" where
  "cutCurrent n s = s\<lparr>disk := (disk s)\<lparr>walCurrent := map_option (take n) (walCurrent (disk s))\<rparr>\<rparr>"

definition cutPrevious :: "nat \<Rightarrow> ('e, 'p) Service \<Rightarrow> ('e, 'p) Service" where
  "cutPrevious n s = s\<lparr>disk := (disk s)\<lparr>walPrevious := map_option (take n) (walPrevious (disk s))\<rparr>\<rparr>"

text \<open>\<^verbatim>\<open>replayFile\<close> on one of the two segments; an absent file replays to nothing.\<close>

definition replayFile ::
  "(walLine \<Rightarrow> string) \<Rightarrow> (disk \<Rightarrow> walLine list option) \<Rightarrow>
   (nat \<Rightarrow> ('e, 'p) Service \<Rightarrow> ('e, 'p) Service) \<Rightarrow> ('e, 'p) Service \<Rightarrow> ('e, 'p) outcome" where
  "replayFile h path cutAt s =
    (case path (disk s) of
       None \<Rightarrow> (None, s)
     | Some ls \<Rightarrow> andThen (osTry s) (replayLines h cutAt 0 0 ls))"

definition replay :: "(walLine \<Rightarrow> string) \<Rightarrow> ('e, 'p) Service \<Rightarrow> ('e, 'p) outcome" where
  "replay h s = replayFile h walCurrent cutCurrent s"

section \<open>What a commit changes\<close>

text \<open>The books: the accounting state without its sequence number.\<close>

definition book :: "'a ledger_scheme \<Rightarrow> ledger" where
  "book s = (ledger.truncate s)\<lparr>sequence := 0\<rparr>"

lemma book_fields [simp]:
  "markets (book s) = markets s" "orders (book s) = orders s"
  "engineOrders (book s) = engineOrders s" "balances (book s) = balances s"
  "positions (book s) = positions s" "sequence (book s) = 0"
  by (simp_all add: book_def ledger.truncate_def)

lemma book_eq_iff: "book s = book t \<longleftrightarrow> markets s = markets t \<and> orders s = orders t \<and>
    engineOrders s = engineOrders t \<and> balances s = balances t \<and> positions s = positions t"
  by (auto simp: book_def ledger.truncate_def)

lemma book_book [simp]: "book (book s) = book s"
  by (simp add: book_eq_iff)

text \<open>The books after an event depend only on the books before it and on its content.\<close>

definition content :: "Event \<Rightarrow> Event" where
  "content e = e\<lparr>eID := [], eSequence := 0\<rparr>"

lemma apply_event_book:
  assumes "book s = book t" and "content e = content e'"
  shows "book (apply_event e s) = book (apply_event e' t)"
proof -
  have "eType e = eType e' \<and> eMarket e = eMarket e' \<and> eOrder e = eOrder e' \<and> eUserID e = eUserID e' \<and>
      eMarketID e = eMarketID e' \<and> eAmount e = eAmount e' \<and> eYesDelta e = eYesDelta e' \<and>
      eNoDelta e = eNoDelta e'"
    using assms(2) by (cases e; cases e') (simp add: content_def)
  moreover have "markets s = markets t" "orders s = orders t" "engineOrders s = engineOrders t"
      "balances s = balances t" "positions s = positions t"
    using assms(1) by (simp_all add: book_eq_iff)
  ultimately show ?thesis
    by (auto simp: book_eq_iff apply_event_def Let_def addBalance_def putOrder_def addPosition_def
        split: EventType.splits option.splits)
qed

lemma apply_all_book:
  assumes "book s = book t" and "list_all2 (\<lambda>e e'. content e = content e') es es'"
  shows "book (apply_all es s) = book (apply_all es' t)"
  using assms(2,1)
proof (induction arbitrary: s t rule: list_all2_induct)
  case (Cons e es e' es')
  then show ?case using apply_event_book [of s t e e'] by (simp add: apply_all_def)
qed (simp add: apply_all_def)

text \<open>What the durable steps leave alone.\<close>

definition keeps :: "('e, 'p) Service \<Rightarrow> ('e, 'p) Service \<Rightarrow> bool" where
  "keeps s t \<longleftrightarrow> book t = book s \<and> cfg t = cfg s \<and> engineState t = engineState s \<and>
     published t = published s"

lemma keeps_refl [simp]: "keeps s s"
  by (simp add: keeps_def)

lemma keeps_trans: "keeps s t \<Longrightarrow> keeps t u \<Longrightarrow> keeps s u"
  by (simp add: keeps_def)

lemma keeps_update [simp]:
  "keeps s (t\<lparr>disk := d\<rparr>) = keeps s t" "keeps s (t\<lparr>walFile := w\<rparr>) = keeps s t"
  "keeps s (t\<lparr>projection := p\<rparr>) = keeps s t" "keeps s (t\<lparr>failure := f\<rparr>) = keeps s t"
  "keeps s (t\<lparr>sequence := n\<rparr>) = keeps s t" "keeps s (t\<lparr>uuidCount := c\<rparr>) = keeps s t"
  by (simp_all add: keeps_def book_eq_iff)

lemma keeps_andThen:
  assumes "keeps s (snd r)" and "\<And>t. keeps s t \<Longrightarrow> keeps s (snd (k t))"
  shows "keeps s (snd (andThen r k))"
  using assms by (auto simp: andThen_def split: prod.splits option.splits)

lemma osCall_keeps [simp]: "keeps s (snd (osCall t)) = keeps s t" "failure (snd (osCall t)) = failure t"
  "sequence (snd (osCall t)) = sequence t"
  by (auto simp: osCall_def split: list.splits)

lemma osTry_keeps [simp]: "keeps s (snd (osTry t)) = keeps s t" "failure (snd (osTry t)) = failure t"
  "sequence (snd (osTry t)) = sequence t"
  by (simp_all add: osTry_def case_prod_beta)

text \<open>
  The durable steps before the state change keep the books and the latch: a predicate over the
  whole chain, closed under \<open>andThen\<close>.
\<close>

definition quiet :: "('e, 'p) Service \<Rightarrow> ('e, 'p) Service \<Rightarrow> bool" where
  "quiet s t \<longleftrightarrow> keeps s t \<and> failure t = failure s \<and> sequence t = sequence s"

lemma quiet_refl [simp]: "quiet s s"
  by (simp add: quiet_def)

lemma quiet_trans: "quiet s t \<Longrightarrow> quiet t u \<Longrightarrow> quiet s u"
  by (auto simp: quiet_def intro: keeps_trans)

lemma quiet_update [simp]:
  "quiet s (t\<lparr>disk := d\<rparr>) = quiet s t" "quiet s (t\<lparr>walFile := w\<rparr>) = quiet s t"
  "quiet s (t\<lparr>projection := p\<rparr>) = quiet s t" "quiet s (t\<lparr>uuidCount := c\<rparr>) = quiet s t"
  by (simp_all add: quiet_def)

lemma quiet_os [simp]: "quiet s (snd (osCall t)) = quiet s t" "quiet s (snd (osTry t)) = quiet s t"
  "quiet s (setWal f t) = quiet s t"
  by (simp_all add: quiet_def setWal_def)

lemma quiet_andThen:
  assumes "quiet s (snd r)" and "\<And>t. quiet s t \<Longrightarrow> quiet s (snd (k t))"
  shows "quiet s (snd (andThen r k))"
  using assms by (auto simp: andThen_def split: prod.splits option.splits)

lemma quiet_syncDirectory: "quiet s t \<Longrightarrow> quiet s (snd (syncDirectory t))"
  by (simp add: syncDirectory_def quiet_andThen)

lemma quiet_writeLine: "quiet s t \<Longrightarrow> quiet s (snd (writeLine l t))"
  by (auto simp: writeLine_def case_prod_beta split: ioOutcome.split)

lemma quiet_openWAL: "quiet s t \<Longrightarrow> quiet s (snd (openWAL t))"
  by (auto simp: openWAL_def Let_def intro!: quiet_andThen quiet_syncDirectory)

lemma quiet_appendMany: "quiet s t \<Longrightarrow> quiet s (snd (appendMany es t))"
  by (auto simp: appendMany_def intro!: quiet_andThen quiet_openWAL quiet_writeLine)

lemma quiet_project: "quiet s t \<Longrightarrow> quiet s (snd (project pr es t))"
  by (auto simp: project_def split: option.splits prod.splits)

lemma quiet_projectRaw: "quiet s t \<Longrightarrow> quiet s (snd (projectRaw es t))"
  by (auto simp: projectRaw_def split: option.splits prod.splits)

lemma next_event_keeps:
  assumes "next_event e s = (e1, s1)"
  shows "keeps s s1 \<and> failure s1 = failure s \<and> content e1 = content e \<and>
    disk s1 = disk s \<and> walFile s1 = walFile s"
  using assms by (auto simp: next_event_def Let_def content_def split: if_splits)

lemma nextAll_keeps:
  assumes "nextAll es s = (es1, s1)"
  shows "keeps s s1 \<and> failure s1 = failure s \<and> list_all2 (\<lambda>e e'. content e = content e') es1 es \<and>
    disk s1 = disk s \<and> walFile s1 = walFile s"
  using assms
proof (induction es arbitrary: s es1 s1)
  case (Cons e es)
  obtain e1 t where n: "next_event e s = (e1, t)" by (cases "next_event e s")
  obtain es2 u where r: "nextAll es t = (es2, u)" by (cases "nextAll es t")
  show ?case
    using Cons.prems next_event_keeps [OF n] Cons.IH [OF r] n r keeps_trans [of s t u] by auto
qed simp

lemma apply_event_env [simp]:
  "failure (apply_event e s) = failure s" "cfg (apply_event e s) = cfg s"
  "engineState (apply_event e s) = engineState s" "published (apply_event e s) = published s"
  "disk (apply_event e s) = disk s" "walFile (apply_event e s) = walFile s"
  "projection (apply_event e s) = projection s" "uuidCount (apply_event e s) = uuidCount s"
  by (simp_all add: apply_event_def Let_def addBalance_def putOrder_def addPosition_def
      split: EventType.splits)

lemma apply_all_env [simp]:
  "failure (apply_all es s) = failure s" "cfg (apply_all es s) = cfg s"
  "engineState (apply_all es s) = engineState s" "published (apply_all es s) = published s"
  "disk (apply_all es s) = disk s" "walFile (apply_all es s) = walFile s"
  "projection (apply_all es s) = projection s" "uuidCount (apply_all es s) = uuidCount s"
  by (induction es arbitrary: s) (simp_all add: apply_all_def)

text \<open>
  A commit that succeeds applies the events to the books and leaves the latch open; one that
  fails leaves the books as they are and latches an error that asks for recovery.
\<close>

lemma commitMany_ok:
  assumes "commitMany events s = (None, t)"
  shows "failure s = None" and "failure t = None" and "book t = book (apply_all events (book s))"
    and "cfg t = cfg s" and "engineState t = engineState s" and "published t = published s"
proof -
  show f: "failure s = None" using assms by (auto simp: commitMany_def split: option.splits)
  obtain es s1 where n: "nextAll events s = (es, s1)" by (cases "nextAll events s")
  obtain s2 where a: "appendMany es s1 = (None, s2)"
    using assms f n
    by (auto simp: commitMany_def fail_def Let_def split: option.splits prod.splits)
  obtain s3 where p: "(case ProjectorOf (cfg s2) of None \<Rightarrow> (None, s2) | Some pr \<Rightarrow> project pr es s2) = (None, s3)"
      and t: "t = apply_all es s3"
    using assms f n a
    by (auto simp: commitMany_def fail_def Let_def split: prod.splits option.split_asm)
  have q2: "quiet s1 s2" using quiet_appendMany [of s1 s1 es] a by simp
  have q3: "quiet s2 s3"
    using p quiet_project [of s2 s2 _ es] by (auto split: option.splits) (metis quiet_refl snd_conv)
  have k: "keeps s s3" "failure s3 = failure s"
    using nextAll_keeps [OF n] quiet_trans [OF q2 q3] keeps_trans by (auto simp: quiet_def)
  have ev: "list_all2 (\<lambda>e e'. content e = content e') es events"
    using nextAll_keeps [OF n] by simp
  show "failure t = None" "cfg t = cfg s" "engineState t = engineState s" "published t = published s"
    using k f t by (simp_all add: keeps_def)
  show "book t = book (apply_all events (book s))"
    unfolding t using k ev by (intro apply_all_book) (simp_all add: keeps_def)
qed

lemma commitMany_err:
  assumes "commitMany events s = (Some e, t)"
  shows "keeps s t" and "failure t = Some e"
    and "failure s = None \<Longrightarrow> errors_Is e ErrRecoveryRequired"
proof -
  have "keeps s t \<and> failure t = Some e \<and> (failure s = None \<longrightarrow> errors_Is e ErrRecoveryRequired)"
  proof (cases "failure s")
    case (Some x)
    then show ?thesis using assms by (simp add: commitMany_def)
  next
    case None
    obtain es s1 where n: "nextAll events s = (es, s1)" by (cases "nextAll events s")
    obtain r2 s2 where a: "appendMany es s1 = (r2, s2)" by (cases "appendMany es s1")
    obtain r3 s3 where p: "(case ProjectorOf (cfg s2) of None \<Rightarrow> (None, s2) | Some pr \<Rightarrow> project pr es s2) = (r3, s3)"
      by (rule prod.exhaust)
    have k2: "keeps s s2"
      using nextAll_keeps [OF n] quiet_appendMany [of s1 s1 es] a keeps_trans by (auto simp: quiet_def)
    have q3: "quiet s2 s3"
      using p quiet_project [of s2 s2 _ es] by (auto split: option.splits) (metis quiet_refl snd_conv)
    have k3: "keeps s s3" using k2 q3 keeps_trans by (auto simp: quiet_def)
    show ?thesis
      using assms None n a p k2 k3
      by (auto simp: commitMany_def fail_def Let_def split: option.splits)
  qed
  then show "keeps s t" "failure t = Some e" "failure s = None \<Longrightarrow> errors_Is e ErrRecoveryRequired"
    by simp_all
qed

end
