(* ===== verification/Quotes.thy ===== *)
theory Quotes
  imports Wal
begin

text \<open>
  Derived quotes (quotes.go): \<^verbatim>\<open>readQuotes\<close> after a durable commit, \<^verbatim>\<open>publishQuotes\<close> to the
  callback, and \<^verbatim>\<open>Quote\<close> for one symbol. Quotes never change the books.
\<close>

section \<open>Reading and publishing\<close>

definition bySymbol :: "EngineQuote list \<Rightarrow> (string, EngineQuote) fmap" where
  "bySymbol supplied = fold (\<lambda>q. fmupd (qSymbol q) q) supplied fmempty"

definition askEngine :: "string \<Rightarrow> ('e, 'p) Service \<Rightarrow> EngineQuote option \<times> ('e, 'p) Service" where
  "askEngine symbol s =
    (case EngineOf (cfg s) of
       None \<Rightarrow> (None, s)
     | Some eng \<Rightarrow>
        (case EngineQuoteOf eng of
           None \<Rightarrow> (None, s)
         | Some quote \<Rightarrow>
            (case quote (engineState s) symbol of
               (Inl e, es) \<Rightarrow> (None, s\<lparr>engineState := es\<rparr>)
             | (Inr q, es) \<Rightarrow> (Some q, s\<lparr>engineState := es\<rparr>))))"

definition quoteFor ::
  "(string, EngineQuote) fmap \<Rightarrow> string \<Rightarrow> ('e, 'p) Service \<Rightarrow> EngineQuote option \<times> ('e, 'p) Service" where
  "quoteFor given symbol s =
    (case fmlookup given symbol of Some q \<Rightarrow> (Some q, s) | None \<Rightarrow> askEngine symbol s)"

fun readLoop ::
  "(string, EngineQuote) fmap \<Rightarrow> string list \<Rightarrow> string list \<Rightarrow> ('e, 'p) Service \<Rightarrow>
   MarketQuote list \<times> ('e, 'p) Service" where
  "readLoop given seen [] s = ([], s)"
| "readLoop given seen (i # is) s =
    (if i \<in> set seen then readLoop given seen is s
     else
       let symbol = mSymbol (fmget Market0 (markets s) i);
           (found, t) = quoteFor given symbol s
       in case found of
            None \<Rightarrow> readLoop given (i # seen) is t
          | Some q \<Rightarrow>
             (let (qs, u) = readLoop given (i # seen) is t
              in (\<lparr>mqMarketID = i, mqSymbol = symbol, mqBid = qBid q, mqAsk = qAsk q,
                   mqSequence = sequence s\<rparr> # qs, u)))"

definition readQuotes :: "string list \<Rightarrow> EngineQuote list \<Rightarrow> ('e, 'p) Service \<Rightarrow> MarketQuote list \<times> ('e, 'p) Service" where
  "readQuotes ids supplied s = readLoop (bySymbol supplied) [] ids s"

definition publishQuotes :: "MarketQuote list \<Rightarrow> ('e, 'p) Service \<Rightarrow> ('e, 'p) Service" where
  "publishQuotes qs s =
    (if qs \<noteq> [] \<and> PublishQuotes (cfg s) then s\<lparr>published := published s @ [qs]\<rparr> else s)"

section \<open>The quote of one symbol\<close>

text \<open>
  The loop over the map of markets stops at the first market with the symbol; symbols are
  unique, so the order of the loop does not matter.
\<close>

definition marketBySymbol :: "string \<Rightarrow> 'a ledger_scheme \<Rightarrow> string option" where
  "marketBySymbol symbol s =
    find (\<lambda>i. mSymbol (fmget Market0 (markets s) i) = symbol) (sorted_list_of_fset (fmdom (markets s)))"

definition QuoteOf :: "string \<Rightarrow> ('e, 'p) Service \<Rightarrow> (goerror + MarketQuote) \<times> ('e, 'p) Service" where
  "QuoteOf symbol s =
    (case failure s of
       Some e \<Rightarrow> (Inl e, s)
     | None \<Rightarrow>
        (case marketBySymbol symbol s of
           None \<Rightarrow> (Inl (New ''market not found''), s)
         | Some i \<Rightarrow>
            (if mStatus (fmget Market0 (markets s) i) \<noteq> Open
             then (Inr \<lparr>mqMarketID = i, mqSymbol = symbol, mqBid = -1, mqAsk = -1,
                     mqSequence = sequence s\<rparr>, s)
             else case EngineOf (cfg s) of
                    None \<Rightarrow> (Inl (New ''engine quote snapshot unavailable''), s)
                  | Some eng \<Rightarrow>
                     (case EngineQuoteOf eng of
                        None \<Rightarrow> (Inl (New ''engine quote snapshot unavailable''), s)
                      | Some quote \<Rightarrow>
                         (case quote (engineState s) symbol of
                            (Inl e, es) \<Rightarrow> (Inl e, s\<lparr>engineState := es\<rparr>)
                          | (Inr q, es) \<Rightarrow>
                             (Inr \<lparr>mqMarketID = i, mqSymbol = symbol, mqBid = qBid q,
                                mqAsk = qAsk q, mqSequence = sequence s\<rparr>,
                              s\<lparr>engineState := es\<rparr>))))))"

section \<open>Quotes leave the ledger alone\<close>

text \<open>The ledger, the latch and the disk; only the engine state and the publications may differ.\<close>

definition same_ledger :: "('e, 'p) Service \<Rightarrow> ('e, 'p) Service \<Rightarrow> bool" where
  "same_ledger s t \<longleftrightarrow> book t = book s \<and> sequence t = sequence s \<and> failure t = failure s \<and>
     cfg t = cfg s \<and> disk t = disk s \<and> walFile t = walFile s \<and> projection t = projection s \<and>
     uuidCount t = uuidCount s"

lemma same_ledger_refl [simp]: "same_ledger s s"
  by (simp add: same_ledger_def)

lemma same_ledger_trans: "same_ledger s t \<Longrightarrow> same_ledger t u \<Longrightarrow> same_ledger s u"
  by (simp add: same_ledger_def)

lemma same_ledger_update [simp]:
  "same_ledger s (t\<lparr>engineState := es\<rparr>) = same_ledger s t"
  "same_ledger s (t\<lparr>published := ps\<rparr>) = same_ledger s t"
  by (simp_all add: same_ledger_def book_eq_iff)

lemma same_ledger_askEngine: "same_ledger s (snd (askEngine symbol s))"
  by (auto simp: askEngine_def split: option.splits prod.splits sum.splits)

lemma same_ledger_quoteFor: "same_ledger s (snd (quoteFor given symbol s))"
  by (simp add: quoteFor_def same_ledger_askEngine split: option.split)

text \<open>One round of the loop for a market not seen before.\<close>

lemma readLoop_fresh:
  assumes "i \<notin> set seen" and "quoteFor given (mSymbol (fmget Market0 (markets s) i)) s = (r, t)"
  shows "snd (readLoop given seen (i # is) s) = snd (readLoop given (i # seen) is t)"
    and "fst (readLoop given seen (i # is) s) =
      (case r of
         None \<Rightarrow> []
       | Some q \<Rightarrow> [\<lparr>mqMarketID = i, mqSymbol = mSymbol (fmget Market0 (markets s) i),
            mqBid = qBid q, mqAsk = qAsk q, mqSequence = sequence s\<rparr>])
      @ fst (readLoop given (i # seen) is t)"
  using assms by (simp_all add: Let_def case_prod_beta split: option.split)

lemma readLoop_seen: "i \<in> set seen \<Longrightarrow> readLoop given seen (i # is) s = readLoop given seen is s"
  by simp

declare readLoop.simps(2) [simp del]

lemma same_ledger_readLoop: "same_ledger s (snd (readLoop given seen is s))"
proof (induction "is" arbitrary: seen s)
  case (Cons i "is")
  obtain r t where q: "quoteFor given (mSymbol (fmget Market0 (markets s) i)) s = (r, t)"
    by (rule prod.exhaust)
  then have t: "same_ledger s t" using same_ledger_quoteFor [of s "given"] by (metis snd_conv)
  show ?case
  proof (cases "i \<in> set seen")
    case True
    then show ?thesis using Cons.IH by (simp add: readLoop_seen)
  next
    case False
    show ?thesis
      unfolding readLoop_fresh(1) [OF False q] by (rule same_ledger_trans [OF t Cons.IH])
  qed
qed simp

lemma same_ledger_readQuotes: "same_ledger s (snd (readQuotes ids supplied s))"
  by (simp add: readQuotes_def same_ledger_readLoop)

lemma same_ledger_publishQuotes [simp]: "same_ledger s (publishQuotes qs t) = same_ledger s t"
  by (simp add: publishQuotes_def)

lemma same_ledger_QuoteOf: "same_ledger s (snd (QuoteOf symbol s))"
  by (auto simp: QuoteOf_def split: option.splits prod.splits sum.splits)

text \<open>The common ending of an operation: read the quotes of the markets it touched, publish them.\<close>

definition quoteAndPublish :: "string list \<Rightarrow> EngineQuote list \<Rightarrow> ('e, 'p) Service \<Rightarrow> ('e, 'p) outcome" where
  "quoteAndPublish ids supplied s =
    (let (qs, t) = readQuotes ids supplied s in (None, publishQuotes qs t))"

lemma quoteAndPublish_ok:
  "fst (quoteAndPublish ids supplied s) = None" "same_ledger s (snd (quoteAndPublish ids supplied s))"
  using same_ledger_readQuotes [of s ids supplied]
  by (simp_all add: quoteAndPublish_def case_prod_beta)

text \<open>Each market gets at most one quote, stamped with the ledger's sequence.\<close>

lemma readLoop_quotes:
  "distinct (map mqMarketID (fst (readLoop given seen is s))) \<and>
   (\<forall>q\<in>set (fst (readLoop given seen is s)).
      mqMarketID q \<in> set is \<and> mqMarketID q \<notin> set seen \<and> mqSequence q = sequence s)"
proof (induction "is" arbitrary: seen s)
  case (Cons i "is")
  obtain r t where ask: "quoteFor given (mSymbol (fmget Market0 (markets s) i)) s = (r, t)"
    by (rule prod.exhaust)
  then have seq: "sequence t = sequence s"
    using same_ledger_quoteFor [of s "given"] by (metis same_ledger_def snd_conv)
  show ?case
  proof (cases "i \<in> set seen")
    case True
    then show ?thesis using Cons.IH [of seen s] by (simp add: readLoop_seen)
  next
    case False
    show ?thesis
      using Cons.IH [of "i # seen" t] seq False
      by (cases r) (auto simp: readLoop_fresh(2) [OF False ask])
  qed
qed simp

end
