(* ===== verification/Orders.thy ===== *)
theory Orders
  imports Quotes
begin

text \<open>
  Placing one order (service.go, lines 526 to 692): \<^verbatim>\<open>prepareOrder\<close> validates and reserves,
  \<^verbatim>\<open>fillEvents\<close> and \<^verbatim>\<open>buildTradeEvents\<close> turn the fills of the matching engine into
  accounting events, and \<^verbatim>\<open>placeSingle\<close> runs the two durable steps around the engine call.
\<close>

section \<open>Validation and reservation\<close>

definition sameParams :: "Order \<Rightarrow> Order \<Rightarrow> bool" where
  "sameParams a b \<longleftrightarrow> oUserID a = oUserID b \<and> oMarketID a = oMarketID b \<and> oSide a = oSide b \<and>
     oPrice a = oPrice b \<and> oQuantity a = oQuantity b"

definition reservationEvents :: "Order \<Rightarrow> int \<Rightarrow> Event list" where
  "reservationEvents od cost =
    (let first = Event0\<lparr>eType := EventOrder, eOrder := od, eUserID := oUserID od,
           eAmount := (if isBuy (oSide od) then i64 (- cost) else 0)\<rparr>
     in if isBuy (oSide od) then [first]
        else [first, Event0\<lparr>eType := EventPosition, eUserID := oUserID od, eMarketID := oMarketID od,
           eYesDelta := (if oSide od = SellYes then i64 (- oQuantity od) else 0),
           eNoDelta := (if oSide od = SellYes then 0 else i64 (- oQuantity od))\<rparr>])"

definition prepareOrder :: "'a ledger_scheme \<Rightarrow> Order \<Rightarrow> goerror + Event list" where
  "prepareOrder s od =
    (if int (u64 (oQuantity od)) > uint32_max then Inl (New ''quantity exceeds engine limit'')
     else if oID od = [] \<or> oUserID od = [] \<or> oQuantity od \<le> 0
     then Inl (New ''id, user and positive quantity are required'')
     else case fmlookup (orders s) (oID od) of
       Some existing \<Rightarrow>
         (if sameParams existing od then Inr []
          else Inl (New ''order id already exists with different parameters''))
     | None \<Rightarrow>
        (case fmlookup (markets s) (oMarketID od) of
           None \<Rightarrow> Inl (New ''market is not open'')
         | Some m \<Rightarrow>
            (if mStatus m \<noteq> Open then Inl (New ''market is not open'')
             else case translate (oSide od) (oPrice od) of
               Inl e \<Rightarrow> Inl e
             | Inr (price, engineSide) \<Rightarrow>
                (let cost = i64 (oPrice od * oQuantity od);
                     pos = PositionOf s (oUserID od) (oMarketID od)
                 in if isBuy (oSide od) \<and> Balance s (oUserID od) < cost
                    then Inl (New ''insufficient balance'')
                    else if oSide od = SellYes \<and> pYes pos < oQuantity od
                    then Inl (New ''insufficient YES shares'')
                    else if oSide od = SellNo \<and> pNo pos < oQuantity od
                    then Inl (New ''insufficient NO shares'')
                    else Inr (reservationEvents
                      (od\<lparr>oEnginePrice := price, oEngineSide := engineSide, oStatus := Pending,
                        oSequence := (sequence s + 1) mod 2 ^ 64\<rparr>) cost)))))"

section \<open>Fills\<close>

definition fillOrder :: "Order \<Rightarrow> int \<Rightarrow> Order" where
  "fillOrder od qty =
    (let filled = i64 (oFilledQuantity od + qty)
     in od\<lparr>oFilledQuantity := filled, oStatus := (if filled \<ge> oQuantity od then Filled else Partial)\<rparr>)"

definition fillYes :: "Side \<Rightarrow> int \<Rightarrow> int" where
  "fillYes side qty = (if side = BuyYes then qty else 0)"

definition fillNo :: "Side \<Rightarrow> int \<Rightarrow> int" where
  "fillNo side qty = (if side = BuyNo then qty else 0)"

definition fillCredit :: "Order \<Rightarrow> int \<Rightarrow> int \<Rightarrow> int" where
  "fillCredit od qty enginePrice =
    (case oSide od of
       BuyYes \<Rightarrow> i64 (i64 (oPrice od - enginePrice) * qty)
     | BuyNo \<Rightarrow> i64 (i64 (oPrice od - i64 (100 - enginePrice)) * qty)
     | SellYes \<Rightarrow> i64 (enginePrice * qty)
     | SellNo \<Rightarrow> i64 (i64 (100 - enginePrice) * qty)
     | OtherSide _ \<Rightarrow> 0)"

text \<open>
  \<^verbatim>\<open>fillEvents\<close> updates the staged copy of the order and returns two events. The staged map is
  a result, since Go passes the map by reference.
\<close>

definition fillEvents ::
  "'a ledger_scheme \<Rightarrow> (string, Order) fmap \<Rightarrow> string \<Rightarrow> int \<Rightarrow> int \<Rightarrow> Event list \<times> (string, Order) fmap" where
  "fillEvents s staged i qty enginePrice =
    (let od = fillOrder (case fmlookup staged i of Some x \<Rightarrow> x | None \<Rightarrow> fmget Order0 (orders s) i) qty
     in ([Event0\<lparr>eType := EventOrder, eOrder := od\<rparr>,
          Event0\<lparr>eType := EventPosition, eUserID := oUserID od, eMarketID := oMarketID od,
            eYesDelta := fillYes (oSide od) qty, eNoDelta := fillNo (oSide od) qty,
            eAmount := fillCredit od qty enginePrice\<rparr>],
         fmupd i od staged))"

definition lookupEngine ::
  "'a ledger_scheme \<Rightarrow> (engineOrderKey, string) fmap \<Rightarrow> string \<Rightarrow> nat \<Rightarrow> string option" where
  "lookupEngine s overrides market engineID =
    (case fmlookup overrides (market, engineID) of
       Some i \<Rightarrow> Some i
     | None \<Rightarrow> fmlookup (engineOrders s) (market, engineID))"

definition tradeEvent :: "string \<Rightarrow> string \<Rightarrow> string \<Rightarrow> EngineTrade \<Rightarrow> Event" where
  "tradeEvent market buyID sellID f =
    Event0\<lparr>eType := EventTrade, eTrade := \<lparr>tMarketID = market, tBuyOrderID = buyID,
      tSellOrderID = sellID, tPrice = etPrice f, tQuantity = etQuantity f\<rparr>\<rparr>"

fun buildTradeEvents ::
  "'a ledger_scheme \<Rightarrow> string \<Rightarrow> EngineTrade list \<Rightarrow> (engineOrderKey, string) fmap \<Rightarrow>
   (string, Order) fmap \<Rightarrow> Event list \<times> (string, Order) fmap" where
  "buildTradeEvents s market [] overrides staged = ([], staged)"
| "buildTradeEvents s market (f # fs) overrides staged =
    (case (lookupEngine s overrides market (etBuyOrderID f),
           lookupEngine s overrides market (etSellOrderID f)) of
       (Some buyID, Some sellID) \<Rightarrow>
         (let (bought, staged1) = fillEvents s staged buyID (int (etQuantity f)) (etPrice f);
              (sold, staged2) = fillEvents s staged1 sellID (int (etQuantity f)) (etPrice f);
              (rest, staged3) = buildTradeEvents s market fs overrides staged2
          in (bought @ sold @ [tradeEvent market buyID sellID f] @ rest, staged3))
     | _ \<Rightarrow> buildTradeEvents s market fs overrides staged)"

definition applyTrades :: "string \<Rightarrow> EngineTrade list \<Rightarrow> ('e, 'p) Service \<Rightarrow> ('e, 'p) outcome" where
  "applyTrades market trades s =
    (let events = fst (buildTradeEvents s market trades fmempty fmempty)
     in if events = [] then (None, s) else commitMany events s)"

section \<open>One order\<close>

text \<open>
  \<open>ctxErr\<close> is what \<^verbatim>\<open>ctx.Err()\<close> returns when the operation holds the lock.
\<close>

definition completion ::
  "('e, 'p) Service \<Rightarrow> Order \<Rightarrow> EngineResult \<Rightarrow> Event list" where
  "completion s od result =
    Event0\<lparr>eType := EventOrder, eOrder := od\<rparr>
    # fst (buildTradeEvents s (oMarketID od) (erTrades result)
         (fmupd (oMarketID od, oEngineID od) (oID od) fmempty) (fmupd (oID od) od fmempty))"

definition submitSingle :: "Order \<Rightarrow> Market \<Rightarrow> ('e, 'p) Service \<Rightarrow> ('e, 'p) outcome" where
  "submitSingle od m s =
    (case EngineOf (cfg s) of
       None \<Rightarrow> commit (Event0\<lparr>eType := EventOrder, eOrder := od\<lparr>oStatus := Open\<rparr>\<rparr>) s
     | Some eng \<Rightarrow>
        (case AddOrder eng (engineState s) (mSymbol m) (i32 (oEnginePrice od)) (u32 (oQuantity od))
                (oEngineSide od) of
           (Inl e, es) \<Rightarrow> fail (Wrap ''matching engine'' e) (s\<lparr>engineState := es\<rparr>)
         | (Inr result, es) \<Rightarrow>
            (let t = s\<lparr>engineState := es\<rparr>;
                 od1 = od\<lparr>oEngineID := erOrderID result, oStatus := Open\<rparr>
             in andThen (commitMany (completion t od1 result) t)
                  (quoteAndPublish [oMarketID od] []))))"

definition placeSingle :: "goerror option \<Rightarrow> Order \<Rightarrow> ('e, 'p) Service \<Rightarrow> ('e, 'p) outcome" where
  "placeSingle ctxErr od s =
    (case ctxErr of
       Some e \<Rightarrow> (Some e, s)
     | None \<Rightarrow>
        (case failure s of
           Some e \<Rightarrow> (Some e, s)
         | None \<Rightarrow>
            (case prepareOrder s od of
               Inl e \<Rightarrow> (Some e, s)
             | Inr [] \<Rightarrow> (None, s)
             | Inr (first # rest) \<Rightarrow>
                andThen (commitMany (first # rest) s)
                  (submitSingle (eOrder first) (fmget Market0 (markets s) (oMarketID (eOrder first)))))))"

end
