(* ===== verification/Fills.thy ===== *)
theory Fills
  imports Orders
begin

text \<open>
  The accounting of fills. A fill of quantity \<open>q\<close> at engine price \<open>p\<close> moves value
  \<open>(100 - p) * q\<close> into the engine's buy side and out of its sell side, whatever the four kinds
  of orders are; so the two legs of a trade cancel. The theory proves this for one leg, for a
  trade, and for the list of trades that answers an order.
\<close>

section \<open>Ideal effect of the events the service builds\<close>

lemma ideal_order_event [simp]:
  "ideal_event (Event0\<lparr>eType := EventOrder, eOrder := od, eUserID := u, eAmount := a\<rparr>) s
    = ideal_balance u a (putOrder od s)"
  "ideal_event (Event0\<lparr>eType := EventOrder, eOrder := od\<rparr>) s = ideal_balance [] 0 (putOrder od s)"
  by (simp_all add: ideal_event_def)

lemma ideal_position_event [simp]:
  "ideal_event (Event0\<lparr>eType := EventPosition, eUserID := u, eMarketID := m, eYesDelta := y,
      eNoDelta := n, eAmount := a\<rparr>) s = ideal_balance u a (ideal_position u m y n s)"
  "ideal_event (Event0\<lparr>eType := EventPosition, eUserID := u, eMarketID := m, eYesDelta := y,
      eNoDelta := n\<rparr>) s = ideal_balance u 0 (ideal_position u m y n s)"
  by (simp_all add: ideal_event_def)

lemma ideal_trade_event [simp]: "ideal_event (tradeEvent market b sl f) s = s"
  by (simp add: ideal_event_def tradeEvent_def)

lemma ideal_all_simps [simp]:
  "ideal_all [] s = s" "ideal_all (e # es) s = ideal_all es (ideal_event e s)"
  "ideal_all (es @ es') s = ideal_all es' (ideal_all es s)"
  by (simp_all add: ideal_all_def)

section \<open>One leg\<close>

definition fillable :: "Order \<Rightarrow> int \<Rightarrow> int \<Rightarrow> bool" where
  "fillable od q p \<longleftrightarrow> live od \<and> 0 < q \<and> q \<le> remaining od \<and> 0 \<le> p \<and> p \<le> 100 \<and>
     (if oEngineSide od = ''buy'' then p \<le> oEnginePrice od else oEnginePrice od \<le> p)"

text \<open>The sign of a leg: plus on the engine's buy side, minus on its sell side.\<close>

definition legSign :: "Order \<Rightarrow> int" where
  "legSign od = (if oEngineSide od = ''buy'' then 1 else - 1)"

lemma order_ok_sides:
  assumes "order_ok k od"
  obtains (BY) "oSide od = BuyYes" "oEngineSide od = ''buy''" "oEnginePrice od = oPrice od"
    | (BN) "oSide od = BuyNo" "oEngineSide od = ''sell''" "oEnginePrice od = 100 - oPrice od"
    | (SY) "oSide od = SellYes" "oEngineSide od = ''sell''" "oEnginePrice od = oPrice od"
    | (SN) "oSide od = SellNo" "oEngineSide od = ''buy''" "oEnginePrice od = 100 - oPrice od"
  using assms by (cases "oSide od") (auto simp: order_ok_def translate_def split: if_splits)

lemma small_product:
  assumes "\<bar>a\<bar> \<le> 100" and "0 \<le> q" and "q \<le> uint32_max"
  shows "in_i64 (a * q)"
proof -
  have "\<bar>a * q\<bar> \<le> 100 * uint32_max"
    unfolding abs_mult using assms by (intro mult_mono) auto
  then show ?thesis by (auto simp: in_i64_def)
qed

lemma in_i64_small: "\<bar>a\<bar> \<le> 4294967296 \<Longrightarrow> in_i64 a"
  by (auto simp: in_i64_def)

lemma fillOrder_exact:
  assumes "order_ok k od" and "fillable od q p"
  shows "fillOrder od q = od\<lparr>oFilledQuantity := oFilledQuantity od + q,
    oStatus := (if oFilledQuantity od + q = oQuantity od then Filled else Partial)\<rparr>"
proof -
  have "i64 (oFilledQuantity od + q) = oFilledQuantity od + q"
    using assms by (intro i64_id in_i64_small) (auto simp: order_ok_def fillable_def remaining_def)
  then show ?thesis
    using assms by (auto simp: fillOrder_def fillable_def remaining_def)
qed

lemma fillOrder_ok:
  assumes "order_ok k od" and "fillable od q p"
  shows "order_ok k (fillOrder od q)"
  using assms by (auto simp: fillOrder_exact [OF assms] order_ok_def fillable_def remaining_def live_def)

definition exactCredit :: "Order \<Rightarrow> int \<Rightarrow> int \<Rightarrow> int" where
  "exactCredit od q p =
    (case oSide od of
       BuyYes \<Rightarrow> (oPrice od - p) * q
     | BuyNo \<Rightarrow> (oPrice od - (100 - p)) * q
     | SellYes \<Rightarrow> p * q
     | SellNo \<Rightarrow> (100 - p) * q
     | OtherSide _ \<Rightarrow> 0)"

lemma fillCredit_exact:
  assumes "order_ok k od" and "fillable od q p"
  shows "fillCredit (fillOrder od q) q p = exactCredit od q p" and "0 \<le> exactCredit od q p"
proof -
  have q: "0 \<le> q" "q \<le> uint32_max"
    using assms by (auto simp: order_ok_def fillable_def remaining_def)
  have p: "0 \<le> p" "p \<le> 100" and price: "1 \<le> oPrice od" "oPrice od \<le> 99"
    using assms order_ok_price [OF assms(1)] by (auto simp: fillable_def)
  have side: "oSide (fillOrder od q) = oSide od" "oPrice (fillOrder od q) = oPrice od"
    by (simp_all add: fillOrder_def Let_def)
  have small: "in_i64 (oPrice od - p)" "in_i64 (100 - p)" "in_i64 (oPrice od - (100 - p))"
    using p price by (auto intro!: in_i64_small)
  have prods: "in_i64 ((oPrice od - p) * q)" "in_i64 ((oPrice od - (100 - p)) * q)"
      "in_i64 (p * q)" "in_i64 ((100 - p) * q)"
    using p price by (auto intro!: small_product q)
  show "fillCredit (fillOrder od q) q p = exactCredit od q p"
    using small prods by (simp add: fillCredit_def exactCredit_def side split: Side.split)
  show "0 \<le> exactCredit od q p"
    using assms(2) p q by (cases rule: order_ok_sides [OF assms(1)])
      (auto simp: exactCredit_def fillable_def intro!: mult_nonneg_nonneg)
qed

definition leg :: "Order \<Rightarrow> int \<Rightarrow> int \<Rightarrow> 'a ledger_scheme \<Rightarrow> 'a ledger_scheme" where
  "leg od q p s =
    ideal_balance (oUserID od) (exactCredit od q p)
      (ideal_position (oUserID od) (oMarketID od) (fillYes (oSide od) q) (fillNo (oSide od) q)
        (ideal_balance [] 0 (putOrder (fillOrder od q) s)))"

lemma fillEvents_leg:
  assumes "order_ok k od" and "fillable od q p"
    and "(case fmlookup staged i of Some x \<Rightarrow> x | None \<Rightarrow> fmget Order0 (orders s) i) = od"
  shows "ideal_all (fst (fillEvents s staged i q p)) t = leg od q p t"
    and "snd (fillEvents s staged i q p) = fmupd i (fillOrder od q) staged"
proof -
  have keep: "oUserID (fillOrder od q) = oUserID od" "oMarketID (fillOrder od q) = oMarketID od"
      "oSide (fillOrder od q) = oSide od"
    by (simp_all add: fillOrder_def Let_def)
  show "ideal_all (fst (fillEvents s staged i q p)) t = leg od q p t"
    by (simp add: fillEvents_def Let_def assms(3) keep leg_def fillCredit_exact [OF assms(1,2)])
  show "snd (fillEvents s staged i q p) = fmupd i (fillOrder od q) staged"
    by (simp add: fillEvents_def Let_def assms(3))
qed

text \<open>The effect of a leg on value, on the balance of YES and NO shares, and on the signs.\<close>

lemma fillOrder_locked:
  assumes "order_ok k od" and "fillable od q p"
  shows "lockedCash (fillOrder od q) = lockedCash od - (if isBuy (oSide od) then oPrice od * q else 0)"
    and "lockedYes (fillOrder od q) = lockedYes od - (if oSide od = SellYes then q else 0)"
    and "lockedNo (fillOrder od q) = lockedNo od - (if oSide od = SellNo then q else 0)"
proof -
  have r: "remaining (fillOrder od q) = remaining od - q" "oSide (fillOrder od q) = oSide od"
      "oPrice (fillOrder od q) = oPrice od" "live (fillOrder od q) \<longleftrightarrow> q \<noteq> remaining od" "live od"
    using assms(2) by (auto simp: fillOrder_exact [OF assms] remaining_def live_def fillable_def)
  show "lockedCash (fillOrder od q) = lockedCash od - (if isBuy (oSide od) then oPrice od * q else 0)"
    "lockedYes (fillOrder od q) = lockedYes od - (if oSide od = SellYes then q else 0)"
    "lockedNo (fillOrder od q) = lockedNo od - (if oSide od = SellNo then q else 0)"
    by (auto simp: lockedCash_def lockedYes_def lockedNo_def r right_diff_distrib)
qed

lemma leg_measures:
  assumes "order_ok k od" and "fillable od q p" and "fmlookup (orders s) k = Some od"
  shows "value_of (leg od q p s) = value_of s + legSign od * ((100 - p) * q)"
    and "skew (leg od q p s) m = skew s m + (if m = oMarketID od then legSign od * q else 0)"
proof -
  have k: "oID (fillOrder od q) = k" "oMarketID (fillOrder od q) = oMarketID od"
    using assms(1) by (simp_all add: fillOrder_def Let_def order_ok_def)
  note m = ideal_balance_cash ideal_balance_measures ideal_position_measures putOrder_measures k
    held_Some [OF assms(3)] fillOrder_locked [OF assms(1,2)]
  show "value_of (leg od q p s) = value_of s + legSign od * ((100 - p) * q)"
    by (cases rule: order_ok_sides [OF assms(1)])
      (simp_all add: value_of_def leg_def m legSign_def fillYes_def fillNo_def exactCredit_def algebra_simps)
  show "skew (leg od q p s) m = skew s m + (if m = oMarketID od then legSign od * q else 0)"
    by (cases rule: order_ok_sides [OF assms(1)])
      (auto simp: skew_def leg_def m legSign_def fillYes_def fillNo_def)
qed

lemma ledger_pos_leg:
  assumes "ledger_pos s" and "order_ok k od" and "fillable od q p"
  shows "ledger_pos (leg od q p s)"
proof -
  have "0 \<le> fillYes (oSide od) q" "0 \<le> fillNo (oSide od) q"
    using assms(3) by (simp_all add: fillYes_def fillNo_def fillable_def)
  moreover have "order_ok (oID (fillOrder od q)) (fillOrder od q)"
    using fillOrder_ok [OF assms(2,3)] order_ok_ID by metis
  then have "ledger_pos (ideal_balance [] 0 (putOrder (fillOrder od q) s))"
    using assms(1) by (auto intro!: ledger_pos_balance ledger_pos_putOrder ledger_pos_nonneg)
  ultimately show ?thesis
    unfolding leg_def using fillCredit_exact(2) [OF assms(2,3)]
    by (auto intro!: ledger_pos_balance ledger_pos_position add_nonneg_nonneg ledger_pos_nonneg)
qed

lemma leg_orders [simp]:
  "orders (leg od q p s) = fmupd (oID od) (fillOrder od q) (orders s)"
  "markets (leg od q p s) = markets s"
  by (simp_all add: leg_def fillOrder_def Let_def)

section \<open>A list of trades\<close>

text \<open>
  What the ledger relies on when the matching engine answers: both sides of a trade are known,
  distinct, live orders of the market on opposite sides of the engine's book, the quantity does
  not exceed what either has left, and the price is within both limits. The map of orders
  follows the fills.
\<close>

fun validTrades :: "(nat \<Rightarrow> string option) \<Rightarrow> string \<Rightarrow> (string, Order) fmap \<Rightarrow> EngineTrade list \<Rightarrow> bool" where
  "validTrades look market os [] = True"
| "validTrades look market os (f # fs) =
    (case (look (etBuyOrderID f), look (etSellOrderID f)) of
       (Some b, Some sl) \<Rightarrow>
        (case (fmlookup os b, fmlookup os sl) of
           (Some ob, Some osl) \<Rightarrow>
             b \<noteq> sl \<and> oMarketID ob = market \<and> oMarketID osl = market \<and>
             oEngineSide ob = ''buy'' \<and> oEngineSide osl = ''sell'' \<and>
             fillable ob (int (etQuantity f)) (etPrice f) \<and>
             fillable osl (int (etQuantity f)) (etPrice f) \<and>
             validTrades look market
               (fmupd sl (fillOrder osl (int (etQuantity f))) (fmupd b (fillOrder ob (int (etQuantity f))) os)) fs
         | _ \<Rightarrow> False)
     | _ \<Rightarrow> False)"

lemma validTrades_ConsE:
  assumes "validTrades look market os (f # fs)"
  obtains b sl ob osl where
    "look (etBuyOrderID f) = Some b" "look (etSellOrderID f) = Some sl"
    "fmlookup os b = Some ob" "fmlookup os sl = Some osl" "b \<noteq> sl"
    "oMarketID ob = market" "oMarketID osl = market"
    "oEngineSide ob = ''buy''" "oEngineSide osl = ''sell''"
    "fillable ob (int (etQuantity f)) (etPrice f)" "fillable osl (int (etQuantity f)) (etPrice f)"
    "validTrades look market
      (fmupd sl (fillOrder osl (int (etQuantity f))) (fmupd b (fillOrder ob (int (etQuantity f))) os)) fs"
  using assms by (auto split: option.splits)

text \<open>The staged copies and the stored orders together are the orders of the ideal ledger.\<close>

definition agrees :: "'a ledger_scheme \<Rightarrow> (string, Order) fmap \<Rightarrow> 'b ledger_scheme \<Rightarrow> bool" where
  "agrees s staged t \<longleftrightarrow>
    (\<forall>i. fmlookup (orders t) i = (case fmlookup staged i of Some x \<Rightarrow> Some x | None \<Rightarrow> fmlookup (orders s) i))"

lemma agrees_get:
  assumes "agrees s staged t" and "fmlookup (orders t) i = Some od"
  shows "(case fmlookup staged i of Some x \<Rightarrow> x | None \<Rightarrow> fmget Order0 (orders s) i) = od"
  using assms by (auto simp: agrees_def fmget_def split: option.splits)

lemma agrees_leg:
  assumes "agrees s staged t" and "oID od = i"
  shows "agrees s (fmupd i (fillOrder od q) staged) (leg od q p t)"
  using assms by (simp add: agrees_def)

text \<open>The two legs of one trade.\<close>

definition tradeStep :: "Order \<Rightarrow> Order \<Rightarrow> int \<Rightarrow> int \<Rightarrow> 'a ledger_scheme \<Rightarrow> 'a ledger_scheme" where
  "tradeStep ob osl q p t = leg osl q p (leg ob q p t)"

lemma tradeStep_keeps:
  assumes "ledger_pos t"
    and "fmlookup (orders t) b = Some ob" and "fmlookup (orders t) sl = Some osl" and "b \<noteq> sl"
    and "oMarketID ob = oMarketID osl" and "oEngineSide ob = ''buy''" and "oEngineSide osl = ''sell''"
    and "fillable ob q p" and "fillable osl q p"
  shows "ledger_pos (tradeStep ob osl q p t)" and "value_of (tradeStep ob osl q p t) = value_of t"
    and "skew (tradeStep ob osl q p t) m = skew t m"
    and "orders (tradeStep ob osl q p t) = fmupd sl (fillOrder osl q) (fmupd b (fillOrder ob q) (orders t))"
    and "markets (tradeStep ob osl q p t) = markets t"
proof -
  have okb: "order_ok b ob" and oks: "order_ok sl osl"
    using assms(1-3) by (auto simp: ledger_pos_def)
  note ids = order_ok_ID [OF okb] order_ok_ID [OF oks]
  have pos1: "ledger_pos (leg ob q p t)" by (rule ledger_pos_leg [OF assms(1) okb assms(8)])
  have at1: "fmlookup (orders (leg ob q p t)) sl = Some osl" using assms(3,4) ids by simp
  show "ledger_pos (tradeStep ob osl q p t)"
    unfolding tradeStep_def by (rule ledger_pos_leg [OF pos1 oks assms(9)])
  show "value_of (tradeStep ob osl q p t) = value_of t"
    unfolding tradeStep_def leg_measures(1) [OF oks assms(9) at1] leg_measures(1) [OF okb assms(8,2)]
    using assms(6,7) by (simp add: legSign_def)
  show "skew (tradeStep ob osl q p t) m = skew t m"
    unfolding tradeStep_def leg_measures(2) [OF oks assms(9) at1] leg_measures(2) [OF okb assms(8,2)]
    using assms(5-7) by (simp add: legSign_def)
  show "orders (tradeStep ob osl q p t) = fmupd sl (fillOrder osl q) (fmupd b (fillOrder ob q) (orders t))"
    "markets (tradeStep ob osl q p t) = markets t"
    using ids by (simp_all add: tradeStep_def)
qed

text \<open>The events of the loop, applied to the ideal ledger, are the trade steps in order.\<close>

lemma buildTradeEvents_step:
  assumes "lookupEngine s overrides market (etBuyOrderID f) = Some b"
    and "lookupEngine s overrides market (etSellOrderID f) = Some sl"
    and "agrees s staged t" and "ledger_pos t"
    and "fmlookup (orders t) b = Some ob" and "fmlookup (orders t) sl = Some osl" and "b \<noteq> sl"
    and "fillable ob q p" and "fillable osl q p" and "q = int (etQuantity f)" and "p = etPrice f"
  defines "staged2 \<equiv> fmupd sl (fillOrder osl q) (fmupd b (fillOrder ob q) staged)"
  shows "ideal_all (fst (buildTradeEvents s market (f # fs) overrides staged)) t
      = ideal_all (fst (buildTradeEvents s market fs overrides staged2)) (tradeStep ob osl q p t)"
    and "snd (buildTradeEvents s market (f # fs) overrides staged)
      = snd (buildTradeEvents s market fs overrides staged2)"
    and "agrees s staged2 (tradeStep ob osl q p t)"
proof -
  have okb: "order_ok b ob" and oks: "order_ok sl osl"
    using assms(4-6) by (auto simp: ledger_pos_def)
  note ids = order_ok_ID [OF okb] order_ok_ID [OF oks]
  have buy: "ideal_all (fst (fillEvents s staged b q p)) t = leg ob q p t"
      "snd (fillEvents s staged b q p) = fmupd b (fillOrder ob q) staged"
    by (rule fillEvents_leg [OF okb assms(8) agrees_get [OF assms(3,5)]])+
  have ag1: "agrees s (fmupd b (fillOrder ob q) staged) (leg ob q p t)"
    by (rule agrees_leg [OF assms(3) ids(1)])
  have at1: "fmlookup (orders (leg ob q p t)) sl = Some osl" using assms(6,7) ids by simp
  have sell: "ideal_all (fst (fillEvents s (fmupd b (fillOrder ob q) staged) sl q p)) (leg ob q p t)
        = leg osl q p (leg ob q p t)"
      "snd (fillEvents s (fmupd b (fillOrder ob q) staged) sl q p) = staged2"
    unfolding staged2_def by (rule fillEvents_leg [OF oks assms(9) agrees_get [OF ag1 at1]])+
  show "ideal_all (fst (buildTradeEvents s market (f # fs) overrides staged)) t
      = ideal_all (fst (buildTradeEvents s market fs overrides staged2)) (tradeStep ob osl q p t)"
    "snd (buildTradeEvents s market (f # fs) overrides staged)
      = snd (buildTradeEvents s market fs overrides staged2)"
    using assms(1,2,10,11) buy sell
    by (simp_all add: case_prod_beta tradeStep_def staged2_def)
  show "agrees s staged2 (tradeStep ob osl q p t)"
    unfolding staged2_def tradeStep_def by (rule agrees_leg [OF ag1 ids(2)])
qed

lemma trades_ideal:
  assumes "validTrades (lookupEngine s overrides market) market (orders t) fs"
    and "agrees s staged t" and "ledger_pos t"
  defines "r \<equiv> buildTradeEvents s market fs overrides staged"
  shows "ledger_pos (ideal_all (fst r) t) \<and> value_of (ideal_all (fst r) t) = value_of t \<and>
    (\<forall>m. skew (ideal_all (fst r) t) m = skew t m) \<and> markets (ideal_all (fst r) t) = markets t \<and>
    agrees s (snd r) (ideal_all (fst r) t)"
  using assms(1-3) unfolding r_def
proof (induction fs arbitrary: staged t)
  case (Cons f fs)
  from Cons.prems(1) obtain b sl ob osl where f:
    "lookupEngine s overrides market (etBuyOrderID f) = Some b"
    "lookupEngine s overrides market (etSellOrderID f) = Some sl"
    "fmlookup (orders t) b = Some ob" "fmlookup (orders t) sl = Some osl" "b \<noteq> sl"
    "oMarketID ob = market" "oMarketID osl = market"
    "oEngineSide ob = ''buy''" "oEngineSide osl = ''sell''"
    "fillable ob (int (etQuantity f)) (etPrice f)" "fillable osl (int (etQuantity f)) (etPrice f)"
    "validTrades (lookupEngine s overrides market) market
      (fmupd sl (fillOrder osl (int (etQuantity f))) (fmupd b (fillOrder ob (int (etQuantity f))) (orders t))) fs"
    by (rule validTrades_ConsE)
  have same: "oMarketID ob = oMarketID osl" using f(6,7) by simp
  note step = buildTradeEvents_step [OF f(1,2) Cons.prems(2,3) f(3,4,5,10,11) refl refl]
  note keeps = tradeStep_keeps [OF Cons.prems(3) f(3,4,5) same f(8,9,10,11)]
  have "validTrades (lookupEngine s overrides market) market
      (orders (tradeStep ob osl (int (etQuantity f)) (etPrice f) t)) fs"
    using f(12) keeps(4) by simp
  from Cons.IH [OF this step(3) keeps(1)] show ?case
    by (simp only: step(1,2) keeps(2,3,5) simp_thms)
qed simp

end
