(* ===== verification/Placement.thy ===== *)
theory Placement
  imports Fills
begin

text \<open>
  Placing an order keeps the books: the reservation moves cash or shares from the account into
  the order, the completion moves them along the fills. Both steps are durable commits, so the
  books are funded after every outcome, also after a failure between them.
\<close>

section \<open>Funded books\<close>

definition funded :: "int \<Rightarrow> 'a ledger_scheme \<Rightarrow> bool" where
  "funded D s \<longleftrightarrow> ledger_ok s \<and> value_of s = D \<and> D \<le> int64_max"

lemma funded_book [simp]: "funded D (book s) = funded D s"
  by (simp add: funded_def ledger_pos_frame [of "book s" s] measures_frame [of "book s" s])

lemma funded_keeps: "keeps s t \<Longrightarrow> funded D t = funded D s"
  by (metis funded_book keeps_def)

lemma funded_same: "same_ledger s t \<Longrightarrow> funded D t = funded D s"
  by (metis funded_book same_ledger_def)

lemma funded_pos: "funded D s \<Longrightarrow> ledger_pos s"
  by (simp add: funded_def ledger_ok_def)

lemma funded_nonneg: "funded D s \<Longrightarrow> 0 \<le> D"
  using ledger_pos_parts [of s] by (auto simp: funded_def value_of_def ledger_ok_pos)

lemma fundedI:
  assumes "ledger_pos t" and "value_of t = D'" and "\<And>m. skew t m = 0" and "D' \<le> int64_max"
  shows "funded D' t"
  using assms by (simp add: funded_def ledger_ok_def)

text \<open>
  The rule for a commit: if the ideal ledger stays funded, the program's ledger is the ideal
  one after a success, and unchanged after an error.
\<close>

lemma apply_all_funded:
  assumes "funded D s" and "funded D' (ideal_all es s)"
  shows "apply_all es s = ideal_all es s"
  using assms by (intro apply_all_ideal ledger_ok_in_range) (auto simp: funded_def)

lemma commit_funded:
  assumes "commitMany es s = (r, t)" and "funded D s" and "funded D' (ideal_all es (book s))"
  shows "r = None \<Longrightarrow> funded D' t \<and> book t = book (ideal_all es (book s))"
    and "r \<noteq> None \<Longrightarrow> funded D t \<and> book t = book s \<and> failure t \<noteq> None"
proof -
  have ideal: "apply_all es (book s) = ideal_all es (book s)"
    using assms(2,3) by (intro apply_all_funded) simp_all
  show "funded D' t \<and> book t = book (ideal_all es (book s))" if "r = None"
  proof -
    have "book t = book (ideal_all es (book s))"
      using commitMany_ok(3) [of es s t] assms(1) that ideal by simp
    then show ?thesis using assms(3) funded_book by metis
  qed
  show "funded D t \<and> book t = book s \<and> failure t \<noteq> None" if "r \<noteq> None"
    using commitMany_err [of es s _ t] assms(1,2) that funded_keeps [of s t D]
    by (auto simp: keeps_def)
qed

text \<open>The same for a commit that ends with the publication of quotes.\<close>

lemma publish_book:
  assumes "andThen (commitMany es s) (quoteAndPublish ids supplied) = (r, t)"
  obtains t1 where "commitMany es s = (r, t1)" "same_ledger t1 t"
proof -
  obtain r1 t1 where c: "commitMany es s = (r1, t1)" by (rule prod.exhaust)
  show thesis
    using that [of t1] assms c quoteAndPublish_ok [where s = t1 and ids = ids and supplied = supplied]
    by (cases r1) auto
qed

lemma commit_publish_funded:
  assumes "andThen (commitMany es s) (quoteAndPublish ids supplied) = (r, t)" and "funded D s"
    and "funded D' (ideal_all es (book s))"
  shows "r = None \<Longrightarrow> funded D' t \<and> book t = book (ideal_all es (book s))"
    and "r \<noteq> None \<Longrightarrow> funded D t \<and> book t = book s \<and> failure t \<noteq> None"
proof -
  obtain t1 where t1: "commitMany es s = (r, t1)" "same_ledger t1 t" by (rule publish_book [OF assms(1)])
  have eq: "funded x t = funded x t1" "book t = book t1" "failure t = failure t1" for x
    using t1(2) funded_same [OF t1(2)] by (simp_all add: same_ledger_def)
  show "r = None \<Longrightarrow> funded D' t \<and> book t = book (ideal_all es (book s))"
    unfolding eq by (rule commit_funded(1) [OF t1(1) assms(2,3)])
  show "r \<noteq> None \<Longrightarrow> funded D t \<and> book t = book s \<and> failure t \<noteq> None"
    unfolding eq by (rule commit_funded(2) [OF t1(1) assms(2,3)])
qed

section \<open>The reservation\<close>

text \<open>
  An order as a client submits it: the fields of Go types are in their ranges, and nothing of
  it is filled or known to the engine.
\<close>

definition submission :: "Order \<Rightarrow> bool" where
  "submission od \<longleftrightarrow> in_i64 (oQuantity od) \<and> in_i64 (oPrice od) \<and> oFilledQuantity od = 0 \<and>
     oEngineID od = 0"

text \<open>What \<^verbatim>\<open>prepareOrder\<close> guarantees when it admits a new order.\<close>

lemma prepareOrder_admits:
  assumes "prepareOrder s od = Inr evs" and "evs \<noteq> []" and "submission od"
  obtains price side od' m where
    "fmlookup (orders s) (oID od) = None"
    "fmlookup (markets s) (oMarketID od) = Some m" "mStatus m = Open"
    "translate (oSide od) (oPrice od) = Inr (price, side)"
    "od' = od\<lparr>oEnginePrice := price, oEngineSide := side, oStatus := Pending,
       oSequence := (sequence s + 1) mod 2 ^ 64\<rparr>"
    "order_ok (oID od) od'" "evs = reservationEvents od' (oPrice od * oQuantity od)"
    "isBuy (oSide od) \<longrightarrow> oPrice od * oQuantity od \<le> Balance s (oUserID od)"
    "oSide od = SellYes \<longrightarrow> oQuantity od \<le> pYes (PositionOf s (oUserID od) (oMarketID od))"
    "oSide od = SellNo \<longrightarrow> oQuantity od \<le> pNo (PositionOf s (oUserID od) (oMarketID od))"
proof -
  have q: "0 < oQuantity od" "oQuantity od \<le> uint32_max" "oID od \<noteq> []" "oUserID od \<noteq> []"
    using assms(1,3) u64_le_uint32_iff [of "oQuantity od"]
    by (auto simp: prepareOrder_def submission_def split: if_splits)
  obtain m price side where g: "fmlookup (orders s) (oID od) = None"
      "fmlookup (markets s) (oMarketID od) = Some m" "mStatus m = Open"
      "translate (oSide od) (oPrice od) = Inr (price, side)"
    using assms(1,2) by (auto simp: prepareOrder_def split: if_splits option.splits sum.splits)
  have cost: "i64 (oPrice od * oQuantity od) = oPrice od * oQuantity od"
    using g(4) q by (intro i64_id small_product) (auto simp: translate_def split: if_splits)
  define od' where "od' = od\<lparr>oEnginePrice := price, oEngineSide := side, oStatus := Pending,
       oSequence := (sequence s + 1) mod 2 ^ 64\<rparr>"
  have "order_ok (oID od) od'"
    using q g(4) assms(3) by (simp add: order_ok_def od'_def submission_def)
  moreover have "evs = reservationEvents od' (oPrice od * oQuantity od)"
    and "isBuy (oSide od) \<longrightarrow> oPrice od * oQuantity od \<le> Balance s (oUserID od)"
    and "oSide od = SellYes \<longrightarrow> oQuantity od \<le> pYes (PositionOf s (oUserID od) (oMarketID od))"
    and "oSide od = SellNo \<longrightarrow> oQuantity od \<le> pNo (PositionOf s (oUserID od) (oMarketID od))"
    using assms(1) g cost unfolding prepareOrder_def od'_def
    by (auto simp: Let_def split: if_splits)
  ultimately show thesis using that g od'_def by blast
qed

text \<open>The reservation, applied to the ideal ledger.\<close>

lemma reservation_orders:
  "orders (ideal_all (reservationEvents od c) s) = fmupd (oID od) od (orders s)"
  "markets (ideal_all (reservationEvents od c) s) = markets s"
  by (simp_all add: reservationEvents_def Let_def)

lemma reservation_ideal:
  assumes "order_ok (oID od) od" and "oStatus od = Pending" and "oFilledQuantity od = 0"
    and "fmlookup (orders s) (oID od) = None" and "funded D s"
    and "isBuy (oSide od) \<Longrightarrow> oPrice od * oQuantity od \<le> Balance s (oUserID od)"
    and "oSide od = SellYes \<Longrightarrow> oQuantity od \<le> pYes (PositionOf s (oUserID od) (oMarketID od))"
    and "oSide od = SellNo \<Longrightarrow> oQuantity od \<le> pNo (PositionOf s (oUserID od) (oMarketID od))"
  shows "funded D (ideal_all (reservationEvents od (oPrice od * oQuantity od)) s)"
proof -
  have q: "0 < oQuantity od" "oQuantity od \<le> uint32_max" using assms(1) by (auto simp: order_ok_def)
  have neg: "i64 (- oQuantity od) = - oQuantity od" "i64 (- (oPrice od * oQuantity od)) = - (oPrice od * oQuantity od)"
    using q order_ok_price [OF assms(1)] small_product [of "- oPrice od" "oQuantity od"]
    by (auto intro!: i64_id in_i64_small)
  have locked: "live od" "remaining od = oQuantity od"
    using assms(2,3) by (simp_all add: live_def remaining_def)
  note m = ideal_balance_cash ideal_balance_measures ideal_position_measures putOrder_measures
    held_None [OF assms(4)] lockedCash_def lockedYes_def lockedNo_def locked
  let ?t = "ideal_all (reservationEvents od (oPrice od * oQuantity od)) s"
  have pos: "ledger_pos (putOrder od s)"
    using assms(1,5) by (intro ledger_pos_putOrder) (auto dest: funded_pos)
  have posOf: "PositionOf (ideal_balance u a t) = PositionOf t" "PositionOf (putOrder od s) = PositionOf s"
    for u a and t :: "'a ledger_scheme" by (simp_all add: PositionOf_def fun_eq_iff)
  have pos0: "ledger_pos (ideal_balance (oUserID od) 0 (putOrder od s))"
    using pos by (intro ledger_pos_balance) (auto dest: ledger_pos_nonneg)
  note nonneg = ledger_pos_nonneg [OF funded_pos [OF assms(5)]]
  from assms(1) have "ledger_pos ?t \<and> value_of ?t = value_of s \<and> (\<forall>m. skew ?t m = skew s m)"
  proof (cases rule: order_ok_sides)
    case BY
    then show ?thesis using pos assms(6)
      by (auto simp: reservationEvents_def neg m value_of_def skew_def Balance_def intro!: ledger_pos_balance)
  next
    case BN
    then show ?thesis using pos assms(6)
      by (auto simp: reservationEvents_def neg m value_of_def skew_def Balance_def intro!: ledger_pos_balance)
  next
    case SY
    then have "ledger_pos (ideal_position (oUserID od) (oMarketID od) (- oQuantity od) 0
        (ideal_balance (oUserID od) 0 (putOrder od s)))"
      using pos0 assms(7) nonneg by (intro ledger_pos_position) (simp_all add: posOf)
    then show ?thesis using SY pos funded_pos [OF assms(5)]
      by (auto simp: reservationEvents_def neg m value_of_def skew_def
          intro!: ledger_pos_balance ledger_pos_nonneg)
  next
    case SN
    then have "ledger_pos (ideal_position (oUserID od) (oMarketID od) 0 (- oQuantity od)
        (ideal_balance (oUserID od) 0 (putOrder od s)))"
      using pos0 assms(8) nonneg by (intro ledger_pos_position) (simp_all add: posOf)
    then show ?thesis using SN pos funded_pos [OF assms(5)]
      by (auto simp: reservationEvents_def neg m value_of_def skew_def
          intro!: ledger_pos_balance ledger_pos_nonneg)
  qed
  then show "funded D ?t" using assms(5) by (intro fundedI) (auto simp: funded_def ledger_ok_def)
qed

section \<open>The completion\<close>

text \<open>The answer of the engine to an order, as the ledger relies on it.\<close>

definition goodReply :: "'a ledger_scheme \<Rightarrow> Order \<Rightarrow> EngineResult \<Rightarrow> bool" where
  "goodReply s od result \<longleftrightarrow>
    validTrades
      (lookupEngine s (fmupd (oMarketID od, erOrderID result) (oID od) fmempty) (oMarketID od))
      (oMarketID od) (fmupd (oID od) (od\<lparr>oEngineID := erOrderID result, oStatus := Open\<rparr>) (orders s))
      (erTrades result)"

lemma goodReply_cong:
  assumes "engineOrders s = engineOrders t" and "orders s = orders t"
  shows "goodReply s od result = goodReply t od result"
  unfolding goodReply_def lookupEngine_def [abs_def] by (simp only: assms)

text \<open>An update of a live order that keeps its amounts keeps the books.\<close>

definition restated :: "Order \<Rightarrow> Order \<Rightarrow> bool" where
  "restated od od' \<longleftrightarrow> oID od' = oID od \<and> oUserID od' = oUserID od \<and> oMarketID od' = oMarketID od \<and>
     oSide od' = oSide od \<and> oPrice od' = oPrice od \<and> oQuantity od' = oQuantity od \<and>
     oFilledQuantity od' = oFilledQuantity od \<and> oEnginePrice od' = oEnginePrice od \<and>
     oEngineSide od' = oEngineSide od \<and> live od' = live od"

lemma restated_locked:
  "restated od od' \<Longrightarrow> lockedCash od' = lockedCash od \<and> lockedYes od' = lockedYes od \<and>
     lockedNo od' = lockedNo od \<and> oMarketID od' = oMarketID od"
  by (auto simp: restated_def lockedCash_def lockedYes_def lockedNo_def remaining_def)

lemma restated_ok: "restated od od' \<Longrightarrow> order_ok k od' = order_ok k od"
  by (auto simp: restated_def order_ok_def)

lemma funded_restated:
  assumes "fmlookup (orders s) k = Some od" and "restated od od'" and "funded D s"
  shows "funded D (putOrder od' s)"
proof -
  have ok: "order_ok k od" using funded_pos [OF assms(3)] assms(1) by (auto simp: ledger_pos_def)
  then have id: "oID od' = k" using assms(2) order_ok_ID by (auto simp: restated_def)
  have "order_ok (oID od') od'" using restated_ok [OF assms(2)] ok id by simp
  then have "ledger_pos (putOrder od' s)" by (rule ledger_pos_putOrder [OF funded_pos [OF assms(3)]])
  moreover have "value_of (putOrder od' s) = value_of s" "skew (putOrder od' s) m = skew s m" for m
    using restated_locked [OF assms(2)]
    by (simp_all add: value_of_def skew_def putOrder_measures id held_Some [OF assms(1)])
  ultimately show ?thesis using assms(3) by (intro fundedI) (auto simp: funded_def ledger_ok_def)
qed

lemma funded_balance_zero: "funded D s \<Longrightarrow> funded D (ideal_balance u 0 s)"
  using ledger_pos_nonneg(1) [of s u]
  by (auto simp: funded_def ledger_ok_def value_of_def skew_def ideal_balance_cash ideal_balance_measures
      intro!: ledger_pos_balance)

lemma putOrder_restated:
  assumes "fmlookup (orders s) k = Some od" and "restated od od'" and "funded D s"
  shows "funded D (ideal_balance u 0 (putOrder od' s))"
  by (intro funded_balance_zero funded_restated [OF assms])

lemma completion_ideal:
  assumes "funded D s" and "fmlookup (orders s) (oID od) = Some od" and "live od"
    and "goodReply s od result"
  defines "od1 \<equiv> od\<lparr>oEngineID := erOrderID result, oStatus := Open\<rparr>"
  shows "funded D (ideal_all (completion s od1 result) (book s))"
    and "markets (ideal_all (completion s od1 result) (book s)) = markets s"
proof -
  let ?t = "ideal_balance [] 0 (putOrder od1 (book s))"
  have "restated od od1" using assms(3) by (simp add: restated_def od1_def live_def)
  then have f: "funded D ?t"
    using assms(1,2) by (intro putOrder_restated [of "book s" "oID od" od]) simp_all
  have ids: "oID od1 = oID od" "oMarketID od1 = oMarketID od" "oEngineID od1 = erOrderID result"
    by (simp_all add: od1_def)
  have valid: "validTrades (lookupEngine s (fmupd (oMarketID od1, oEngineID od1) (oID od1) fmempty) (oMarketID od1))
      (oMarketID od1) (orders ?t) (erTrades result)"
    using assms(4) by (simp add: goodReply_def ids od1_def [symmetric])
  have ag: "agrees s (fmupd (oID od1) od1 fmempty) ?t" by (simp add: agrees_def)
  note tr = trades_ideal [OF valid ag funded_pos [OF f]]
  have ev: "ideal_all (completion s od1 result) (book s) =
      ideal_all (fst (buildTradeEvents s (oMarketID od1) (erTrades result)
         (fmupd (oMarketID od1, oEngineID od1) (oID od1) fmempty) (fmupd (oID od1) od1 fmempty))) ?t"
    by (simp add: completion_def)
  show "funded D (ideal_all (completion s od1 result) (book s))"
    unfolding ev using tr f by (intro fundedI) (auto simp: funded_def ledger_ok_def)
  show "markets (ideal_all (completion s od1 result) (book s)) = markets s"
    unfolding ev using tr by simp
qed

section \<open>The two halves of placing an order\<close>

text \<open>An admitted order, after the reservation is durable.\<close>

lemma placeSingle_cases:
  assumes "placeSingle ctxErr od s = (r, t)" and "funded D s" and "submission od"
  obtains (same) "t = s"
    | (refused) e where "r = Some e" "funded D t" "book t = book s" "failure t \<noteq> None" "cfg t = cfg s"
    | (placed) od' mk s1 where "commitMany (reservationEvents od' (oPrice od * oQuantity od)) s = (None, s1)"
      "submitSingle od' mk s1 = (r, t)" "failure s = None"
      "fmlookup (orders s) (oID od') = None" "fmlookup (markets s) (oMarketID od') = Some mk" "mStatus mk = Open"
      "oStatus od' = Pending" "oFilledQuantity od' = 0" "oEngineID od' = 0"
      "funded D (ideal_all (reservationEvents od' (oPrice od * oQuantity od)) (book s))"
proof -
  consider (none) "t = s"
    | (some) first rest where "prepareOrder s od = Inr (first # rest)" "failure s = None"
      "andThen (commitMany (first # rest) s)
         (submitSingle (eOrder first) (fmget Market0 (markets s) (oMarketID (eOrder first)))) = (r, t)"
    using assms(1) by (auto simp: placeSingle_def split: option.splits sum.splits list.splits)
  then show thesis
  proof cases
    case none
    then show thesis by (rule same)
  next
    case some
    have ne: "first # rest \<noteq> []" by simp
    obtain price side od' m where p:
      "fmlookup (orders s) (oID od) = None"
      "fmlookup (markets s) (oMarketID od) = Some m" "mStatus m = Open"
      "translate (oSide od) (oPrice od) = Inr (price, side)"
      "od' = od\<lparr>oEnginePrice := price, oEngineSide := side, oStatus := Pending,
         oSequence := (sequence s + 1) mod 2 ^ 64\<rparr>"
      "order_ok (oID od) od'" "first # rest = reservationEvents od' (oPrice od * oQuantity od)"
      "isBuy (oSide od) \<longrightarrow> oPrice od * oQuantity od \<le> Balance s (oUserID od)"
      "oSide od = SellYes \<longrightarrow> oQuantity od \<le> pYes (PositionOf s (oUserID od) (oMarketID od))"
      "oSide od = SellNo \<longrightarrow> oQuantity od \<le> pNo (PositionOf s (oUserID od) (oMarketID od))"
      by (rule prepareOrder_admits [OF some(1) ne assms(3)])
    have eq: "oID od' = oID od" "oMarketID od' = oMarketID od" "oUserID od' = oUserID od"
      "oSide od' = oSide od" "oPrice od' = oPrice od" "oQuantity od' = oQuantity od"
      "oStatus od' = Pending" "oFilledQuantity od' = 0" "oEngineID od' = 0"
      using p(5) assms(3) by (simp_all add: submission_def)
    have first: "eOrder first = od'"
      using p(7) by (auto simp: reservationEvents_def Let_def split: if_splits)
    have mk: "fmget Market0 (markets s) (oMarketID od') = m" using p(2) eq by (simp add: fmget_def)
    note res = reservation_ideal [of od' "book s" D, unfolded eq book_fields funded_book]
    obtain r1 s1 where c: "commitMany (first # rest) s = (r1, s1)" by (rule prod.exhaust)
    have f: "funded D (ideal_all (first # rest) (book s))"
      unfolding p(7) using res p(1,6,8-10) assms(2) by (simp add: Balance_def PositionOf_def)
    show thesis
    proof (cases r1)
      case None
      then show thesis
        using placed [of od' s1 m] c some(2,3) first mk p(1-3) eq f unfolding p(7) by simp
    next
      case (Some e)
      have "commitMany (first # rest) s = (Some e, s1)" "t = s1" "r = Some e"
        using c Some some(3) by auto
      then show thesis
        using refused commit_funded(2) [OF c assms(2) f] Some commitMany_err(1) by (auto simp: keeps_def)
    qed
  qed
qed

end
