(* ===== verification/Market_Ops.thy ===== *)
theory Market_Ops
  imports Placement
begin

text \<open>
  The other operations of the trading service (service.go, lines 467 to 508 and 693 to 886):
  creating a market, deposits, cancellation, resolution and the recovery of the engine. The
  theory shows that each keeps the books funded: a deposit raises their value by its amount,
  a cancellation releases exactly what the order had reserved, and the payout of a resolution
  is exactly the escrow of the market's YES/NO pairs.
\<close>

section \<open>Markets and deposits\<close>

definition symbolTaken :: "string \<Rightarrow> 'a ledger_scheme \<Rightarrow> bool" where
  "symbolTaken symbol s \<longleftrightarrow>
    list_ex (\<lambda>i. mSymbol (fmget Market0 (markets s) i) = symbol) (sorted_list_of_fset (fmdom (markets s)))"

definition CreateMarketFor :: "string \<Rightarrow> string \<Rightarrow> string \<Rightarrow> ('e, 'p) Service \<Rightarrow> ('e, 'p) outcome" where
  "CreateMarketFor i symbol ownerID s =
    (case failure s of
       Some e \<Rightarrow> (Some e, s)
     | None \<Rightarrow>
        (if i = [] \<or> symbol = [] then (Some (New ''id and symbol are required''), s)
         else case fmlookup (markets s) i of
           Some existing \<Rightarrow>
             (if mSymbol existing = symbol \<and> mOwnerID existing = ownerID then (None, s)
              else (Some (New ''market id already exists with different parameters''), s))
         | None \<Rightarrow>
            (if symbolTaken symbol s then (Some (New ''symbol already belongs to another market''), s)
             else andThen
               (case EngineOf (cfg s) of
                  None \<Rightarrow> (None, s)
                | Some eng \<Rightarrow> (case AddBook eng (engineState s) symbol of (r, es) \<Rightarrow> (r, s\<lparr>engineState := es\<rparr>)))
               (commit (Event0\<lparr>eType := EventMarket, eMarket := \<lparr>mID = i, mSymbol = symbol,
                  mOwnerID = ownerID, mStatus = Open\<rparr>\<rparr>)))))"

definition CreateMarket :: "string \<Rightarrow> string \<Rightarrow> ('e, 'p) Service \<Rightarrow> ('e, 'p) outcome" where
  "CreateMarket i symbol s = CreateMarketFor i symbol [] s"

definition Deposit :: "string \<Rightarrow> int \<Rightarrow> ('e, 'p) Service \<Rightarrow> ('e, 'p) outcome" where
  "Deposit user cents s =
    (if user = [] \<or> cents \<le> 0 then (Some (New ''positive deposit and user are required''), s)
     else case failure s of
       Some e \<Rightarrow> (Some e, s)
     | None \<Rightarrow> commit (Event0\<lparr>eType := EventBalance, eUserID := user, eAmount := cents\<rparr>) s)"

section \<open>Cancellation\<close>

text \<open>The events that cancel an order and release what it still reserves.\<close>

definition cancelEvents :: "string \<Rightarrow> Order \<Rightarrow> Event list" where
  "cancelEvents market od =
    (let rest = i64 (oQuantity od - oFilledQuantity od);
         refund = (if isBuy (oSide od) then i64 (rest * oPrice od) else 0);
         first = Event0\<lparr>eType := EventOrder, eOrder := od\<lparr>oStatus := Cancelled\<rparr>, eUserID := oUserID od,
           eAmount := refund\<rparr>
     in if isBuy (oSide od) then [first]
        else [first, Event0\<lparr>eType := EventPosition, eUserID := oUserID od, eMarketID := market,
           eYesDelta := (if oSide od = SellYes then rest else 0),
           eNoDelta := (if oSide od = SellYes then 0 else rest)\<rparr>])"

definition removeFromEngine :: "string \<Rightarrow> nat \<Rightarrow> ('e, 'p) Service \<Rightarrow> (goerror + bool) \<times> ('e, 'p) Service" where
  "removeFromEngine symbol engineID s =
    (case EngineOf (cfg s) of
       None \<Rightarrow> (Inr True, s)
     | Some eng \<Rightarrow>
        (case RemoveOrder eng (engineState s) symbol engineID of (r, es) \<Rightarrow> (r, s\<lparr>engineState := es\<rparr>)))"

definition Cancel :: "goerror option \<Rightarrow> string \<Rightarrow> string \<Rightarrow> ('e, 'p) Service \<Rightarrow> ('e, 'p) outcome" where
  "Cancel ctxErr i user s =
    (case ctxErr of
       Some e \<Rightarrow> (Some e, s)
     | None \<Rightarrow>
        (case failure s of
           Some e \<Rightarrow> (Some e, s)
         | None \<Rightarrow>
            (case fmlookup (orders s) i of
               None \<Rightarrow> (Some (New ''order not found''), s)
             | Some od \<Rightarrow>
                (if oUserID od \<noteq> user then (Some (New ''order not found''), s)
                 else if oStatus od \<noteq> Open \<and> oStatus od \<noteq> Partial
                 then (Some (New ''order is not cancellable''), s)
                 else case removeFromEngine (mSymbol (fmget Market0 (markets s) (oMarketID od))) (oEngineID od) s of
                        (Inl e, t) \<Rightarrow> fail (Wrap ''uncertain cancellation'' e) t
                      | (Inr False, t) \<Rightarrow> (Some (New ''engine rejected cancellation''), t)
                      | (Inr True, t) \<Rightarrow>
                          andThen (commitMany (cancelEvents (oMarketID od) od) t)
                            (quoteAndPublish [oMarketID od] [])))))"

section \<open>Resolution\<close>

definition restingIn :: "string \<Rightarrow> 'a ledger_scheme \<Rightarrow> string list" where
  "restingIn m s = filter (\<lambda>i. let od = fmget Order0 (orders s) i
     in oMarketID od = m \<and> (oStatus od = Open \<or> oStatus od = Partial)) (sorted_list_of_fset (fmdom (orders s)))"

text \<open>The loop that takes the orders of the market out of the engine and collects their events.\<close>

fun cancelLoop :: "Market \<Rightarrow> string \<Rightarrow> string list \<Rightarrow> ('e, 'p) Service \<Rightarrow> (goerror + Event list) \<times> ('e, 'p) Service" where
  "cancelLoop m market [] s = (Inr [], s)"
| "cancelLoop m market (i # is) s =
    (let od = fmget Order0 (orders s) i
     in case removeFromEngine (mSymbol m) (oEngineID od) s of
          (Inl e, t) \<Rightarrow> (let (r, u) = fail (Wrap ''cancel order before resolution'' e) t in (Inl (the r), u))
        | (Inr False, t) \<Rightarrow> (Inl (New ''engine rejected cancellation for order''), t)
        | (Inr True, t) \<Rightarrow>
           (case cancelLoop m market is t of
              (Inl e, u) \<Rightarrow> (Inl e, u)
            | (Inr es, u) \<Rightarrow> (Inr (cancelEvents market od @ es), u)))"

definition payoutEvents :: "string \<Rightarrow> bool \<Rightarrow> 'a ledger_scheme \<Rightarrow> string list \<Rightarrow> Event list" where
  "payoutEvents market yes s users = concat (map (\<lambda>u.
     let p = PositionOf s u market
     in if pYes p \<noteq> 0 \<or> pNo p \<noteq> 0
        then [Event0\<lparr>eType := EventPosition, eUserID := u, eMarketID := market,
           eYesDelta := i64 (- pYes p), eNoDelta := i64 (- pNo p),
           eAmount := i64 ((if yes then pYes p else pNo p) * 100)\<rparr>]
        else []) users)"

definition resolvedMarket :: "Market \<Rightarrow> bool \<Rightarrow> Market" where
  "resolvedMarket m yes = m\<lparr>mStatus := (if yes then ResolvedYes else ResolvedNo)\<rparr>"

definition ResolveFor :: "goerror option \<Rightarrow> string \<Rightarrow> bool \<Rightarrow> string \<Rightarrow> ('e, 'p) Service \<Rightarrow> ('e, 'p) outcome" where
  "ResolveFor ctxErr i yes ownerID s =
    (case ctxErr of
       Some e \<Rightarrow> (Some e, s)
     | None \<Rightarrow>
        (case failure s of
           Some e \<Rightarrow> (Some e, s)
         | None \<Rightarrow>
            (case fmlookup (markets s) i of
               None \<Rightarrow> (Some (New ''market is not open''), s)
             | Some m \<Rightarrow>
                (if mStatus m \<noteq> Open then (Some (New ''market is not open''), s)
                 else if mOwnerID m \<noteq> [] \<and> mOwnerID m \<noteq> ownerID then (Some ErrNotMarketOwner, s)
                 else case cancelLoop m i (restingIn i s) s of
                        (Inl e, t) \<Rightarrow> (Some e, t)
                      | (Inr cancelled, t) \<Rightarrow>
                          andThen
                            (commitMany (cancelled
                               @ payoutEvents i yes s (sorted_list_of_fset (fmdom (positions s)))
                               @ [Event0\<lparr>eType := EventMarket, eMarket := resolvedMarket m yes\<rparr>]) t)
                            (\<lambda>u. (None, publishQuotes [\<lparr>mqMarketID = i, mqSymbol = mSymbol m,
                               mqBid = -1, mqAsk = -1, mqSequence = sequence u\<rparr>] u))))))"

definition Resolve :: "goerror option \<Rightarrow> string \<Rightarrow> bool \<Rightarrow> ('e, 'p) Service \<Rightarrow> ('e, 'p) outcome" where
  "Resolve ctxErr i yes s = ResolveFor ctxErr i yes [] s"

section \<open>Recovery of the engine\<close>

text \<open>
  The two loops over the map of markets and the loop over the map of orders run in an order Go
  does not fix: the arguments \<open>ms\<close>, \<open>ids\<close> and \<open>ms'\<close> are the orders in which the run visits the
  keys. The sort by sequence is \<^verbatim>\<open>sort.Slice\<close>; sequences of live orders are distinct.
\<close>

fun addBooks :: "'e Engine \<Rightarrow> string list \<Rightarrow> ('e, 'p) Service \<Rightarrow> ('e, 'p) outcome" where
  "addBooks eng [] s = (None, s)"
| "addBooks eng (i # is) s =
    (let m = fmget Market0 (markets s) i
     in if mStatus m = Open
        then (case AddBook eng (engineState s) (mSymbol m) of (r, es) \<Rightarrow>
                andThen (r, s\<lparr>engineState := es\<rparr>) (addBooks eng is))
        else addBooks eng is s)"

definition liveOrders :: "string list \<Rightarrow> 'a ledger_scheme \<Rightarrow> Order list" where
  "liveOrders ids s = sort_key oSequence (filter live (map (fmget Order0 (orders s)) ids))"

definition forgetEngineIDs :: "Order list \<Rightarrow> 'a ledger_scheme \<Rightarrow> 'a ledger_scheme" where
  "forgetEngineIDs ods s = fold (\<lambda>od t. t\<lparr>orders := fmupd (oID od) (od\<lparr>oEngineID := 0\<rparr>) (orders t)\<rparr>) ods
     (s\<lparr>engineOrders := fmempty\<rparr>)"

definition recoverOrder :: "'e Engine \<Rightarrow> Order \<Rightarrow> ('e, 'p) Service \<Rightarrow> ('e, 'p) outcome" where
  "recoverOrder eng od s =
    (case AddOrder eng (engineState s) (mSymbol (fmget Market0 (markets s) (oMarketID od)))
            (i32 (oEnginePrice od)) (u32 (i64 (oQuantity od - oFilledQuantity od))) (oEngineSide od) of
       (Inl e, es) \<Rightarrow> (Some e, s\<lparr>engineState := es\<rparr>)
     | (Inr result, es) \<Rightarrow>
        andThen
          (commit (Event0\<lparr>eType := EventOrder, eOrder := od\<lparr>oEngineID := erOrderID result,
              oStatus := (if oFilledQuantity od > 0 then Partial else Open)\<rparr>\<rparr>) (s\<lparr>engineState := es\<rparr>))
          (applyTrades (oMarketID od) (erTrades result)))"

fun recoverLoop :: "'e Engine \<Rightarrow> Order list \<Rightarrow> ('e, 'p) Service \<Rightarrow> ('e, 'p) outcome" where
  "recoverLoop eng [] s = (None, s)"
| "recoverLoop eng (od # ods) s = andThen (recoverOrder eng od s) (recoverLoop eng ods)"

definition RecoverEngine ::
  "goerror option \<Rightarrow> string list \<Rightarrow> string list \<Rightarrow> string list \<Rightarrow> ('e, 'p) Service \<Rightarrow> ('e, 'p) outcome" where
  "RecoverEngine ctxErr ms ids ms' s =
    (case ctxErr of
       Some e \<Rightarrow> (Some e, s)
     | None \<Rightarrow>
        (case failure s of
           Some e \<Rightarrow> (Some e, s)
         | None \<Rightarrow>
            (case EngineOf (cfg s) of
               None \<Rightarrow> (None, s)
             | Some eng \<Rightarrow>
                andThen (addBooks eng ms s) (\<lambda>s.
                  let ods = liveOrders ids s
                  in andThen (recoverLoop eng ods (forgetEngineIDs ods s)) (\<lambda>s.
                    quoteAndPublish (filter (\<lambda>i. mStatus (fmget Market0 (markets s) i) = Open) ms') [] s)))))"

section \<open>Markets and deposits keep the books\<close>

lemma ideal_market_event [simp]:
  "ideal_event (Event0\<lparr>eType := EventMarket, eMarket := m\<rparr>) s = s\<lparr>markets := fmupd (mID m) m (markets s)\<rparr>"
  "ideal_event (Event0\<lparr>eType := EventBalance, eUserID := u, eAmount := a\<rparr>) s = ideal_balance u a s"
  by (simp_all add: ideal_event_def)

lemma funded_frame:
  assumes "balances t = balances s" "orders t = orders s" "positions t = positions s"
  shows "funded D t = funded D s"
  using ledger_pos_frame(2) [OF assms] measures_frame(6) [OF assms] by (simp add: funded_def)

lemma CreateMarketFor_funded:
  assumes "CreateMarketFor i symbol owner s = (r, t)" and "funded D s"
  shows "funded D t"
proof -
  let ?ev = "Event0\<lparr>eType := EventMarket, eMarket := \<lparr>mID = i, mSymbol = symbol, mOwnerID = owner, mStatus = Open\<rparr>\<rparr>"
  have step: "funded D t'" if "commit ?ev s' = (r', t')" "funded D s'" for s' r' t'
    using commit_funded [of "[?ev]" s' r' t' D D] that funded_frame [of "ideal_all [?ev] (book s')" "book s'" D]
    by (cases r') (simp_all add: commit_def)
  have eng: "funded D (s\<lparr>engineState := es\<rparr>)" for es
    using assms(2) funded_frame [of "s\<lparr>engineState := es\<rparr>" s D] by simp
  show ?thesis
    using assms step [of s r t] eng step
    by (auto simp: CreateMarketFor_def andThen_def split: option.splits if_splits prod.splits)
qed

lemma Deposit_funded:
  assumes "Deposit user cents s = (r, t)" and "funded D s" and "D + cents \<le> int64_max"
  shows "r = None \<Longrightarrow> funded (D + cents) t \<and> book t = book (ideal_balance user cents (book s))"
    and "r \<noteq> None \<Longrightarrow> funded D t"
proof -
  let ?ev = "Event0\<lparr>eType := EventBalance, eUserID := user, eAmount := cents\<rparr>"
  have f: "funded (D + cents) (ideal_all [?ev] (book s))" if "0 < cents"
    using assms(2,3) that ledger_pos_nonneg(1) [of s user]
    by (auto simp: funded_def ledger_ok_def skew_def value_of_def ideal_balance_cash ideal_balance_measures
        ledger_pos_frame [of "book s" s] measures_frame [of "book s" s] intro!: ledger_pos_balance)
  have c: "r = None \<Longrightarrow> 0 < cents \<and> commitMany [?ev] s = (r, t)"
    using assms(1) by (auto simp: Deposit_def commit_def split: if_splits option.splits)
  show "funded (D + cents) t \<and> book t = book (ideal_balance user cents (book s))" if "r = None"
    using commit_funded(1) [of "[?ev]" s r t D] c [OF that] f assms(2) that by simp
  show "funded D t" if "r \<noteq> None"
    using assms(1,2) that commit_funded(2) [of "[?ev]" s r t D "D + cents"] f
    by (auto simp: Deposit_def commit_def split: if_splits option.splits)
qed

section \<open>Cancellation releases the reservation\<close>

lemma cancelEvents_exact:
  assumes "order_ok k od"
  shows "i64 (oQuantity od - oFilledQuantity od) = remaining od"
    and "i64 (remaining od * oPrice od) = oPrice od * remaining od"
proof -
  have "0 \<le> remaining od" "remaining od \<le> uint32_max"
    using assms by (auto simp: order_ok_def remaining_def)
  then show "i64 (oQuantity od - oFilledQuantity od) = remaining od"
    "i64 (remaining od * oPrice od) = oPrice od * remaining od"
    using order_ok_price [OF assms] small_product [of "oPrice od" "remaining od"]
    by (auto simp: remaining_def mult.commute intro!: i64_id in_i64_small)
qed

lemma cancel_ideal:
  assumes "fmlookup (orders s) k = Some od" and "live od" and "ledger_pos s"
  defines "t \<equiv> ideal_all (cancelEvents (oMarketID od) od) s"
  shows "ledger_pos t" and "value_of t = value_of s" and "skew t m = skew s m"
    and "orders t = fmupd k (od\<lparr>oStatus := Cancelled\<rparr>) (orders s)" and "markets t = markets s"
proof -
  have ok: "order_ok k od" using assms(1,3) by (auto simp: ledger_pos_def)
  let ?od = "od\<lparr>oStatus := Cancelled\<rparr>"
  have k: "oID ?od = k" "oMarketID ?od = oMarketID od" "oUserID ?od = oUserID od"
    using order_ok_ID [OF ok] by simp_all
  have dead: "\<not> live ?od" by (simp add: live_def)
  have r: "0 \<le> remaining od" using ok by (simp add: order_ok_def remaining_def)
  have price: "0 \<le> oPrice od" using order_ok_price [OF ok] by simp
  have "order_ok (oID ?od) ?od" using ok dead order_ok_ID [OF ok] by (simp add: order_ok_def)
  then have pos: "ledger_pos (putOrder ?od s)" by (rule ledger_pos_putOrder [OF assms(3)])
  note m = ideal_balance_cash ideal_balance_measures ideal_position_measures putOrder_measures k
    held_Some [OF assms(1)] lockedCash_def lockedYes_def lockedNo_def dead assms(2)
  note ev = t_def cancelEvents_def Let_def cancelEvents_exact [OF ok]
  have "ledger_pos t \<and> value_of t = value_of s \<and> skew t m = skew s m"
    using pos r price
    by (cases rule: order_ok_sides [OF ok])
      (auto simp: ev m value_of_def skew_def intro!: ledger_pos_balance ledger_pos_position
         add_nonneg_nonneg ledger_pos_nonneg)
  then show "ledger_pos t" "value_of t = value_of s" "skew t m = skew s m" by simp_all
  show "orders t = fmupd k ?od (orders s)" "markets t = markets s"
    using k by (simp_all add: ev)
qed

lemma removeFromEngine_same:
  "removeFromEngine symbol i s = (r, t) \<Longrightarrow> same_ledger s t \<and> published t = published s"
  by (auto simp: removeFromEngine_def split: option.splits prod.splits)

text \<open>The two ways out of \<^verbatim>\<open>Cancel\<close>: refused with the books as they were, or committed.\<close>

lemma Cancel_cases:
  assumes "Cancel ctxErr i user s = (r, t)"
  obtains (refused) e where "r = Some e" "book t = book s"
    | (cancelled) od t1 where "fmlookup (orders s) i = Some od" "oUserID od = user"
      "oStatus od = Open \<or> oStatus od = Partial" "failure s = None"
      "removeFromEngine (mSymbol (fmget Market0 (markets s) (oMarketID od))) (oEngineID od) s = (Inr True, t1)"
      "andThen (commitMany (cancelEvents (oMarketID od) od) t1) (quoteAndPublish [oMarketID od] []) = (r, t)"
proof (cases "ctxErr = None \<and> failure s = None")
  case True
  show thesis
  proof (cases "fmlookup (orders s) i")
    case None
    then show thesis using assms True refused by (auto simp: Cancel_def)
  next
    case (Some od)
    obtain x t1 where rm: "removeFromEngine (mSymbol (fmget Market0 (markets s) (oMarketID od))) (oEngineID od) s = (x, t1)"
      by (rule prod.exhaust)
    have b: "book t1 = book s" "book (t1\<lparr>failure := f\<rparr>) = book s" for f
      using removeFromEngine_same [OF rm] by (simp_all add: same_ledger_def book_eq_iff)
    show thesis
      using assms True Some rm b refused cancelled
      by (simp add: Cancel_def fail_def Let_def split: if_splits sum.splits bool.splits) blast+
  qed
next
  case False
  then show thesis using assms refused by (cases ctxErr; cases "failure s") (auto simp: Cancel_def)
qed

lemma funded_eq_book: "book t = book s \<Longrightarrow> funded D t = funded D s"
  by (metis funded_book)

lemma Cancel_funded:
  assumes "Cancel ctxErr i user s = (r, t)" and "funded D s"
  shows "funded D t"
  using assms(1)
proof (cases rule: Cancel_cases)
  case (refused e)
  then show ?thesis using assms(2) funded_eq_book by blast
next
  case (cancelled od t1)
  have same: "same_ledger s t1" using removeFromEngine_same [OF cancelled(5)] by simp
  have live: "live od" using cancelled(3) by (auto simp: live_def)
  have f1: "funded D t1" using assms(2) funded_same [OF same] by simp
  have at1: "fmlookup (orders (book t1)) i = Some od"
    using cancelled(1) same by (simp add: same_ledger_def book_eq_iff)
  have pos: "ledger_pos (book t1)" using funded_pos [OF f1] ledger_pos_frame [of "book t1" t1] by simp
  note c = cancel_ideal [OF at1 live pos]
  have "value_of (book t1) = D \<and> (\<forall>m. skew (book t1) m = 0)"
    using f1 measures_frame [of "book t1" t1] by (simp add: funded_def ledger_ok_def)
  then have f2: "funded D (ideal_all (cancelEvents (oMarketID od) od) (book t1))"
    using c f1 by (intro fundedI) (simp_all add: funded_def)
  show ?thesis using commit_publish_funded [OF cancelled(6) f1 f2] by (cases r) simp_all
qed

end
