(* ===== verification/Settlement.thy ===== *)
theory Settlement
  imports Market_Ops
begin

text \<open>
  Resolution of a market (\<^verbatim>\<open>ResolveFor\<close>, service.go, lines 746 to 826) in detail: what each
  account receives, which shares it is left with, and when the payout equals the escrow of the
  market. The payouts are computed from the positions before the cancellations take effect, so
  shares that rest in sell orders go back to their owners without being paid.
\<close>

section \<open>Effect of ideal steps on one account\<close>

lemma Balance_ideal [simp]:
  "Balance (ideal_balance u a s) v = Balance s v + (if u = v then a else 0)"
  "Balance (ideal_position u m y n s) v = Balance s v"
  "Balance (putOrder od s) v = Balance s v"
  by (simp_all add: Balance_def ideal_balance_def)

lemma PositionOf_ideal [simp]:
  "PositionOf (ideal_balance u a s) v m' = PositionOf s v m'"
  "PositionOf (putOrder od s) v m' = PositionOf s v m'"
  "pYes (PositionOf (ideal_position u m y n s) v m') =
     pYes (PositionOf s v m') + (if u = v \<and> m = m' then y else 0)"
  "pNo (PositionOf (ideal_position u m y n s) v m') =
     pNo (PositionOf s v m') + (if u = v \<and> m = m' then n else 0)"
  by (auto simp: PositionOf_def ideal_position_def Let_def)

lemma fmget_frame [simp]:
  "Balance (s\<lparr>markets := x\<rparr>) u = Balance s u" "PositionOf (s\<lparr>markets := x\<rparr>) u m = PositionOf s u m"
  "Balance (book s) u = Balance s u" "PositionOf (book s) u m = PositionOf s u m"
  by (simp_all add: Balance_def PositionOf_def)

section \<open>The cancellations\<close>

definition orderIn :: "'a ledger_scheme \<Rightarrow> string \<Rightarrow> Order" where
  "orderIn s i = fmget Order0 (orders s) i"

text \<open>What the orders of a list hold for one account.\<close>

definition heldFor :: "(Order \<Rightarrow> int) \<Rightarrow> 'a ledger_scheme \<Rightarrow> string list \<Rightarrow> string \<Rightarrow> int" where
  "heldFor f s is u = sum_list (map (\<lambda>i. if oUserID (orderIn s i) = u then f (orderIn s i) else 0) is)"

lemma cancel_account:
  fixes s :: "'a ledger_scheme"
  assumes "order_ok k od" and "live od"
  defines "t \<equiv> ideal_all (cancelEvents (oMarketID od) od) s"
  shows "Balance t u = Balance s u + (if oUserID od = u then lockedCash od else 0)"
    and "pYes (PositionOf t u m) = pYes (PositionOf s u m)
      + (if oUserID od = u \<and> oMarketID od = m then lockedYes od else 0)"
    and "pNo (PositionOf t u m) = pNo (PositionOf s u m)
      + (if oUserID od = u \<and> oMarketID od = m then lockedNo od else 0)"
  by (cases rule: order_ok_sides [OF assms(1)];
      simp add: t_def cancelEvents_def Let_def cancelEvents_exact [OF assms(1)] lockedCash_def
        lockedYes_def lockedNo_def assms(2))+

lemma heldFor_cong:
  "(\<And>i. i \<in> set is \<Longrightarrow> orderIn s i = orderIn t i) \<Longrightarrow> heldFor f s is u = heldFor f t is u"
  unfolding heldFor_def by (rule arg_cong [where f = sum_list]) simp

definition allResting :: "string \<Rightarrow> 'a ledger_scheme \<Rightarrow> string list \<Rightarrow> bool" where
  "allResting m s is \<longleftrightarrow>
    (\<forall>i\<in>set is. \<exists>od. fmlookup (orders s) i = Some od \<and> live od \<and> oMarketID od = m)"

definition cancelAll :: "string \<Rightarrow> 'a ledger_scheme \<Rightarrow> string list \<Rightarrow> Event list" where
  "cancelAll m s is = concat (map (\<lambda>i. cancelEvents m (orderIn s i)) is)"

lemma cancelAll_ideal:
  assumes "allResting market s is" and "distinct is" and "ledger_pos t"
    and "\<And>i. i \<in> set is \<Longrightarrow> fmlookup (orders t) i = fmlookup (orders s) i"
  defines "t' \<equiv> ideal_all (cancelAll market s is) t"
  shows "ledger_pos t' \<and> value_of t' = value_of t \<and> (\<forall>m. skew t' m = skew t m) \<and> markets t' = markets t \<and>
    (\<forall>i. fmlookup (orders t') i = (if i \<in> set is then Some ((orderIn s i)\<lparr>oStatus := Cancelled\<rparr>)
        else fmlookup (orders t) i)) \<and>
    (\<forall>u. Balance t' u = Balance t u + heldFor lockedCash s is u \<and>
       (\<forall>m. pYes (PositionOf t' u m) = pYes (PositionOf t u m) + (if m = market then heldFor lockedYes s is u else 0) \<and>
            pNo (PositionOf t' u m) = pNo (PositionOf t u m) + (if m = market then heldFor lockedNo s is u else 0)))"
  using assms(1-4) unfolding t'_def
proof (induction "is" arbitrary: t)
  case Nil
  then show ?case by (simp add: cancelAll_def heldFor_def)
next
  case (Cons i "is")
  obtain od where od: "fmlookup (orders t) i = Some od" "live od" "oMarketID od = market" "orderIn s i = od"
    using Cons.prems(1) Cons.prems(4) [of i] by (auto simp: allResting_def orderIn_def fmget_def)
  let ?t1 = "ideal_all (cancelEvents market od) t"
  have ok: "order_ok i od" using Cons.prems(3) od(1) by (auto simp: ledger_pos_def)
  note c = cancel_ideal [OF od(1,2) Cons.prems(3), unfolded od(3)]
  note acc = cancel_account [OF ok od(2), where s = t, unfolded od(3)]
  have rest: "fmlookup (orders ?t1) j = fmlookup (orders s) j" if "j \<in> set is" for j
    using that Cons.prems(2) Cons.prems(4) [of j] c(4) by auto
  have all: "allResting market s is" "distinct is" using Cons.prems(1,2) by (auto simp: allResting_def)
  have ev: "ideal_all (cancelAll market s (i # is)) t = ideal_all (cancelAll market s is) ?t1"
    by (simp add: cancelAll_def od(4))
  from Cons.IH [OF all c(1) rest] show ?case
    unfolding ev using c(2-5) acc od(4) Cons.prems(2) by (auto simp: heldFor_def)
qed

lemma set_restingIn:
  "i \<in> set (restingIn m s) \<longleftrightarrow> (\<exists>od. fmlookup (orders s) i = Some od \<and> oMarketID od = m \<and>
     (oStatus od = Open \<or> oStatus od = Partial))"
  by (auto simp: restingIn_def Let_def fmget_def Order0_def intro: fmdomI split: option.splits)

lemma restingIn_all: "allResting m s (restingIn m s)" "distinct (restingIn m s)"
  by (auto simp: allResting_def set_restingIn live_def) (simp add: restingIn_def)

lemma cancelLoop_result:
  assumes "cancelLoop m market is s = (x, t)"
  shows "book t = book s" and "x = Inr es \<Longrightarrow> same_ledger s t \<and> es = cancelAll market s is"
proof -
  have "book t = book s \<and> (\<forall>es. x = Inr es \<longrightarrow> same_ledger s t \<and> es = cancelAll market s is)"
    using assms
  proof (induction "is" arbitrary: s x t)
    case (Cons i "is")
    obtain y t1 where rm: "removeFromEngine (mSymbol m) (oEngineID (fmget Order0 (orders s) i)) s = (y, t1)"
      by (rule prod.exhaust)
    obtain z t2 where loop: "cancelLoop m market is t1 = (z, t2)" by (rule prod.exhaust)
    have s1: "same_ledger s t1" using removeFromEngine_same [OF rm] by simp
    then have eq: "orders t1 = orders s" "book t1 = book s" by (simp_all add: same_ledger_def book_eq_iff)
    have ca: "cancelAll market t1 is = cancelAll market s is" by (simp add: cancelAll_def orderIn_def eq)
    have b: "book (t1\<lparr>failure := f\<rparr>) = book s" for f using eq by (simp add: book_eq_iff)
    show ?case
      using Cons.prems rm loop Cons.IH [OF loop] s1 eq b same_ledger_trans [of s t1 t2]
      by (auto simp: fail_def Let_def cancelAll_def orderIn_def split: sum.splits bool.splits)
  qed (simp add: cancelAll_def)
  then show "book t = book s" "x = Inr es \<Longrightarrow> same_ledger s t \<and> es = cancelAll market s is" by simp_all
qed

section \<open>The payouts\<close>

definition payoutOf :: "bool \<Rightarrow> Position \<Rightarrow> int" where
  "payoutOf yes p = (if yes then pYes p else pNo p)"

definition payable :: "string \<Rightarrow> 'a ledger_scheme \<Rightarrow> 'b ledger_scheme \<Rightarrow> string list \<Rightarrow> bool" where
  "payable m s t users \<longleftrightarrow> (\<forall>u\<in>set users.
     0 \<le> pYes (PositionOf s u m) \<and> pYes (PositionOf s u m) \<le> pYes (PositionOf t u m) \<and>
     0 \<le> pNo (PositionOf s u m) \<and> pNo (PositionOf s u m) \<le> pNo (PositionOf t u m) \<and>
     100 * pYes (PositionOf s u m) \<le> int64_max \<and> 100 * pNo (PositionOf s u m) \<le> int64_max)"

definition payoutStep :: "string \<Rightarrow> bool \<Rightarrow> Position \<Rightarrow> string \<Rightarrow> 'a ledger_scheme \<Rightarrow> 'a ledger_scheme" where
  "payoutStep m yes p u t =
    ideal_balance u (100 * payoutOf yes p) (ideal_position u m (- pYes p) (- pNo p) t)"

lemma payoutStep_account:
  "Balance (payoutStep m yes p u t) v = Balance t v + (if u = v then 100 * payoutOf yes p else 0)"
  "pYes (PositionOf (payoutStep m yes p u t) v m') = pYes (PositionOf t v m') - (if u = v \<and> m = m' then pYes p else 0)"
  "pNo (PositionOf (payoutStep m yes p u t) v m') = pNo (PositionOf t v m') - (if u = v \<and> m = m' then pNo p else 0)"
  by (simp_all add: payoutStep_def)

lemma payoutStep_measures:
  "cash (payoutStep m yes p u t) = cash t + 100 * payoutOf yes p"
  "reserved (payoutStep m yes p u t) = reserved t"
  "totalYes (payoutStep m yes p u t) = totalYes t - pYes p"
  "skew (payoutStep m yes p u t) m' = skew t m' - (if m' = m then pYes p - pNo p else 0)"
  "orders (payoutStep m yes p u t) = orders t" "markets (payoutStep m yes p u t) = markets t"
  by (simp_all add: payoutStep_def skew_def ideal_balance_cash ideal_balance_measures ideal_position_measures)

lemma payoutStep_pos:
  assumes "ledger_pos t" and "0 \<le> payoutOf yes p" and "pYes p \<le> pYes (PositionOf t u m)"
    and "pNo p \<le> pNo (PositionOf t u m)"
  shows "ledger_pos (payoutStep m yes p u t)"
proof -
  have "ledger_pos (ideal_position u m (- pYes p) (- pNo p) t)"
    using assms(1,3,4) by (intro ledger_pos_position) simp_all
  then show ?thesis
    unfolding payoutStep_def using assms(2)
    by (intro ledger_pos_balance add_nonneg_nonneg ledger_pos_nonneg(1)) simp_all
qed

lemma payoutEvents_Cons:
  assumes "payable market s t (u # us)"
  shows "ideal_all (payoutEvents market yes s (u # us)) t =
    ideal_all (payoutEvents market yes s us)
      (let p = PositionOf s u market in if pYes p \<noteq> 0 \<or> pNo p \<noteq> 0 then payoutStep market yes p u t else t)"
proof -
  let ?p = "PositionOf s u market"
  have "i64 (- pYes ?p) = - pYes ?p" "i64 (- pNo ?p) = - pNo ?p" "i64 (pYes ?p * 100) = 100 * pYes ?p"
      "i64 (pNo ?p * 100) = 100 * pNo ?p"
    using assms by (auto simp: payable_def in_i64_def)
  then show ?thesis by (simp add: payoutEvents_def Let_def payoutStep_def payoutOf_def)
qed

text \<open>All payouts together, on the accounts and on the sums.\<close>

lemma payout_ideal:
  fixes yes :: bool
  assumes "payable market s t users" and "distinct users" and "ledger_pos t"
  defines "t' \<equiv> ideal_all (payoutEvents market yes s users) t"
  shows "ledger_pos t' \<and> orders t' = orders t \<and> markets t' = markets t \<and> reserved t' = reserved t \<and>
    cash t' = cash t + 100 * sum_list (map (\<lambda>u. payoutOf yes (PositionOf s u market)) users) \<and>
    totalYes t' = totalYes t - sum_list (map (\<lambda>u. pYes (PositionOf s u market)) users) \<and>
    (\<forall>m. skew t' m = skew t m - (if m = market
       then sum_list (map (\<lambda>u. pYes (PositionOf s u market)) users)
            - sum_list (map (\<lambda>u. pNo (PositionOf s u market)) users) else 0)) \<and>
    (\<forall>u. Balance t' u = Balance t u + (if u \<in> set users then 100 * payoutOf yes (PositionOf s u market) else 0) \<and>
      (\<forall>m. pYes (PositionOf t' u m) = pYes (PositionOf t u m)
             - (if u \<in> set users \<and> m = market then pYes (PositionOf s u market) else 0) \<and>
           pNo (PositionOf t' u m) = pNo (PositionOf t u m)
             - (if u \<in> set users \<and> m = market then pNo (PositionOf s u market) else 0)))"
  using assms(1-3) unfolding t'_def
proof (induction users arbitrary: t)
  case Nil
  then show ?case by (simp add: payoutEvents_def)
next
  case (Cons u us)
  let ?p = "PositionOf s u market"
  let ?t1 = "let p = ?p in if pYes p \<noteq> 0 \<or> pNo p \<noteq> 0 then payoutStep market yes p u t else t"
  note ev = payoutEvents_Cons [OF Cons.prems(1), of yes]
  have pos1: "ledger_pos ?t1"
    using Cons.prems(1,3) payoutStep_pos [of t yes ?p u market] by (simp add: payable_def payoutOf_def Let_def)
  have next_ok: "payable market s ?t1 us"
    using Cons.prems(1,2) by (auto simp: payable_def Let_def payoutStep_account)
  have one: "cash ?t1 = cash t + 100 * payoutOf yes ?p" "reserved ?t1 = reserved t"
    "totalYes ?t1 = totalYes t - pYes ?p" "orders ?t1 = orders t" "markets ?t1 = markets t"
    "\<And>m. skew ?t1 m = skew t m - (if m = market then pYes ?p - pNo ?p else 0)"
    "\<And>v. Balance ?t1 v = Balance t v + (if u = v then 100 * payoutOf yes ?p else 0)"
    "\<And>v m. pYes (PositionOf ?t1 v m) = pYes (PositionOf t v m) - (if u = v \<and> market = m then pYes ?p else 0)"
    "\<And>v m. pNo (PositionOf ?t1 v m) = pNo (PositionOf t v m) - (if u = v \<and> market = m then pNo ?p else 0)"
    by (auto simp: Let_def payoutStep_measures payoutStep_account payoutOf_def)
  have "distinct us" using Cons.prems(2) by simp
  from Cons.IH [OF next_ok this pos1] show ?case
    unfolding ev one using Cons.prems(2) by auto
qed

section \<open>The whole resolution\<close>

definition resolution :: "string \<Rightarrow> bool \<Rightarrow> Market \<Rightarrow> 'a ledger_scheme \<Rightarrow> Event list" where
  "resolution i yes m s = cancelAll i s (restingIn i s)
     @ payoutEvents i yes s (sorted_list_of_fset (fmdom (positions s)))
     @ [Event0\<lparr>eType := EventMarket, eMarket := resolvedMarket m yes\<rparr>]"

lemma resolution_book: "resolution i yes m (book s) = resolution i yes m s"
  by (simp add: resolution_def cancelAll_def orderIn_def restingIn_def payoutEvents_def)

lemma ResolveFor_cases:
  assumes "ResolveFor ctxErr i yes owner s = (r, t)"
  obtains (refused) e where "r = Some e" "book t = book s"
    | (resolved) m t1 t2 where "fmlookup (markets s) i = Some m" "mStatus m = Open"
      "mOwnerID m = [] \<or> mOwnerID m = owner" "failure s = None" "ctxErr = None" "same_ledger s t1"
      "commitMany (resolution i yes m s) t1 = (r, t2)" "same_ledger t2 t"
proof (cases "ctxErr = None \<and> failure s = None")
  case True
  show thesis
  proof (cases "fmlookup (markets s) i")
    case None
    then show thesis using assms True refused by (auto simp: ResolveFor_def)
  next
    case (Some m)
    show thesis
    proof (cases "mStatus m = Open \<and> (mOwnerID m = [] \<or> mOwnerID m = owner)")
      case False
      then show thesis using assms True Some refused by (auto simp: ResolveFor_def split: if_splits)
    next
      case open_owned: True
      obtain x t1 where loop: "cancelLoop m i (restingIn i s) s = (x, t1)" by (rule prod.exhaust)
      show thesis
      proof (cases x)
        case (Inl e)
        then show thesis
          using assms True Some open_owned loop refused cancelLoop_result(1) [OF loop]
          by (auto simp: ResolveFor_def)
      next
        case (Inr es)
        note l = cancelLoop_result(2) [OF loop Inr]
        obtain r2 t2 where c: "commitMany (resolution i yes m s) t1 = (r2, t2)" by (rule prod.exhaust)
        show thesis
          using assms True Some open_owned loop Inr l c resolved
          by (cases r2) (auto simp: ResolveFor_def resolution_def)
      qed
    qed
  qed
next
  case False
  then show thesis using assms refused by (cases ctxErr; cases "failure s") (auto simp: ResolveFor_def)
qed

text \<open>The shares of one outcome held outside of orders.\<close>

definition outstanding :: "(Position \<Rightarrow> int) \<Rightarrow> 'a ledger_scheme \<Rightarrow> string \<Rightarrow> int" where
  "outstanding f s m = fmsum (\<lambda>u ps. f (fmget Position0 ps m)) (positions s)"

lemma sum_users:
  "sum_list (map (\<lambda>u. f (PositionOf s u m)) (sorted_list_of_fset (fmdom (positions s)))) = outstanding f s m"
proof -
  have "sum_list (map (\<lambda>u. f (PositionOf s u m)) (sorted_list_of_fset (fmdom (positions s))))
      = (\<Sum>u\<in>fmdom' (positions s). f (PositionOf s u m))"
    by (simp add: sum_list_distinct_conv_sum_set fmdom'_alt_def)
  also have "\<dots> = outstanding f s m"
    unfolding outstanding_def fmsum_def
    by (rule sum.cong) (auto simp: PositionOf_def fmget_def [of fmempty] fmlookup_dom'_iff)
  finally show ?thesis .
qed

text \<open>The accounts and the sums after a resolution on the ideal ledger.\<close>

lemma heldFor_nonneg:
  assumes "ledger_pos s" and "allResting m s is"
  shows "0 \<le> heldFor lockedCash s is u" "0 \<le> heldFor lockedYes s is u" "0 \<le> heldFor lockedNo s is u"
proof -
  have ok: "order_ok i (orderIn s i)" if "i \<in> set is" for i
    using assms that by (fastforce simp: allResting_def ledger_pos_def orderIn_def fmget_def)
  show "0 \<le> heldFor lockedCash s is u" "0 \<le> heldFor lockedYes s is u" "0 \<le> heldFor lockedNo s is u"
    unfolding heldFor_def by (auto intro!: sum_list_nonneg order_ok_locked ok)
qed

lemma sharesNo_nonneg: "ledger_pos s \<Longrightarrow> 0 \<le> sharesNo s m"
  unfolding sharesNo_def
  by (intro add_nonneg_nonneg fmsum_nonneg) (auto simp: ledger_pos_position_nonneg ledger_pos_locked)

lemma PositionOf_unknown: "u |\<notin>| fmdom (positions s) \<Longrightarrow> PositionOf s u m = Position0"
  by (simp add: PositionOf_def fmget_def fmdom_notD)

lemma resolution_ideal:
  fixes yes :: bool and i :: string and m :: Market
  assumes "funded D s"
  defines "t \<equiv> ideal_all (resolution i yes m s) s"
  shows "ledger_pos t" and "markets t = fmupd (mID m) (resolvedMarket m yes) (markets s)"
    and "fmlookup (orders t) k = (if k \<in> set (restingIn i s)
      then Some ((orderIn s k)\<lparr>oStatus := Cancelled\<rparr>) else fmlookup (orders s) k)"
    and "value_of t = D + 100 * (outstanding (payoutOf yes) s i - outstanding pYes s i)"
    and "skew t m' = (if m' = i then outstanding pNo s i - outstanding pYes s i else 0)"
    and "Balance t u = Balance s u + heldFor lockedCash s (restingIn i s) u
      + 100 * payoutOf yes (PositionOf s u i)"
    and "pYes (PositionOf t u m') =
      (if m' = i then heldFor lockedYes s (restingIn i s) u else pYes (PositionOf s u m'))"
    and "pNo (PositionOf t u m') =
      (if m' = i then heldFor lockedNo s (restingIn i s) u else pNo (PositionOf s u m'))"
    and "ledger_in_range t"
proof -
  let ?is = "restingIn i s" and ?us = "sorted_list_of_fset (fmdom (positions s))"
  define t1 where "t1 = ideal_all (cancelAll i s ?is) s"
  define t2 where "t2 = ideal_all (payoutEvents i yes s ?us) t1"
  have t: "t = t2\<lparr>markets := fmupd (mID m) (resolvedMarket m yes) (markets t2)\<rparr>"
    by (simp add: t_def t2_def t1_def resolution_def resolvedMarket_def)
  have frame: "balances t = balances t2" "orders t = orders t2" "positions t = positions t2"
    by (simp_all add: t)
  note pos = funded_pos [OF assms(1)]
  note c = cancelAll_ideal [OF restingIn_all(1,2) pos refl, of i, folded t1_def]
  have f1: "funded D t1" using c assms(1) by (intro fundedI) (auto simp: funded_def ledger_ok_def)
  have le: "100 * pYes (PositionOf x v j) \<le> int64_max \<and> 100 * pNo (PositionOf x v j) \<le> int64_max"
    if "funded D x" for x :: "'a ledger_scheme" and v j
    using position_le_value [of x v j] that by (fastforce simp: funded_def)
  have pay: "payable i s t1 ?us"
    using c heldFor_nonneg [OF pos restingIn_all(1)] le [OF assms(1)] ledger_pos_nonneg(2,3) [OF pos]
    by (auto simp: payable_def)
  note p = payout_ideal [OF pay _ funded_pos [OF f1], of yes, folded t2_def, unfolded sum_users, simplified]
  have f1': "value_of t1 = D" "D \<le> int64_max" "\<And>m. skew t1 m = 0" using f1 by (auto simp: funded_def ledger_ok_def)
  show post: "ledger_pos t" using p ledger_pos_frame(1) [OF frame] by simp
  show "markets t = fmupd (mID m) (resolvedMarket m yes) (markets s)" using p c by (simp add: t)
  show "fmlookup (orders t) k = (if k \<in> set ?is then Some ((orderIn s k)\<lparr>oStatus := Cancelled\<rparr>)
      else fmlookup (orders s) k)" using p c by (simp add: frame)
  show "value_of t = D + 100 * (outstanding (payoutOf yes) s i - outstanding pYes s i)"
    using p f1' measures_frame(6) [OF frame] by (simp add: value_of_def)
  show "skew t m' = (if m' = i then outstanding pNo s i - outstanding pYes s i else 0)"
    using p f1' measures_frame(7) [OF frame] by simp
  show "Balance t u = Balance s u + heldFor lockedCash s ?is u + 100 * payoutOf yes (PositionOf s u i)"
    using p c PositionOf_unknown [of u s i] by (simp add: t payoutOf_def)
  show yes: "pYes (PositionOf t u m') = (if m' = i then heldFor lockedYes s ?is u else pYes (PositionOf s u m'))"
    and no: "pNo (PositionOf t u m') = (if m' = i then heldFor lockedNo s ?is u else pNo (PositionOf s u m'))" for u m'
    using p c PositionOf_unknown [of u s i] by (simp_all add: t)
  show "ledger_in_range t"
  proof (rule ledger_in_rangeI [OF post])
    have pos2: "ledger_pos t2" using p by simp
    have "outstanding (payoutOf yes) s i = (if yes then outstanding pYes s i else outstanding pNo s i)"
      by (simp add: payoutOf_def [abs_def])
    then have "outstanding (payoutOf yes) s i \<le> totalYes t1"
      using p f1'(3) [of i] sharesYes_le_total [OF pos2, of i] sharesNo_nonneg [OF pos2, of i]
        ledger_pos_parts(3) [OF pos2] by (auto simp: skew_def split: if_splits)
    then show "cash t \<le> int64_max"
      using p f1' measures_frame(1) [OF frame] ledger_pos_parts(2) [OF pos2] by (simp add: value_of_def)
    show "pYes (PositionOf t v j) \<le> int64_max \<and> pNo (PositionOf t v j) \<le> int64_max" for v j
      using p le [OF f1, of v j] ledger_pos_nonneg(2,3) [OF pos, of v i] by (auto simp: t)
  qed
qed

text \<open>A commit whose ideal result is in range.\<close>

lemma commit_in_range:
  assumes "commitMany es s = (None, t)" and "ledger_in_range (book s)" and "ledger_in_range (ideal_all es (book s))"
  shows "book t = book (ideal_all es (book s))"
  using commitMany_ok(3) [OF assms(1)] apply_all_ideal [OF assms(2,3)] by simp

lemma funded_in_range: "funded D s \<Longrightarrow> ledger_in_range s"
  by (auto simp: funded_def intro: ledger_ok_in_range)

lemma orderIn_book [simp]: "orderIn (book s) = orderIn s"
  by (simp add: orderIn_def [abs_def])

lemma restingIn_book [simp]: "restingIn m (book s) = restingIn m s"
  by (simp add: restingIn_def)

lemma measures_book [simp]:
  "heldFor f (book s) is u = heldFor f s is u" "outstanding g (book s) m = outstanding g s m"
  by (simp_all add: heldFor_def outstanding_def cong: if_cong)

lemma ResolveFor_ideal:
  assumes "ResolveFor ctxErr i yes owner s = (None, t)" and "funded D s"
  obtains m where "fmlookup (markets s) i = Some m" "mStatus m = Open"
    "mOwnerID m = [] \<or> mOwnerID m = owner" "book t = book (ideal_all (resolution i yes m (book s)) (book s))"
proof -
  from assms(1) obtain m t1 t2 where c: "fmlookup (markets s) i = Some m" "mStatus m = Open"
      "mOwnerID m = [] \<or> mOwnerID m = owner" "same_ledger s t1"
      "commitMany (resolution i yes m s) t1 = (None, t2)" "same_ledger t2 t"
    by (cases rule: ResolveFor_cases) auto
  have b: "book t1 = book s" "book t = book t2" using c(4,6) by (simp_all add: same_ledger_def)
  have f: "funded D (book s)" using assms(2) by simp
  have "book t2 = book (ideal_all (resolution i yes m s) (book t1))"
    using funded_in_range [OF f] resolution_ideal(9) [OF f, of i yes m] b
    by (intro commit_in_range [OF c(5)]) (simp_all add: resolution_book)
  then show thesis using that c b by (simp add: resolution_book)
qed

lemma ResolveFor_funded:
  assumes "ResolveFor ctxErr i yes owner s = (r, t)" and "funded D s"
    and "outstanding pYes s i = outstanding pNo s i"
  shows "funded D t"
proof (cases r)
  case None
  with assms(1) have ok: "ResolveFor ctxErr i yes owner s = (None, t)" by simp
  obtain m where b: "book t = book (ideal_all (resolution i yes m (book s)) (book s))"
    using ResolveFor_ideal [OF ok assms(2)] by metis
  have f: "funded D (book s)" using assms(2) by simp
  have "outstanding (payoutOf yes) s i = outstanding pYes s i"
    using assms(3) by (cases yes) (simp_all add: payoutOf_def [abs_def])
  then have "funded D (ideal_all (resolution i yes m (book s)) (book s))"
    using resolution_ideal(1,4,5) [OF f] assms(2,3) by (intro fundedI) (auto simp: funded_def)
  then show ?thesis using b funded_book by metis
next
  case (Some e)
  with assms(1) show ?thesis
  proof (cases rule: ResolveFor_cases)
    case (refused e)
    then show ?thesis using assms(2) funded_eq_book by blast
  next
    case (resolved m t1 t2)
    then have "book t = book s"
      using commitMany_err(1) [of _ t1 e t2] Some by (simp add: same_ledger_def keeps_def)
    then show ?thesis using assms(2) funded_eq_book by blast
  qed
qed

text \<open>Without live sell orders in the market, as many YES as NO shares are outstanding.\<close>

definition noSells :: "string \<Rightarrow> 'a ledger_scheme \<Rightarrow> bool" where
  "noSells m s \<longleftrightarrow> (\<forall>i\<in>fmdom' (orders s). let od = orderIn s i
     in oMarketID od = m \<longrightarrow> live od \<longrightarrow> isBuy (oSide od))"

lemma noSells_balanced:
  assumes "funded D s" and "noSells m s"
  shows "outstanding pYes s m = outstanding pNo s m"
proof -
  have sell: "oMarketID od \<noteq> m \<or> \<not> live od \<or> isBuy (oSide od)" if "fmlookup (orders s) k = Some od" for k od
    using assms(2) that fmdom'I [OF that] unfolding noSells_def Let_def orderIn_def fmget_def by fastforce
  have "(if oMarketID od = m then lockedYes od else 0) = 0 \<and> (if oMarketID od = m then lockedNo od else 0) = 0"
    if "fmlookup (orders s) k = Some od" for k od
    using sell [OF that] by (auto simp: lockedYes_def lockedNo_def)
  then have "fmsum (\<lambda>k od. if oMarketID od = m then lockedYes od else 0) (orders s) = 0"
      "fmsum (\<lambda>k od. if oMarketID od = m then lockedNo od else 0) (orders s) = 0"
    by (blast intro: fmsum_zero)+
  moreover have "skew s m = 0" using assms(1) by (simp add: funded_def ledger_ok_def)
  ultimately show ?thesis by (simp add: skew_def sharesYes_def sharesNo_def outstanding_def)
qed

end
