(* ===== verification/Engine_Contract.thy ===== *)
theory Engine_Contract
  imports Settlement
begin

text \<open>
  What the trading service relies on when it calls a matching engine: the books of resting
  orders the engine keeps per symbol, and how a successful call changes them. The contract is a
  locale over the operations of the Go interfaces \<^verbatim>\<open>Engine\<close>, \<^verbatim>\<open>BatchEngine\<close> and
  \<^verbatim>\<open>QuoteEngine\<close>; nothing is promised about a call that returns an error, except for calls
  that only read.
\<close>

section \<open>Books and fills\<close>

record rest =
  rSide :: string
  rPrice :: int
  rQty :: nat

type_synonym restBook = "(nat, rest) fmap"

text \<open>
  Replaying the fills of an incoming order against a book: each fill meets one resting order of
  the other side at its price, within the limit of the incoming order, for no more than either
  has left. The result is what is left of the incoming order, and the book.
\<close>

definition takeFrom :: "restBook \<Rightarrow> nat \<Rightarrow> rest \<Rightarrow> nat \<Rightarrow> restBook" where
  "takeFrom b i r q = (if q = rQty r then fmdrop i b else fmupd i (r\<lparr>rQty := rQty r - q\<rparr>) b)"

definition crosses :: "string \<Rightarrow> int \<Rightarrow> rest \<Rightarrow> bool" where
  "crosses side p r \<longleftrightarrow>
    (if side = ''buy'' then rSide r = ''sell'' \<and> rPrice r \<le> p else rSide r = ''buy'' \<and> p \<le> rPrice r)"

definition maker :: "string \<Rightarrow> EngineTrade \<Rightarrow> nat" where
  "maker side f = (if side = ''buy'' then etSellOrderID f else etBuyOrderID f)"

definition taker :: "string \<Rightarrow> EngineTrade \<Rightarrow> nat" where
  "taker side f = (if side = ''buy'' then etBuyOrderID f else etSellOrderID f)"

fun replayFills :: "nat \<Rightarrow> string \<Rightarrow> int \<Rightarrow> nat \<Rightarrow> restBook \<Rightarrow> EngineTrade list \<Rightarrow> (nat \<times> restBook) option" where
  "replayFills i side p q b [] = Some (q, b)"
| "replayFills i side p q b (f # fs) =
    (case fmlookup b (maker side f) of
       None \<Rightarrow> None
     | Some r \<Rightarrow>
        (if taker side f = i \<and> crosses side p r \<and> etPrice f = rPrice r \<and>
            0 < etQuantity f \<and> etQuantity f \<le> q \<and> etQuantity f \<le> rQty r
         then replayFills i side p (q - etQuantity f) (takeFrom b (maker side f) r (etQuantity f)) fs
         else None))"

definition bookAfter :: "nat \<Rightarrow> string \<Rightarrow> int \<Rightarrow> nat \<times> restBook \<Rightarrow> restBook" where
  "bookAfter i side p qb =
    (if fst qb = 0 then snd qb else fmupd i \<lparr>rSide = side, rPrice = p, rQty = fst qb\<rparr> (snd qb))"

definition matchBook :: "restBook \<Rightarrow> string \<Rightarrow> int \<Rightarrow> nat \<Rightarrow> EngineResult \<Rightarrow> restBook option" where
  "matchBook b side p q res =
    (if erOrderID res = 0 \<or> fmlookup b (erOrderID res) \<noteq> None then None
     else map_option (bookAfter (erOrderID res) side p) (replayFills (erOrderID res) side p q b (erTrades res)))"

text \<open>The orders of a batch act on the book of one symbol in the order of the batch.\<close>

fun matchAll :: "string \<Rightarrow> restBook \<Rightarrow> (EngineOrder \<times> EngineResult) list \<Rightarrow> restBook option" where
  "matchAll symbol b [] = Some b"
| "matchAll symbol b ((od, res) # rest) =
    (if eoSymbol od \<noteq> symbol then matchAll symbol b rest
     else case matchBook b (eoSide od) (eoPrice od) (eoQuantity od) res of
            None \<Rightarrow> None
          | Some b' \<Rightarrow> matchAll symbol b' rest)"

definition sideOk :: "string \<Rightarrow> bool" where
  "sideOk side \<longleftrightarrow> side = ''buy'' \<or> side = ''sell''"

section \<open>The contract\<close>

locale matching_engine =
  fixes eng :: "'e Engine"
    and bookOf :: "'e \<Rightarrow> string \<Rightarrow> restBook"
    and healthy :: "'e \<Rightarrow> bool"
  assumes AddBook_books:
      "healthy e \<Longrightarrow> AddBook eng e symbol = (r, e') \<Longrightarrow> healthy e' \<and> bookOf e' = bookOf e"
    and AddOrder_books:
      "healthy e \<Longrightarrow> AddOrder eng e symbol p q side = (Inr res, e') \<Longrightarrow> sideOk side \<Longrightarrow> 0 < q \<Longrightarrow>
        healthy e' \<and> matchBook (bookOf e symbol) side p q res = Some (bookOf e' symbol) \<and>
        (\<forall>other. other \<noteq> symbol \<longrightarrow> bookOf e' other = bookOf e other)"
    and RemoveOrder_books:
      "healthy e \<Longrightarrow> RemoveOrder eng e symbol i = (Inr removed, e') \<Longrightarrow>
        healthy e' \<and> removed = (fmlookup (bookOf e symbol) i \<noteq> None) \<and>
        bookOf e' = (bookOf e)(symbol := fmdrop i (bookOf e symbol))"
    and AddOrders_books:
      "healthy e \<Longrightarrow> AddOrders eng = Some call \<Longrightarrow> call e ods = (Inr batch, e') \<Longrightarrow>
        length (ebResults batch) = length ods \<Longrightarrow> \<forall>od\<in>set ods. sideOk (eoSide od) \<and> 0 < eoQuantity od \<Longrightarrow>
        healthy e' \<and> (\<forall>symbol. matchAll symbol (bookOf e symbol) (zip ods (ebResults batch)) = Some (bookOf e' symbol))"
    and Quote_books:
      "healthy e \<Longrightarrow> EngineQuoteOf eng = Some quote \<Longrightarrow> quote e symbol = (ans, e') \<Longrightarrow>
        healthy e' \<and> bookOf e' = bookOf e"
begin

text \<open>A new order gets a fresh ID, and only the book of its symbol changes.\<close>

lemma AddOrder_fresh:
  assumes "healthy e" and "AddOrder eng e symbol p q side = (Inr res, e')" and "sideOk side" and "0 < q"
  shows "erOrderID res \<noteq> 0" and "fmlookup (bookOf e symbol) (erOrderID res) = None"
    and "\<exists>qb. replayFills (erOrderID res) side p q (bookOf e symbol) (erTrades res) = Some qb \<and>
      bookOf e' symbol = bookAfter (erOrderID res) side p qb"
  using AddOrder_books [OF assms] by (auto simp: matchBook_def split: if_splits)

end

end
