(* ===== verification/Coupling.thy ===== *)
theory Coupling
  imports Engine_Contract
begin

text \<open>
  The ledger and the engine agree on the resting orders: the book of an open market's symbol
  holds exactly the live orders of the market that carry an engine ID, with the quantities they
  have left. Under this agreement the answers of an engine that keeps its contract are answers
  the accounting can rely on, and the agreement holds again after the fills.
\<close>

section \<open>Orders and books\<close>

definition restOf :: "Order \<Rightarrow> rest" where
  "restOf od = \<lparr>rSide = oEngineSide od, rPrice = oEnginePrice od, rQty = nat (remaining od)\<rparr>"

definition restingAs :: "string \<Rightarrow> nat \<Rightarrow> Order \<Rightarrow> bool" where
  "restingAs m i od \<longleftrightarrow> live od \<and> oMarketID od = m \<and> oEngineID od = i \<and> i \<noteq> 0"

definition mirrors :: "(nat \<Rightarrow> bool) \<Rightarrow> string \<Rightarrow> restBook \<Rightarrow> (string, Order) fmap \<Rightarrow> bool" where
  "mirrors skip m b os \<longleftrightarrow>
    (\<forall>i r. fmlookup b i = Some r \<longleftrightarrow>
       \<not> skip i \<and> (\<exists>k od. fmlookup os k = Some od \<and> restingAs m i od \<and> r = restOf od))"

definition uniqueIDs :: "(string, Order) fmap \<Rightarrow> bool" where
  "uniqueIDs os \<longleftrightarrow>
    (\<forall>k k' od od' m i. fmlookup os k = Some od \<longrightarrow> fmlookup os k' = Some od' \<longrightarrow>
       restingAs m i od \<longrightarrow> restingAs m i od' \<longrightarrow> k = k')"

definition ordersOk :: "(string, Order) fmap \<Rightarrow> bool" where
  "ordersOk os \<longleftrightarrow> (\<forall>k od. fmlookup os k = Some od \<longrightarrow> order_ok k od)"

definition finds :: "(nat \<Rightarrow> string option) \<Rightarrow> string \<Rightarrow> (string, Order) fmap \<Rightarrow> bool" where
  "finds look m os \<longleftrightarrow> (\<forall>k od i. fmlookup os k = Some od \<longrightarrow> restingAs m i od \<longrightarrow> look i = Some k)"

text \<open>The orders after a list of fills.\<close>

fun fillAll :: "(nat \<Rightarrow> string option) \<Rightarrow> (string, Order) fmap \<Rightarrow> EngineTrade list \<Rightarrow> (string, Order) fmap" where
  "fillAll look os [] = os"
| "fillAll look os (f # fs) =
    (case (look (etBuyOrderID f), look (etSellOrderID f)) of
       (Some b, Some sl) \<Rightarrow>
         fillAll look (fmupd sl (fillOrder (fmget Order0 os sl) (int (etQuantity f)))
           (fmupd b (fillOrder (fmget Order0 os b) (int (etQuantity f))) os)) fs
     | _ \<Rightarrow> fillAll look os fs)"

section \<open>One fill\<close>

lemma fillOrder_ids [simp]:
  "oID (fillOrder od q) = oID od" "oMarketID (fillOrder od q) = oMarketID od"
  "oEngineID (fillOrder od q) = oEngineID od" "oEngineSide (fillOrder od q) = oEngineSide od"
  "oEnginePrice (fillOrder od q) = oEnginePrice od" "oUserID (fillOrder od q) = oUserID od"
  by (simp_all add: fillOrder_def Let_def)

lemma fillOrder_remaining:
  assumes "order_ok k od" and "fillable od q p"
  shows "remaining (fillOrder od q) = remaining od - q" and "live (fillOrder od q) \<longleftrightarrow> q \<noteq> remaining od"
  using assms(2) by (auto simp: fillOrder_exact [OF assms] remaining_def live_def fillable_def)

lemma order_ok_remaining: "order_ok k od \<Longrightarrow> live od \<Longrightarrow> 0 < remaining od"
  by (simp add: order_ok_def remaining_def)

lemma order_ok_enginePrice: "order_ok k od \<Longrightarrow> 1 \<le> oEnginePrice od \<and> oEnginePrice od \<le> 99"
  by (cases rule: order_ok_sides, assumption) (auto dest: order_ok_price)

lemma order_ok_sideOk: "order_ok k od \<Longrightarrow> sideOk (oEngineSide od)"
  by (cases rule: order_ok_sides, assumption) (auto simp: sideOk_def)

text \<open>What is known of an incoming order while its fills are replayed.\<close>

definition incoming :: "string \<Rightarrow> string \<Rightarrow> nat \<Rightarrow> string \<Rightarrow> int \<Rightarrow> nat \<Rightarrow> (string, Order) fmap \<Rightarrow> bool" where
  "incoming oid m i side p q os \<longleftrightarrow> i \<noteq> 0 \<and>
    (case fmlookup os oid of
       None \<Rightarrow> False
     | Some od \<Rightarrow> oMarketID od = m \<and> oEngineID od = i \<and> oEngineSide od = side \<and> oEnginePrice od = p \<and>
         remaining od = int q \<and> live od = (0 < q))"

definition sole :: "string \<Rightarrow> string \<Rightarrow> nat \<Rightarrow> (string, Order) fmap \<Rightarrow> bool" where
  "sole oid m i os \<longleftrightarrow> (\<forall>k od. fmlookup os k = Some od \<longrightarrow> restingAs m i od \<longrightarrow> k = oid)"

definition tracked :: "(nat \<Rightarrow> string option) \<Rightarrow> string \<Rightarrow> string \<Rightarrow> nat \<Rightarrow> string \<Rightarrow> int \<Rightarrow>
   nat \<Rightarrow> restBook \<Rightarrow> (string, Order) fmap \<Rightarrow> bool" where
  "tracked look oid m i side p q b os \<longleftrightarrow> ordersOk os \<and> uniqueIDs os \<and> finds look m os \<and>
     sole oid m i os \<and> incoming oid m i side p q os \<and> mirrors ((=) i) m b os"

lemma mirrors_iff:
  assumes "mirrors skip m b os"
  shows "fmlookup b i = Some r \<longleftrightarrow>
    \<not> skip i \<and> (\<exists>k od. (fmlookup os k = Some od \<and> restingAs m i od) \<and> r = restOf od)"
  using assms unfolding mirrors_def conj_assoc by (rule allE) (erule allE)

lemma mirrorsI:
  assumes "\<And>i r. fmlookup b i = Some r \<longleftrightarrow>
    \<not> skip i \<and> (\<exists>k od. (fmlookup os k = Some od \<and> restingAs m i od) \<and> r = restOf od)"
  shows "mirrors skip m b os"
  unfolding mirrors_def using assms unfolding conj_assoc by (intro allI)

lemma findsD: "finds look m os \<Longrightarrow> fmlookup os k = Some od \<Longrightarrow> restingAs m i od \<Longrightarrow> look i = Some k"
  unfolding finds_def by blast

lemma restOf_fill:
  assumes "order_ok k od" and "fillable od (int x) p"
  shows "restOf (fillOrder od (int x)) = (restOf od)\<lparr>rQty := rQty (restOf od) - x\<rparr>"
  using fillOrder_remaining(1) [OF assms] by (simp add: restOf_def nat_diff_distrib')

text \<open>Updates that add no resting order keep the IDs unique and the lookup complete.\<close>

definition shrinks :: "(string, Order) fmap \<Rightarrow> (string, Order) fmap \<Rightarrow> bool" where
  "shrinks os os' \<longleftrightarrow> (\<forall>h od' m i. fmlookup os' h = Some od' \<longrightarrow> restingAs m i od' \<longrightarrow>
     (\<exists>od. fmlookup os h = Some od \<and> restingAs m i od))"

lemma shrinks_unique: "shrinks os os' \<Longrightarrow> uniqueIDs os \<Longrightarrow> uniqueIDs os'"
  unfolding shrinks_def uniqueIDs_def by metis

lemma shrinks_finds: "shrinks os os' \<Longrightarrow> finds look m os \<Longrightarrow> finds look m os'"
  unfolding shrinks_def finds_def by metis

lemma shrinks_sole: "shrinks os os' \<Longrightarrow> sole oid m i os \<Longrightarrow> sole oid m i os'"
  unfolding shrinks_def sole_def by metis

lemma shrinks_trans: "shrinks os os' \<Longrightarrow> shrinks os' os'' \<Longrightarrow> shrinks os os''"
  unfolding shrinks_def by metis

lemma shrinks_upd:
  assumes "fmlookup os k = Some od" and "\<And>m i. restingAs m i od' \<Longrightarrow> restingAs m i od"
  shows "shrinks os (fmupd k od' os)"
  using assms by (auto simp: shrinks_def)

lemma mirrors_fill:
  assumes "mirrors ((=) i) m b os" and "uniqueIDs os"
    and "fmlookup os k = Some od" and "restingAs m j od" and "i \<noteq> j" and "order_ok k od"
    and "fillable od (int x) p" and "r = restOf od"
    and "fmlookup os oid = Some new" and "oEngineID new = i" and "oid \<noteq> k"
  shows "mirrors ((=) i) m (takeFrom b j r x)
    (fmupd k (fillOrder od (int x)) (fmupd oid (fillOrder new (int x)) os))"
    (is "mirrors _ _ ?b ?os")
proof -
  have here: "fmlookup ?b j = Some r' \<longleftrightarrow> (\<exists>h od'. fmlookup ?os h = Some od' \<and> restingAs m j od' \<and> r' = restOf od')"
    for r'
  proof -
    have only: "h = k" if "fmlookup ?os h = Some od'" "restingAs m j od'" for h od'
    proof (rule ccontr)
      assume "h \<noteq> k"
      then have "\<exists>od0. fmlookup os h = Some od0 \<and> restingAs m j od0"
        using that assms(9,10,5) by (auto simp: restingAs_def split: if_splits)
      then show False using assms(2,3,4) \<open>h \<noteq> k\<close> unfolding uniqueIDs_def by blast
    qed
    have "restingAs m j (fillOrder od (int x)) \<longleftrightarrow> x \<noteq> rQty r"
      using assms(4,8) fillOrder_remaining(2) [OF assms(6,7)] assms(7)
      by (auto simp: restingAs_def restOf_def fillable_def)
    moreover have "fmlookup ?b j = (if x = rQty r then None else Some (r\<lparr>rQty := rQty r - x\<rparr>))"
      by (simp add: takeFrom_def)
    moreover have at: "fmlookup ?os k = Some (fillOrder od (int x))" by simp
    moreover have "(\<exists>h od'. fmlookup ?os h = Some od' \<and> restingAs m j od' \<and> r' = restOf od') \<longleftrightarrow>
        restingAs m j (fillOrder od (int x)) \<and> r' = restOf (fillOrder od (int x))"
      using only at by (metis option.inject)
    ultimately show ?thesis using restOf_fill [OF assms(6,7)] assms(8) by auto
  qed
  have there: "fmlookup ?b i' = fmlookup b i'" if "i' \<noteq> j" for i'
    using that by (simp add: takeFrom_def)
  have other: "(fmlookup ?os h = Some od' \<and> restingAs m i' od') = (fmlookup os h = Some od' \<and> restingAs m i' od')"
    if "i' \<noteq> j" "i \<noteq> i'" for i' h od'
    using that assms(3,4,9,10,11) by (auto simp: restingAs_def)
  show ?thesis
  proof (rule mirrorsI)
    fix i' r'
    show "fmlookup ?b i' = Some r' \<longleftrightarrow> i \<noteq> i' \<and>
        (\<exists>h od'. (fmlookup ?os h = Some od' \<and> restingAs m i' od') \<and> r' = restOf od')"
    proof (cases "i' = j")
      case True
      then show ?thesis using here [of r'] assms(5) unfolding conj_assoc by simp
    next
      case False
      show ?thesis
        unfolding there [OF False] mirrors_iff [OF assms(1)] using other [OF False] by blast
    qed
  qed
qed

lemma fillable_maker:
  assumes "order_ok k od" and "live od" and "q \<le> nat (remaining od)" and "0 < q"
  shows "fillable od (int q) (oEnginePrice od)"
  using assms order_ok_enginePrice [OF assms(1)] by (auto simp: fillable_def)

lemma tracked_fill:
  assumes "tracked look oid m i side p q b os"
    and "fmlookup b j = Some r" and "crosses side p r" and "sideOk side"
    and "0 < x" and "x \<le> q" and "x \<le> rQty r"
  obtains k od new where "look j = Some k" "look i = Some oid" "k \<noteq> oid"
    "fmlookup os k = Some od" "fmlookup os oid = Some new" "oMarketID od = m" "oMarketID new = m"
    "oEngineSide od = rSide r" "oEngineSide new = side"
    "fillable od (int x) (rPrice r)" "fillable new (int x) (rPrice r)"
    "tracked look oid m i side p (q - x) (takeFrom b j r x)
      (fmupd k (fillOrder od (int x)) (fmupd oid (fillOrder new (int x)) os))"
    "oEngineID od \<noteq> 0" "oEngineID new \<noteq> 0"
proof -
  note tr = assms(1) [unfolded tracked_def]
  obtain k od where k: "fmlookup os k = Some od" "restingAs m j od" "r = restOf od" "i \<noteq> j"
    using tr assms(2) mirrors_iff [of "(=) i" m b os j r] by blast
  obtain new where new: "fmlookup os oid = Some new" "oMarketID new = m" "oEngineID new = i"
      "oEngineSide new = side" "oEnginePrice new = p" "remaining new = int q" "live new" "i \<noteq> 0"
    using tr assms(5,6) by (auto simp: incoming_def split: option.splits)
  have okk: "order_ok k od" and oko: "order_ok oid new" using tr k(1) new(1) by (auto simp: ordersOk_def)
  have ne: "k \<noteq> oid"
  proof
    assume "k = oid"
    then have "od = new" using k(1) new(1) by simp
    then show False using k(2,4) new(3) by (simp add: restingAs_def)
  qed
  have fnd: "finds look m os" and mir: "mirrors ((=) i) m b os" and uni: "uniqueIDs os" using tr by blast+
  have look: "look j = Some k" "look i = Some oid"
    using findsD [OF fnd k(1,2)] findsD [OF fnd new(1), of i] new by (simp_all add: restingAs_def)
  have f1: "fillable od (int x) (rPrice r)"
    using fillable_maker [OF okk, of x] k assms(5,7) by (simp add: restOf_def restingAs_def)
  have f2: "fillable new (int x) (rPrice r)"
    using new k(2,3) assms(3-7) order_ok_enginePrice [OF okk]
    by (auto simp: fillable_def crosses_def restOf_def sideOk_def split: if_splits)
  let ?os = "fmupd k (fillOrder od (int x)) (fmupd oid (fillOrder new (int x)) os)"
  note rem = fillOrder_remaining [OF okk f1] fillOrder_remaining [OF oko f2]
  have "shrinks os (fmupd oid (fillOrder new (int x)) os)"
    using new by (intro shrinks_upd) (auto simp: restingAs_def)
  moreover have "shrinks (fmupd oid (fillOrder new (int x)) os) ?os"
    using k(1,2) ne by (intro shrinks_upd) (auto simp: restingAs_def)
  ultimately have sub: "shrinks os ?os" by (rule shrinks_trans)
  have "ordersOk ?os"
    using tr fillOrder_ok [OF okk f1] fillOrder_ok [OF oko f2] by (auto simp: ordersOk_def)
  moreover have "uniqueIDs ?os" "finds look m ?os" "sole oid m i ?os"
    using shrinks_unique [OF sub uni] shrinks_finds [OF sub fnd] shrinks_sole [OF sub] tr by simp_all
  moreover have "incoming oid m i side p (q - x) ?os"
    using new ne rem assms(6) by (auto simp: incoming_def)
  moreover have "mirrors ((=) i) m (takeFrom b j r x) ?os"
    using mirrors_fill [OF mir uni k(1,2,4) okk f1 k(3) new(1,3)] ne by blast
  ultimately have "tracked look oid m i side p (q - x) (takeFrom b j r x) ?os"
    by (simp add: tracked_def)
  moreover have "oMarketID od = m" "oEngineSide od = rSide r" using k(2,3) by (simp_all add: restingAs_def restOf_def)
  moreover have "oEngineID od \<noteq> 0" "oEngineID new \<noteq> 0" using k(2) new(3,8) by (simp_all add: restingAs_def)
  ultimately show thesis using that [OF look ne k(1) new(1) _ new(2) _ new(4) f1 f2] by simp
qed

section \<open>A list of fills\<close>

definition untouched :: "(string, Order) fmap \<Rightarrow> (string, Order) fmap \<Rightarrow> bool" where
  "untouched os os' \<longleftrightarrow> (\<forall>h x. fmlookup os h = Some x \<longrightarrow> oEngineID x = 0 \<longrightarrow> fmlookup os' h = Some x)"

lemma untouched_upd:
  assumes "fmlookup os h = Some x" and "oEngineID x \<noteq> 0" and "untouched (fmupd h y os) os'"
  shows "untouched os os'"
  using assms unfolding untouched_def by (metis fmupd_lookup option.inject)

lemma tracked_replay:
  assumes "tracked look oid m i side p q b os" and "replayFills i side p q b fs = Some (q', b')" and "sideOk side"
  shows "validTrades look m os fs \<and> tracked look oid m i side p q' b' (fillAll look os fs) \<and>
    untouched os (fillAll look os fs)"
  using assms(1,2)
proof (induction fs arbitrary: q b os)
  case (Cons f fs)
  obtain r where r: "fmlookup b (maker side f) = Some r" "taker side f = i" "crosses side p r" "etPrice f = rPrice r"
      "0 < etQuantity f" "etQuantity f \<le> q" "etQuantity f \<le> rQty r"
      "replayFills i side p (q - etQuantity f) (takeFrom b (maker side f) r (etQuantity f)) fs = Some (q', b')"
    using Cons.prems(2) by (auto split: option.splits if_splits)
  obtain k od new where t: "look (maker side f) = Some k" "look i = Some oid" "k \<noteq> oid"
      "fmlookup os k = Some od" "fmlookup os oid = Some new" "oMarketID od = m" "oMarketID new = m"
      "oEngineSide od = rSide r" "oEngineSide new = side"
      "fillable od (int (etQuantity f)) (rPrice r)" "fillable new (int (etQuantity f)) (rPrice r)"
      "tracked look oid m i side p (q - etQuantity f) (takeFrom b (maker side f) r (etQuantity f))
        (fmupd k (fillOrder od (int (etQuantity f))) (fmupd oid (fillOrder new (int (etQuantity f))) os))"
      "oEngineID od \<noteq> 0" "oEngineID new \<noteq> 0"
    by (rule tracked_fill [OF Cons.prems(1) r(1,3) assms(3) r(5-7)])
  note IH = Cons.IH [OF t(12) r(8)]
  have k: "fmlookup (fmupd oid (fillOrder new (int (etQuantity f))) os) k = Some od" using t(3,4) by simp
  have un: "untouched os (fillAll look
      (fmupd k (fillOrder od (int (etQuantity f))) (fmupd oid (fillOrder new (int (etQuantity f))) os)) fs)"
    using IH by (intro untouched_upd [OF t(5,14) untouched_upd [OF k t(13)]]) blast
  have swap: "fmupd oid x (fmupd k y os) = fmupd k y (fmupd oid x os)" for x y
    using t(3) by (rule fmupd_reorder_neq [OF not_sym])
  consider "side = ''buy''" | "side = ''sell''" using assms(3) by (auto simp: sideOk_def)
  then show ?case
    using t r IH un by cases
      (simp_all add: maker_def taker_def crosses_def fmget_def swap eq_commute [of oid k])
qed (simp add: untouched_def)

section \<open>The index of engine orders\<close>

definition indexed :: "'a ledger_scheme \<Rightarrow> bool" where
  "indexed s \<longleftrightarrow> (\<forall>m i k. fmlookup (engineOrders s) (m, i) = Some k \<longleftrightarrow>
     (\<exists>od. fmlookup (orders s) k = Some od \<and> restingAs m i od))"

lemma indexedD:
  "indexed s \<Longrightarrow> fmlookup (engineOrders s) (m, i) = Some k \<longleftrightarrow>
     (\<exists>od. fmlookup (orders s) k = Some od \<and> restingAs m i od)"
  unfolding indexed_def by blast

lemma indexed_unique: "indexed s \<Longrightarrow> uniqueIDs (orders s)"
proof -
  assume ix: "indexed s"
  have "k = k'" if "fmlookup (orders s) k = Some od" "fmlookup (orders s) k' = Some od'"
      "restingAs m i od" "restingAs m i od'" for k k' od od' m i
    using indexedD [OF ix, of m i k] indexedD [OF ix, of m i k'] that by simp
  then show ?thesis unfolding uniqueIDs_def by blast
qed

lemma indexed_frame: "orders t = orders s \<Longrightarrow> engineOrders t = engineOrders s \<Longrightarrow> indexed t = indexed s"
  by (simp add: indexed_def)

lemma indexed_putOrder:
  assumes "indexed s"
    and "\<And>old. fmlookup (orders s) (oID od) = Some old \<Longrightarrow> live old \<or> oEngineID old = 0"
    and "\<And>m i k old. restingAs m i od \<Longrightarrow> fmlookup (orders s) k = Some old \<Longrightarrow> restingAs m i old \<Longrightarrow> k = oID od"
  shows "indexed (putOrder od s)"
proof -
  have new: "fmlookup (engineOrders (putOrder od s)) (m, i) =
      (if restingAs m i od then Some (oID od)
       else if \<exists>old. fmlookup (orders s) (oID od) = Some old \<and> restingAs m i old then None
       else fmlookup (engineOrders s) (m, i))" for m i
    using assms(2) by (auto simp: putOrder_def Let_def restingAs_def split: option.splits)
  show ?thesis
    unfolding indexed_def
  proof (intro allI)
    fix m i k
    show "fmlookup (engineOrders (putOrder od s)) (m, i) = Some k \<longleftrightarrow>
        (\<exists>x. fmlookup (orders (putOrder od s)) k = Some x \<and> restingAs m i x)"
    proof (cases "restingAs m i od")
      case True
      then show ?thesis using assms(3) [OF True, of k] unfolding new by auto
    next
      case False
      note at = indexedD [OF assms(1), of m i]
      show ?thesis
      proof (cases "\<exists>old. fmlookup (orders s) (oID od) = Some old \<and> restingAs m i old")
        case True
        then have "fmlookup (engineOrders s) (m, i) = Some (oID od)" using at by blast
        then have "k \<noteq> oID od \<Longrightarrow> \<not> (\<exists>x. fmlookup (orders s) k = Some x \<and> restingAs m i x)"
          using at [of k] by simp
        then show ?thesis unfolding new using True False by auto
      next
        case none: False
        then have "fmlookup (engineOrders s) (m, i) \<noteq> Some (oID od)" using at by blast
        then show ?thesis unfolding new using none False at [of k] by (cases "k = oID od") auto
      qed
    qed
  qed
qed

lemma indexed_leg:
  assumes "indexed s" and "fmlookup (orders s) k = Some od" and "order_ok k od" and "live od"
  shows "indexed (leg od q p s)"
proof -
  have id: "oID (fillOrder od q) = k" using order_ok_ID [OF assms(3)] by simp
  have "indexed (putOrder (fillOrder od q) s)"
  proof (rule indexed_putOrder [OF assms(1)])
    show "live old \<or> oEngineID old = 0" if "fmlookup (orders s) (oID (fillOrder od q)) = Some old" for old
      using that assms(2,4) id by simp
    show "h = oID (fillOrder od q)"
      if "restingAs m i (fillOrder od q)" "fmlookup (orders s) h = Some old" "restingAs m i old" for m i h old
    proof -
      have "restingAs m i od" using that(1) assms(4) by (simp add: restingAs_def)
      then show ?thesis using indexed_unique [OF assms(1)] that(2,3) assms(2) id unfolding uniqueIDs_def by blast
    qed
  qed
  then show ?thesis
    by (rule indexed_frame [THEN iffD2, rotated 2]) (simp_all add: leg_def putOrder_def Let_def)
qed

text \<open>The fills, applied to the ideal ledger, fill the orders and keep the index.\<close>

lemma trades_effect:
  assumes "validTrades (lookupEngine s overrides market) market (orders t) fs"
    and "agrees s staged t" and "ledger_pos t" and "indexed t"
  defines "r \<equiv> buildTradeEvents s market fs overrides staged"
  shows "orders (ideal_all (fst r) t) = fillAll (lookupEngine s overrides market) (orders t) fs \<and>
    indexed (ideal_all (fst r) t)"
  using assms(1-4) unfolding r_def
proof (induction fs arbitrary: staged t)
  case (Cons f fs)
  from Cons.prems(1) obtain b sl ob osl where f:
    "lookupEngine s overrides market (etBuyOrderID f) = Some b"
    "lookupEngine s overrides market (etSellOrderID f) = Some sl"
    "fmlookup (orders t) b = Some ob" "fmlookup (orders t) sl = Some osl" "b \<noteq> sl"
    "oMarketID ob = market" "oMarketID osl = market"
    "oEngineSide ob = ''buy''" "oEngineSide osl = ''sell''"
    "fillable ob (int (etQuantity f)) (etPrice f)" "fillable osl (int (etQuantity f)) (etPrice f)"
    "validTrades (lookupEngine s overrides market) market
      (fmupd sl (fillOrder osl (int (etQuantity f))) (fmupd b (fillOrder ob (int (etQuantity f))) (orders t))) fs"
    by (rule validTrades_ConsE)
  have same: "oMarketID ob = oMarketID osl" using f(6,7) by simp
  have ok: "order_ok b ob" "order_ok sl osl" using Cons.prems(3) f(3,4) by (auto simp: ledger_pos_def)
  have live: "live ob" "live osl" using f(10,11) by (simp_all add: fillable_def)
  let ?q = "int (etQuantity f)" and ?p = "etPrice f"
  note step = buildTradeEvents_step [OF f(1,2) Cons.prems(2,3) f(3,4,5,10,11) refl refl]
  note keeps = tradeStep_keeps [OF Cons.prems(3) f(3,4,5) same f(8,9,10,11)]
  have ix1: "indexed (leg ob ?q ?p t)" by (rule indexed_leg [OF Cons.prems(4) f(3) ok(1) live(1)])
  have "fmlookup (orders (leg ob ?q ?p t)) sl = Some osl" using f(4,5) order_ok_ID [OF ok(1)] by simp
  then have ix: "indexed (tradeStep ob osl ?q ?p t)"
    unfolding tradeStep_def by (rule indexed_leg [OF ix1 _ ok(2) live(2)])
  have "validTrades (lookupEngine s overrides market) market (orders (tradeStep ob osl ?q ?p t)) fs"
    using f(12) keeps(4) by simp
  from Cons.IH [OF this step(3) keeps(1) ix] show ?case
    unfolding step(1) keeps(4) using f(1-4) by (simp add: fmget_def)
qed simp

section \<open>One call of the engine\<close>

abbreviation none :: "nat \<Rightarrow> bool" where
  "none \<equiv> \<lambda>_. False"

lemma tracked_done:
  assumes "tracked look oid m i side p q b os"
  shows "mirrors none m (bookAfter i side p (q, b)) os"
proof (rule mirrorsI)
  fix j r
  note tr = assms [unfolded tracked_def]
  have mir: "mirrors ((=) i) m b os" and uni: "uniqueIDs os" using tr by blast+
  obtain new where new: "fmlookup os oid = Some new" "oMarketID new = m" "oEngineID new = i"
      "oEngineSide new = side" "oEnginePrice new = p" "remaining new = int q" "live new = (0 < q)" "i \<noteq> 0"
    using tr by (auto simp: incoming_def split: option.splits)
  have rest: "restOf new = \<lparr>rSide = side, rPrice = p, rQty = q\<rparr>" using new(4-6) by (simp add: restOf_def)
  have at: "restingAs m i new = (0 < q)" using new(2,3,7,8) by (simp add: restingAs_def)
  show "fmlookup (bookAfter i side p (q, b)) j = Some r \<longleftrightarrow> \<not> False \<and>
      (\<exists>k od. (fmlookup os k = Some od \<and> restingAs m j od) \<and> r = restOf od)"
  proof (cases "j = i")
    case False
    then show ?thesis using mirrors_iff [OF mir, of j r] by (auto simp: bookAfter_def)
  next
    case True
    have no: "fmlookup b i = None" using mirrors_iff [OF mir, of i] by auto
    have only: "k = oid" if "fmlookup os k = Some od" "restingAs m i od" for k od
      using tr that unfolding sole_def by blast
    show ?thesis
    proof (cases "0 < q")
      case True
      then have "(\<exists>k od. (fmlookup os k = Some od \<and> restingAs m i od) \<and> r = restOf od) \<longleftrightarrow> r = restOf new"
        using only new(1) at by (metis option.inject)
      then show ?thesis using \<open>j = i\<close> rest True by (auto simp: bookAfter_def)
    next
      case False
      then have "\<not> (\<exists>k od. (fmlookup os k = Some od \<and> restingAs m i od) \<and> r = restOf od)"
        using only new(1) at by (metis option.inject)
      then show ?thesis using \<open>j = i\<close> no False by (simp add: bookAfter_def)
    qed
  qed
qed

text \<open>Fills touch only orders of the market, and never bring an order to life.\<close>

definition laterThan :: "string \<Rightarrow> Order \<Rightarrow> Order \<Rightarrow> bool" where
  "laterThan m od od' \<longleftrightarrow> od' = od \<or>
     oMarketID od = m \<and> oMarketID od' = m \<and> live od \<and> oEngineID od' = oEngineID od \<and>
     (oStatus od' = Partial \<or> oStatus od' = Filled)"

lemma laterThan_trans: "laterThan m a b \<Longrightarrow> laterThan m b c \<Longrightarrow> laterThan m a c"
  by (auto simp: laterThan_def)

lemma laterThan_fill: "live od \<Longrightarrow> oMarketID od = m \<Longrightarrow> laterThan m od (fillOrder od q)"
  by (simp add: laterThan_def fillOrder_def Let_def)

lemma laterThan_other: "laterThan m od od' \<Longrightarrow> m' \<noteq> m \<Longrightarrow> restingAs m' i od' \<Longrightarrow> od' = od"
  by (auto simp: laterThan_def restingAs_def)

definition advances :: "string \<Rightarrow> (string, Order) fmap \<Rightarrow> (string, Order) fmap \<Rightarrow> bool" where
  "advances m os os' \<longleftrightarrow> fmdom os' = fmdom os \<and>
     (\<forall>k od od'. fmlookup os k = Some od \<longrightarrow> fmlookup os' k = Some od' \<longrightarrow> laterThan m od od')"

lemma advances_refl [simp]: "advances m os os"
  by (auto simp: advances_def laterThan_def)

lemma advances_trans:
  assumes "advances m a b" and "advances m b c"
  shows "advances m a c"
proof -
  have "laterThan m od od'" if "fmlookup a k = Some od" "fmlookup c k = Some od'" for k od od'
  proof -
    have "k |\<in>| fmdom b" using that(1) assms(1) by (metis advances_def fmdomI)
    then obtain x where "fmlookup b k = Some x" by (metis fmlookup_dom_iff)
    then show ?thesis using assms that laterThan_trans unfolding advances_def by blast
  qed
  then show ?thesis using assms unfolding advances_def by simp
qed

lemma advances_fill:
  assumes "fmlookup os k = Some od" and "live od" and "oMarketID od = m"
  shows "advances m os (fmupd k (fillOrder od q) os)"
  using assms laterThan_fill [of od m q]
  by (auto simp: advances_def laterThan_def intro: fmdomI)

lemma fillAll_advances: "validTrades look m os fs \<Longrightarrow> advances m os (fillAll look os fs)"
proof (induction fs arbitrary: os)
  case (Cons f fs)
  from Cons.prems obtain b sl ob osl where f:
    "look (etBuyOrderID f) = Some b" "look (etSellOrderID f) = Some sl"
    "fmlookup os b = Some ob" "fmlookup os sl = Some osl" "b \<noteq> sl" "oMarketID ob = m" "oMarketID osl = m"
    "oEngineSide ob = ''buy''" "oEngineSide osl = ''sell''"
    "fillable ob (int (etQuantity f)) (etPrice f)" "fillable osl (int (etQuantity f)) (etPrice f)"
    "validTrades look m
      (fmupd sl (fillOrder osl (int (etQuantity f))) (fmupd b (fillOrder ob (int (etQuantity f))) os)) fs"
    by (rule validTrades_ConsE)
  have live: "live ob" "live osl" using f(10,11) by (simp_all add: fillable_def)
  let ?o1 = "fmupd b (fillOrder ob (int (etQuantity f))) os"
  let ?o2 = "fmupd sl (fillOrder osl (int (etQuantity f))) ?o1"
  have a1: "advances m os ?o1" by (rule advances_fill [OF f(3) live(1) f(6)])
  have "fmlookup ?o1 sl = Some osl" using f(4,5) by simp
  then have a2: "advances m ?o1 ?o2" by (intro advances_fill live(2) f(7))
  have "advances m os (fillAll look ?o2 fs)"
    by (rule advances_trans [OF a1 advances_trans [OF a2 Cons.IH [OF f(12)]]])
  then show ?case using f(1-4) by (simp add: fmget_def)
qed simp

lemma advancesE:
  assumes "advances m os os'" and "fmlookup os' k = Some od'"
  obtains od where "fmlookup os k = Some od" "laterThan m od od'"
proof -
  have "k |\<in>| fmdom os" using assms by (metis advances_def fmdomI)
  then obtain od where "fmlookup os k = Some od" by (metis fmlookup_dom_iff)
  then show thesis using that assms unfolding advances_def by blast
qed

lemma mirrors_advances:
  assumes "mirrors skip m' b os" and "advances m os os'" and "m' \<noteq> m"
  shows "mirrors skip m' b os'"
proof (rule mirrorsI)
  fix i r
  have "(fmlookup os k = Some od \<and> restingAs m' i od) = (fmlookup os' k = Some od \<and> restingAs m' i od)" for k od
  proof
    assume l: "fmlookup os k = Some od \<and> restingAs m' i od"
    then have "k |\<in>| fmdom os'" using assms(2) by (metis advances_def fmdomI)
    then obtain od' where od': "fmlookup os' k = Some od'" by (metis fmlookup_dom_iff)
    then have "laterThan m od od'" using l assms(2) unfolding advances_def by blast
    then show "fmlookup os' k = Some od \<and> restingAs m' i od"
      using l od' assms(3) by (auto simp: laterThan_def restingAs_def)
  next
    assume r: "fmlookup os' k = Some od \<and> restingAs m' i od"
    then obtain od0 where "fmlookup os k = Some od0" "laterThan m od0 od" using advancesE [OF assms(2)] by blast
    then show "fmlookup os k = Some od \<and> restingAs m' i od"
      using r laterThan_other assms(3) by blast
  qed
  then show "fmlookup b i = Some r \<longleftrightarrow>
      \<not> skip i \<and> (\<exists>k od. (fmlookup os' k = Some od \<and> restingAs m' i od) \<and> r = restOf od)"
    unfolding mirrors_iff [OF assms(1)] by simp
qed

text \<open>An order that enters the engine under a fresh ID.\<close>

definition entered :: "Order \<Rightarrow> EngineResult \<Rightarrow> Status \<Rightarrow> Order" where
  "entered od res st = od\<lparr>oEngineID := erOrderID res, oStatus := st\<rparr>"

lemma entered_simps [simp]:
  "oMarketID (entered od res st) = oMarketID od" "oEngineID (entered od res st) = erOrderID res"
  "oEngineSide (entered od res st) = oEngineSide od" "oEnginePrice (entered od res st) = oEnginePrice od"
  "oID (entered od res st) = oID od" "remaining (entered od res st) = remaining od"
  "oStatus (entered od res st) = st" "oUserID (entered od res st) = oUserID od"
  by (simp_all add: entered_def remaining_def)

lemma entered_live: "st = Open \<or> st = Partial \<Longrightarrow> live (entered od res st)"
  by (auto simp: live_def)

lemma entered_restated: "live od \<Longrightarrow> st = Open \<or> st = Partial \<Longrightarrow> restated od (entered od res st)"
  by (auto simp: restated_def entered_def live_def)

lemma fresh_in_book:
  assumes "mirrors none m b os" and "fmlookup b i = None" and "fmlookup os k = Some od"
  shows "\<not> restingAs m i od"
  using mirrors_iff [OF assms(1), of i "restOf od"] assms(2,3) by auto

lemma match_call:
  assumes "ordersOk os" and "uniqueIDs os" and "mirrors none m b os"
    and "fmlookup os oid = Some od" and "live od" and "oMarketID od = m" and "oEngineID od = 0"
    and "matchBook b (oEngineSide od) (oEnginePrice od) (nat (remaining od)) res = Some b'"
    and "st = Open \<or> st = Partial"
    and "finds look m (fmupd oid (entered od res st) os)"
  defines "os1 \<equiv> fmupd oid (entered od res st) os"
  shows "validTrades look m os1 (erTrades res)" and "mirrors none m b' (fillAll look os1 (erTrades res))"
    and "untouched os1 (fillAll look os1 (erTrades res))"
proof -
  let ?i = "erOrderID res" and ?new = "entered od res st"
  obtain q' b1 where m: "?i \<noteq> 0" "fmlookup b ?i = None"
      "replayFills ?i (oEngineSide od) (oEnginePrice od) (nat (remaining od)) b (erTrades res) = Some (q', b1)"
      "b' = bookAfter ?i (oEngineSide od) (oEnginePrice od) (q', b1)"
    using assms(8) by (auto simp: matchBook_def split: if_splits)
  have ok: "order_ok oid od" using assms(1,4) by (simp add: ordersOk_def)
  have pos: "0 < remaining od" by (rule order_ok_remaining [OF ok assms(5)])
  have fresh: "\<not> restingAs m ?i x" if "fmlookup os k = Some x" for k x
    by (rule fresh_in_book [OF assms(3) m(2) that])
  have only: "restingAs m' i ?new \<longleftrightarrow> m' = m \<and> i = ?i" for m' i
    using m(1) assms(6) entered_live [OF assms(9)] by (auto simp: restingAs_def)
  have old: "\<not> restingAs m' i od" for m' i using assms(7) by (auto simp: restingAs_def)
  have at: "fmlookup os1 k = Some x \<and> restingAs m' i x \<longleftrightarrow>
      (if m' = m \<and> i = ?i then k = oid \<and> x = ?new else fmlookup os k = Some x \<and> restingAs m' i x)" for k x m' i
    using only [of m' i] old [of m' i] fresh assms(4) unfolding os1_def by (auto split: if_splits)
  have "ordersOk os1"
    using assms(1) restated_ok [OF entered_restated [OF assms(5,9)], of oid res] ok
    by (auto simp: ordersOk_def os1_def)
  moreover have "uniqueIDs os1"
  proof -
    have "k = k'" if "fmlookup os1 k = Some x" "fmlookup os1 k' = Some y" "restingAs m' i x" "restingAs m' i y"
      for k k' x y m' i
    proof (cases "m' = m \<and> i = ?i")
      case True
      then show ?thesis using that at [of k x m' i] at [of k' y m' i] by simp
    next
      case False
      then show ?thesis
        using that at [of k x m' i] at [of k' y m' i] assms(2) unfolding uniqueIDs_def by (metis (full_types))
    qed
    then show ?thesis unfolding uniqueIDs_def by blast
  qed
  moreover have "sole oid m ?i os1" using at [of _ _ m ?i] unfolding sole_def by metis
  moreover have "incoming oid m ?i (oEngineSide od) (oEnginePrice od) (nat (remaining od)) os1"
    using m(1) assms(6) pos entered_live [OF assms(9)] by (simp add: incoming_def os1_def)
  moreover have "mirrors ((=) ?i) m b os1"
  proof (rule mirrorsI)
    fix i r
    show "fmlookup b i = Some r \<longleftrightarrow> ?i \<noteq> i \<and>
        (\<exists>k x. (fmlookup os1 k = Some x \<and> restingAs m i x) \<and> r = restOf x)"
    proof (cases "i = ?i")
      case True
      then show ?thesis using m(2) by simp
    next
      case False
      then show ?thesis unfolding at using mirrors_iff [OF assms(3), of i r] by simp
    qed
  qed
  ultimately have "tracked look oid m ?i (oEngineSide od) (oEnginePrice od) (nat (remaining od)) b os1"
    using assms(10) by (simp add: tracked_def os1_def)
  from tracked_replay [OF this m(3) order_ok_sideOk [OF ok]]
  show "validTrades look m os1 (erTrades res)" "mirrors none m b' (fillAll look os1 (erTrades res))"
    "untouched os1 (fillAll look os1 (erTrades res))"
    using tracked_done unfolding m(4) by blast+
qed

end
