(* ===== verification/Exchange_Invariant.thy ===== *)
theory Exchange_Invariant
  imports Coupling
begin

text \<open>
  The invariant of the trading service with its engine: the books are funded, the ledger is well
  formed, and as long as no failure is latched the engine's books mirror the ledger. Each
  operation keeps it, on every outcome, for every engine that keeps the contract
  \<open>matching_engine\<close>.
\<close>

section \<open>The invariant\<close>

definition liveInOpen :: "'a ledger_scheme \<Rightarrow> bool" where
  "liveInOpen s \<longleftrightarrow> (\<forall>k od. fmlookup (orders s) k = Some od \<longrightarrow> live od \<longrightarrow>
     (\<exists>mk. fmlookup (markets s) (oMarketID od) = Some mk \<and> mStatus mk = Open))"

definition marketsOk :: "'a ledger_scheme \<Rightarrow> bool" where
  "marketsOk s \<longleftrightarrow> (\<forall>m mk. fmlookup (markets s) m = Some mk \<longrightarrow> mID mk = m) \<and>
     (\<forall>m m' mk mk'. fmlookup (markets s) m = Some mk \<longrightarrow> fmlookup (markets s) m' = Some mk' \<longrightarrow>
        mSymbol mk = mSymbol mk' \<longrightarrow> m = m')"

definition wellFormed :: "'a ledger_scheme \<Rightarrow> bool" where
  "wellFormed s \<longleftrightarrow> indexed s \<and> marketsOk s \<and> liveInOpen s"

text \<open>No order waits between its reservation and its entry into the engine.\<close>

definition allEntered :: "'a ledger_scheme \<Rightarrow> bool" where
  "allEntered s \<longleftrightarrow> (\<forall>k od. fmlookup (orders s) k = Some od \<longrightarrow>
     oStatus od \<noteq> Pending \<and> (live od \<longrightarrow> oEngineID od \<noteq> 0))"

definition coupled :: "(string \<Rightarrow> restBook) \<Rightarrow> 'a ledger_scheme \<Rightarrow> bool" where
  "coupled books s \<longleftrightarrow>
    (\<forall>m mk. fmlookup (markets s) m = Some mk \<longrightarrow> mStatus mk = Open \<longrightarrow>
       mirrors none m (books (mSymbol mk)) (orders s)) \<and>
    (\<forall>symbol. (\<forall>m mk. fmlookup (markets s) m = Some mk \<longrightarrow> mSymbol mk \<noteq> symbol) \<longrightarrow>
       books symbol = fmempty)"

definition sound ::
  "'e Engine \<Rightarrow> ('e \<Rightarrow> string \<Rightarrow> restBook) \<Rightarrow> ('e \<Rightarrow> bool) \<Rightarrow> int \<Rightarrow> ('e, 'p) Service \<Rightarrow> bool" where
  "sound eng bookOf healthy D s \<longleftrightarrow> EngineOf (cfg s) = Some eng \<and> funded D s \<and> wellFormed s \<and>
     (failure s = None \<longrightarrow> allEntered s \<and> healthy (engineState s) \<and> coupled (bookOf (engineState s)) s)"

lemma structure_frame:
  assumes "orders t = orders s" "engineOrders t = engineOrders s" "markets t = markets s"
  shows "wellFormed t = wellFormed s" "allEntered t = allEntered s" "coupled books t = coupled books s"
  using assms by (simp_all add: wellFormed_def allEntered_def coupled_def indexed_def marketsOk_def liveInOpen_def)

lemma structure_book [simp]:
  "wellFormed (book s) = wellFormed s" "allEntered (book s) = allEntered s"
  "coupled books (book s) = coupled books s"
  by (rule structure_frame; simp)+

lemma structure_eq_book:
  assumes "book t = book s"
  shows "wellFormed t = wellFormed s" "allEntered t = allEntered s" "coupled books t = coupled books s"
  using assms by (metis structure_book)+

lemma sound_latched:
  assumes "funded D t" and "wellFormed t" and "failure t \<noteq> None" and "EngineOf (cfg t) = Some eng"
  shows "sound eng bookOf healthy D t"
  using assms by (auto simp: sound_def)

lemma sound_same:
  assumes "sound eng bookOf healthy D s" and "book t = book s" and "cfg t = cfg s"
    and "failure t = None \<Longrightarrow> failure s = None \<and> healthy (engineState t) \<and>
      bookOf (engineState t) = bookOf (engineState s)"
  shows "sound eng bookOf healthy D t"
  using assms funded_eq_book [OF assms(2)] structure_eq_book [OF assms(2)] by (auto simp: sound_def)

section \<open>Updates of one order\<close>

lemma mirrors_upd_other:
  assumes "mirrors skip m b os" and "oMarketID od' \<noteq> m"
    and "\<And>od. fmlookup os k = Some od \<Longrightarrow> oMarketID od \<noteq> m \<or> \<not> live od \<or> oEngineID od = 0"
  shows "mirrors skip m b (fmupd k od' os)"
proof (rule mirrorsI)
  fix i r
  have "(fmlookup (fmupd k od' os) h = Some x \<and> restingAs m i x) = (fmlookup os h = Some x \<and> restingAs m i x)" for h x
    using assms(2) assms(3) [of x] by (auto simp: restingAs_def)
  then show "fmlookup b i = Some r \<longleftrightarrow>
      \<not> skip i \<and> (\<exists>h x. (fmlookup (fmupd k od' os) h = Some x \<and> restingAs m i x) \<and> r = restOf x)"
    unfolding mirrors_iff [OF assms(1)] by simp
qed

text \<open>An order without an engine ID is in no book.\<close>

lemma mirrors_upd_unknown:
  assumes "mirrors skip m b os" and "oEngineID od' = 0 \<or> \<not> live od'"
    and "\<And>od. fmlookup os k = Some od \<Longrightarrow> \<not> live od \<or> oEngineID od = 0"
  shows "mirrors skip m b (fmupd k od' os)"
proof (rule mirrorsI)
  fix i r
  have "(fmlookup (fmupd k od' os) h = Some x \<and> restingAs m i x) = (fmlookup os h = Some x \<and> restingAs m i x)" for h x
    using assms(2) assms(3) [of x] by (auto simp: restingAs_def)
  then show "fmlookup b i = Some r \<longleftrightarrow>
      \<not> skip i \<and> (\<exists>h x. (fmlookup (fmupd k od' os) h = Some x \<and> restingAs m i x) \<and> r = restOf x)"
    unfolding mirrors_iff [OF assms(1)] by simp
qed

lemma coupled_orders:
  assumes "coupled books s" and "markets t = markets s"
    and "\<And>m mk. fmlookup (markets s) m = Some mk \<Longrightarrow> mStatus mk = Open \<Longrightarrow>
      mirrors none m (books (mSymbol mk)) (orders s) \<Longrightarrow> mirrors none m (books' (mSymbol mk)) (orders t)"
    and "\<And>symbol. (\<forall>m mk. fmlookup (markets s) m = Some mk \<longrightarrow> mSymbol mk \<noteq> symbol) \<Longrightarrow> books' symbol = books symbol"
  shows "coupled books' t"
  using assms unfolding coupled_def by simp

lemma liveInOpen_advances:
  assumes "liveInOpen s" and "markets t = markets s" and "advances m (orders s) (orders t)"
  shows "liveInOpen t"
  unfolding liveInOpen_def
proof (intro allI impI)
  fix k od' assume od': "fmlookup (orders t) k = Some od'" "live od'"
  obtain od where od: "fmlookup (orders s) k = Some od" "laterThan m od od'"
    by (rule advancesE [OF assms(3) od'(1)])
  have "live od" "oMarketID od' = oMarketID od" using od(2) od'(2) by (auto simp: laterThan_def)
  then show "\<exists>mk. fmlookup (markets t) (oMarketID od') = Some mk \<and> mStatus mk = Open"
    using assms(1,2) od(1) unfolding liveInOpen_def by metis
qed

lemma allEntered_advances:
  assumes "allEntered s" and "advances m (orders s) (orders t)"
  shows "allEntered t"
  unfolding allEntered_def
proof (intro allI impI)
  fix k od' assume "fmlookup (orders t) k = Some od'"
  then obtain od where "fmlookup (orders s) k = Some od" "laterThan m od od'" using advancesE [OF assms(2)] by blast
  then show "oStatus od' \<noteq> Pending \<and> (live od' \<longrightarrow> oEngineID od' \<noteq> 0)"
    using assms(1) unfolding allEntered_def laterThan_def by auto
qed

section \<open>An order enters the engine\<close>

lemma finds_indexed: "indexed s \<Longrightarrow> finds (lookupEngine s fmempty m) m (orders s)"
  unfolding finds_def lookupEngine_def using indexedD by fastforce

lemma finds_override:
  assumes "indexed s" and "\<And>h x. fmlookup (orders s) h = Some x \<Longrightarrow> \<not> restingAs m i x"
    and "oMarketID od = m" and "oEngineID od = i"
  shows "finds (lookupEngine s (fmupd (m, i) k fmempty) m) m (fmupd k od (orders s))"
  unfolding finds_def
proof (intro allI impI)
  fix h x j assume h: "fmlookup (fmupd k od (orders s)) h = Some x" "restingAs m j x"
  show "lookupEngine s (fmupd (m, i) k fmempty) m j = Some h"
  proof (cases "h = k")
    case True
    then have "j = i" using h assms(4) by (simp add: restingAs_def)
    then show ?thesis using True by (simp add: lookupEngine_def)
  next
    case False
    then have x: "fmlookup (orders s) h = Some x" using h(1) by simp
    then have "j \<noteq> i" using assms(2) h(2) by blast
    then show ?thesis using indexedD [OF assms(1), of m j h] x h(2) by (simp add: lookupEngine_def)
  qed
qed

lemma funded_ordersOk: "funded D s \<Longrightarrow> ordersOk (orders s)"
  using funded_pos [of D s] by (auto simp: ordersOk_def ledger_pos_def)

section \<open>An order leaves the engine\<close>

lemma mirrors_remove:
  assumes "mirrors none m b os" and "uniqueIDs os" and "fmlookup os k = Some od" and "restingAs m i od"
    and "\<not> live od'"
  shows "mirrors none m (fmdrop i b) (fmupd k od' os)"
proof (rule mirrorsI)
  fix j r
  have only: "h = k" if "fmlookup os h = Some x" "restingAs m i x" for h x
    using assms(2-4) that unfolding uniqueIDs_def by blast
  have at: "(fmlookup (fmupd k od' os) h = Some x \<and> restingAs m j x) =
      (j \<noteq> i \<and> fmlookup os h = Some x \<and> restingAs m j x)" for h x
  proof (cases "h = k")
    case True
    then show ?thesis using assms(3-5) by (auto simp: restingAs_def)
  next
    case False
    then show ?thesis using only [of h x] by auto
  qed
  show "fmlookup (fmdrop i b) j = Some r \<longleftrightarrow>
      \<not> False \<and> (\<exists>h x. (fmlookup (fmupd k od' os) h = Some x \<and> restingAs m j x) \<and> r = restOf x)"
    unfolding at using mirrors_iff [OF assms(1), of j r] by (cases "j = i") simp_all
qed

lemma coupled_remove:
  assumes "coupled books s" and "wellFormed s" and "fmlookup (orders s) k = Some od" and "restingAs m i od"
    and "fmlookup (markets s) m = Some mk" and "\<not> live od'" and "oMarketID od' = m"
    and "orders t = fmupd k od' (orders s)" and "markets t = markets s"
  shows "coupled (books(mSymbol mk := fmdrop i (books (mSymbol mk)))) t"
proof (rule coupled_orders [OF assms(1,9)])
  fix m' mk' assume mk': "fmlookup (markets s) m' = Some mk'" "mStatus mk' = Open"
    and mir: "mirrors none m' (books (mSymbol mk')) (orders s)"
  have uni: "uniqueIDs (orders s)" using assms(2) indexed_unique [of s] by (simp add: wellFormed_def)
  show "mirrors none m' ((books(mSymbol mk := fmdrop i (books (mSymbol mk)))) (mSymbol mk')) (orders t)"
  proof (cases "m' = m")
    case True
    then show ?thesis using mir mirrors_remove [OF _ uni assms(3,4,6)] mk'(1) assms(5,8) by simp
  next
    case False
    then have "mSymbol mk' \<noteq> mSymbol mk" using assms(2,5) mk'(1) unfolding wellFormed_def marketsOk_def by metis
    then show ?thesis using mir False assms(3,4,7,8)
      by (auto simp: restingAs_def intro!: mirrors_upd_other)
  qed
qed (use assms(5) in auto)

lemma indexed_cancel:
  assumes "indexed s" and "fmlookup (orders s) (oID od') = Some od" and "live od" and "\<not> live od'"
  shows "indexed (putOrder od' s)"
  using assms(2-4) by (intro indexed_putOrder [OF assms(1)]) (auto simp: restingAs_def)

lemma liveInOpen_upd:
  assumes "liveInOpen s" and "orders t = fmupd k od' (orders s)" and "markets t = markets s" and "\<not> live od'"
  shows "liveInOpen t"
  using assms unfolding liveInOpen_def by auto

lemma allEntered_upd:
  assumes "allEntered s" and "orders t = fmupd k od' (orders s)" and "\<not> live od'"
  shows "allEntered t"
  using assms unfolding allEntered_def by (auto simp: live_def)

section \<open>The reservation and the completion of an order\<close>

lemma reservation_structure:
  fixes c :: int
  assumes "wellFormed s" and "fmlookup (orders s) (oID od) = None" and "oEngineID od = 0"
    and "fmlookup (markets s) (oMarketID od) = Some mk" and "mStatus mk = Open"
  defines "t \<equiv> ideal_all (reservationEvents od c) s"
  shows "wellFormed t" and "coupled books s \<Longrightarrow> coupled books t"
proof -
  have t: "orders t = orders (putOrder od s)" "engineOrders t = engineOrders (putOrder od s)"
      "markets t = markets (putOrder od s)"
    by (simp_all add: t_def reservationEvents_def Let_def)
  have idle: "\<not> restingAs m i od" for m i using assms(3) by (auto simp: restingAs_def)
  have "indexed (putOrder od s)"
    using assms(1,2) idle by (intro indexed_putOrder) (simp_all add: wellFormed_def)
  moreover have "marketsOk (putOrder od s)" using assms(1) by (simp add: wellFormed_def marketsOk_def)
  moreover have "liveInOpen (putOrder od s)"
    using assms(1,4,5) by (simp add: wellFormed_def liveInOpen_def)
  ultimately show "wellFormed t" using structure_frame(1) [OF t] by (simp add: wellFormed_def)
  show "coupled books t" if "coupled books s"
  proof -
    have "coupled books (putOrder od s)"
      using assms(2,3) by (intro coupled_orders [OF that]) (auto intro!: mirrors_upd_unknown)
    then show ?thesis using structure_frame(3) [OF t] by simp
  qed
qed

lemma completion_structure:
  assumes "funded D s" and "wellFormed s" and "fmlookup (orders s) (oID od) = Some od" and "live od"
    and "oEngineID od = 0" and "goodReply s od result"
    and "\<And>h x. fmlookup (orders s) h = Some x \<Longrightarrow> \<not> restingAs (oMarketID od) (erOrderID result) x"
  defines "od1 \<equiv> entered od result Open"
  defines "t \<equiv> ideal_all (completion s od1 result) (book s)"
  defines "look \<equiv> lookupEngine s (fmupd (oMarketID od, erOrderID result) (oID od) fmempty) (oMarketID od)"
  shows "orders t = fillAll look (fmupd (oID od) od1 (orders s)) (erTrades result)" and "indexed t"
    and "markets t = markets s"
proof -
  let ?t1 = "ideal_balance [] 0 (putOrder od1 (book s))"
  have ids: "oID od1 = oID od" "oMarketID od1 = oMarketID od" "oEngineID od1 = erOrderID result"
    by (simp_all add: od1_def)
  have ev: "t = ideal_all (fst (buildTradeEvents s (oMarketID od1) (erTrades result)
         (fmupd (oMarketID od1, oEngineID od1) (oID od1) fmempty) (fmupd (oID od1) od1 fmempty))) ?t1"
    by (simp add: t_def completion_def)
  have "restated od od1" using entered_restated [OF assms(4)] by (simp add: od1_def)
  then have f: "funded D ?t1"
    using assms(1,3) by (intro putOrder_restated [of "book s" "oID od" od]) simp_all
  have ix: "indexed ?t1"
  proof (rule indexed_frame [THEN iffD2, OF _ _ indexed_putOrder])
    show "indexed (book s)" using assms(2) indexed_frame [of "book s" s] by (simp add: wellFormed_def)
    show "live old \<or> oEngineID old = 0" if "fmlookup (orders (book s)) (oID od1) = Some old" for old
      using that assms(3,4) ids by simp
    show "k = oID od1" if "restingAs m i od1" "fmlookup (orders (book s)) k = Some old" "restingAs m i old" for m i k old
      using that assms(7) [of k old] ids by (auto simp: restingAs_def)
  qed simp_all
  have valid: "validTrades (lookupEngine s (fmupd (oMarketID od1, oEngineID od1) (oID od1) fmempty) (oMarketID od1))
      (oMarketID od1) (orders ?t1) (erTrades result)"
    using assms(6) by (simp add: goodReply_def ids) (simp add: od1_def entered_def)
  have ag: "agrees s (fmupd (oID od1) od1 fmempty) ?t1" by (simp add: agrees_def)
  note eff = trades_effect [OF valid ag funded_pos [OF f] ix]
  show "orders t = fillAll look (fmupd (oID od) od1 (orders s)) (erTrades result)"
    using eff unfolding ev by (simp add: ids look_def)
  show "indexed t" using eff unfolding ev by simp
  show "markets t = markets s" using trades_ideal [OF valid ag funded_pos [OF f]] unfolding ev by simp
qed

lemma enter_books:
  assumes "funded D s" and "wellFormed s" and "coupled books s"
    and "fmlookup (orders s) k = Some od" and "live od" and "oEngineID od = 0"
    and "fmlookup (markets s) (oMarketID od) = Some mk"
    and "matchBook (books (mSymbol mk)) (oEngineSide od) (oEnginePrice od) (nat (remaining od)) res = Some (books' (mSymbol mk))"
    and rest: "\<forall>other. other \<noteq> mSymbol mk \<longrightarrow> books' other = books other"
    and "st = Open \<or> st = Partial"
  shows "erOrderID res \<noteq> 0"
    and "fmlookup (orders s) h = Some x \<Longrightarrow> \<not> restingAs (oMarketID od) (erOrderID res) x"
    and "finds look (oMarketID od) (fmupd k (entered od res st) (orders s)) \<Longrightarrow>
      validTrades look (oMarketID od) (fmupd k (entered od res st) (orders s)) (erTrades res)"
    and "finds look (oMarketID od) (fmupd k (entered od res st) (orders s)) \<Longrightarrow>
      orders t = fillAll look (fmupd k (entered od res st) (orders s)) (erTrades res) \<Longrightarrow>
      markets t = markets s \<Longrightarrow> coupled books' t \<and> liveInOpen t"
    and "finds look (oMarketID od) (fmupd k (entered od res st) (orders s)) \<Longrightarrow>
      untouched (fmupd k (entered od res st) (orders s)) (fillAll look (fmupd k (entered od res st) (orders s)) (erTrades res))"
proof -
  let ?m = "oMarketID od" and ?os = "fmupd k (entered od res st) (orders s)"
  have ok: "order_ok k od" using funded_ordersOk [OF assms(1)] assms(4) by (simp add: ordersOk_def)
  have opn: "mStatus mk = Open"
    using assms(2,4,5,7) unfolding wellFormed_def liveInOpen_def by fastforce
  show "erOrderID res \<noteq> 0" using assms(8) by (auto simp: matchBook_def split: if_splits)
  have mir: "mirrors none ?m (books (mSymbol mk)) (orders s)"
    using assms(3,7) opn unfolding coupled_def by blast
  have "fmlookup (books (mSymbol mk)) (erOrderID res) = None"
    using assms(8) by (auto simp: matchBook_def split: if_splits)
  then show "\<not> restingAs ?m (erOrderID res) x" if "fmlookup (orders s) h = Some x"
    using fresh_in_book [OF mir _ that] by blast
  have uni: "uniqueIDs (orders s)" using assms(2) indexed_unique [of s] by (simp add: wellFormed_def)
  note mc = match_call [OF funded_ordersOk [OF assms(1)] uni mir assms(4,5) refl assms(6,8,10)]
  show "validTrades look ?m ?os (erTrades res)" if "finds look ?m ?os"
    by (rule mc(1) [OF that])
  show "untouched ?os (fillAll look ?os (erTrades res))" if "finds look ?m ?os"
    by (rule mc(3) [OF that])
  show "coupled books' t \<and> liveInOpen t" if f: "finds look ?m ?os"
    and t: "orders t = fillAll look ?os (erTrades res)" "markets t = markets s"
  proof -
    have adv: "advances ?m ?os (orders t)" unfolding t(1) by (rule fillAll_advances [OF mc(1) [OF f]])
    have "mirrors none m (books' (mSymbol mk')) (orders t)"
      if mk': "fmlookup (markets s) m = Some mk'" "mirrors none m (books (mSymbol mk')) (orders s)" for m mk'
    proof (cases "m = ?m")
      case True
      then show ?thesis using mc(2) [OF f] mk'(1) assms(7) t(1) by simp
    next
      case False
      then have "mSymbol mk' \<noteq> mSymbol mk"
        using assms(2,7) mk'(1) unfolding wellFormed_def marketsOk_def by metis
      then have same: "books' (mSymbol mk') = books (mSymbol mk')" using rest by metis
      have "mirrors none m (books' (mSymbol mk')) ?os"
        unfolding same using mk'(2) False assms(4) by (intro mirrors_upd_other) simp_all
      then show ?thesis by (rule mirrors_advances [OF _ adv False])
    qed
    moreover have "books' symbol = books symbol"
      if "\<forall>m mk. fmlookup (markets s) m = Some mk \<longrightarrow> mSymbol mk \<noteq> symbol" for symbol
    proof -
      have "mSymbol mk \<noteq> symbol" using that assms(7) by simp
      then show ?thesis using rest by metis
    qed
    ultimately have c: "coupled books' t"
      by (intro coupled_orders [OF assms(3) t(2)])
    have "liveInOpen (s\<lparr>orders := ?os\<rparr>)"
      using assms(2,7) opn unfolding wellFormed_def liveInOpen_def by simp
    then have "liveInOpen t" using adv t(2) by (intro liveInOpen_advances [of "s\<lparr>orders := ?os\<rparr>" t ?m]) simp_all
    then show ?thesis using c by simp
  qed
qed

context matching_engine
begin

lemma enter_call:
  assumes "funded D s" and "wellFormed s" and "coupled (bookOf e) s" and "healthy e"
    and "fmlookup (orders s) k = Some od" and "live od" and "oEngineID od = 0"
    and "fmlookup (markets s) (oMarketID od) = Some mk"
    and "AddOrder eng e (mSymbol mk) (oEnginePrice od) (nat (remaining od)) (oEngineSide od) = (Inr res, e')"
    and "st = Open \<or> st = Partial"
  shows "healthy e' \<and> erOrderID res \<noteq> 0"
    and "fmlookup (orders s) h = Some x \<Longrightarrow> \<not> restingAs (oMarketID od) (erOrderID res) x"
    and "finds look (oMarketID od) (fmupd k (entered od res st) (orders s)) \<Longrightarrow>
      validTrades look (oMarketID od) (fmupd k (entered od res st) (orders s)) (erTrades res)"
    and "finds look (oMarketID od) (fmupd k (entered od res st) (orders s)) \<Longrightarrow>
      orders t = fillAll look (fmupd k (entered od res st) (orders s)) (erTrades res) \<Longrightarrow>
      markets t = markets s \<Longrightarrow> coupled (bookOf e') t \<and> liveInOpen t"
proof -
  have ok: "order_ok k od" using funded_ordersOk [OF assms(1)] assms(5) by (simp add: ordersOk_def)
  have "0 < nat (remaining od)" using order_ok_remaining [OF ok assms(6)] by simp
  note call = AddOrder_books [OF assms(4,9) order_ok_sideOk [OF ok] this]
  have rest: "\<forall>other. other \<noteq> mSymbol mk \<longrightarrow> bookOf e' other = bookOf e other" using call by blast
  note eb = enter_books [OF assms(1-3,5-8) conjunct1 [OF conjunct2 [OF call]] rest assms(10)]
  show "healthy e' \<and> erOrderID res \<noteq> 0" using call eb(1) by blast
  show "fmlookup (orders s) h = Some x \<Longrightarrow> \<not> restingAs (oMarketID od) (erOrderID res) x"
    by (rule eb(2))
  show "finds look (oMarketID od) (fmupd k (entered od res st) (orders s)) \<Longrightarrow>
      validTrades look (oMarketID od) (fmupd k (entered od res st) (orders s)) (erTrades res)"
    by (rule eb(3))
  show "finds look (oMarketID od) (fmupd k (entered od res st) (orders s)) \<Longrightarrow>
      orders t = fillAll look (fmupd k (entered od res st) (orders s)) (erTrades res) \<Longrightarrow>
      markets t = markets s \<Longrightarrow> coupled (bookOf e') t \<and> liveInOpen t"
    by (rule eb(4))
qed

end

end
