(* ===== verification/Exchange_Ops.thy ===== *)
theory Exchange_Ops
  imports Exchange_Invariant
begin

text \<open>
  Every operation of the service keeps the invariant \<open>sound\<close>, whatever its outcome: the client
  lemmas of the contract \<open>matching_engine\<close>, for one order, cancellation, resolution, markets,
  deposits, quotes and the recovery of the engine.
\<close>

context matching_engine
begin

section \<open>Quotes\<close>

text \<open>A step that may have asked the engine for quotes.\<close>

definition unmoved :: "('e, 'p) Service \<Rightarrow> ('e, 'p) Service \<Rightarrow> bool" where
  "unmoved s t \<longleftrightarrow> same_ledger s t \<and> healthy (engineState t) \<and> bookOf (engineState t) = bookOf (engineState s)"

lemma unmoved_quoteFor:
  assumes "healthy (engineState s)" and "EngineOf (cfg s) = Some eng"
  shows "unmoved s (snd (quoteFor supplied symbol s))"
proof (cases "fmlookup supplied symbol")
  case (Some q)
  then show ?thesis using assms by (simp add: unmoved_def quoteFor_def)
next
  case None
  show ?thesis
  proof (cases "EngineQuoteOf eng")
    case None
    then show ?thesis using assms \<open>fmlookup supplied symbol = None\<close>
      by (simp add: unmoved_def quoteFor_def askEngine_def)
  next
    case (Some quote)
    obtain x e' where call: "quote (engineState s) symbol = (x, e')" by (rule prod.exhaust)
    show ?thesis
      using assms \<open>fmlookup supplied symbol = None\<close> Some call Quote_books [OF assms(1) Some call]
      by (simp add: unmoved_def quoteFor_def askEngine_def split: sum.split)
  qed
qed

lemma unmoved_trans: "unmoved s t \<Longrightarrow> unmoved t u \<Longrightarrow> unmoved s u"
  by (auto simp: unmoved_def intro: same_ledger_trans)

lemma unmoved_readLoop:
  assumes "healthy (engineState s)" and "EngineOf (cfg s) = Some eng"
  shows "unmoved s (snd (readLoop supplied seen is s))"
  using assms
proof (induction "is" arbitrary: seen s)
  case Nil
  then show ?case by (simp add: unmoved_def)
next
  case (Cons i "is")
  obtain r t where q: "quoteFor supplied (mSymbol (fmget Market0 (markets s) i)) s = (r, t)"
    by (rule prod.exhaust)
  have t: "unmoved s t" using unmoved_quoteFor [OF Cons.prems, of supplied] q by (metis snd_conv)
  then have t': "healthy (engineState t)" "EngineOf (cfg t) = Some eng"
    using Cons.prems by (auto simp: unmoved_def same_ledger_def)
  show ?case
  proof (cases "i \<in> set seen")
    case True
    then show ?thesis using Cons by (simp add: readLoop_seen)
  next
    case False
    show ?thesis
      unfolding readLoop_fresh(1) [OF False q] by (rule unmoved_trans [OF t Cons.IH [OF t']])
  qed
qed

lemma unmoved_quoteAndPublish:
  assumes "healthy (engineState s)" and "EngineOf (cfg s) = Some eng"
  shows "unmoved s (snd (quoteAndPublish ids supplied s))"
  using unmoved_readLoop [OF assms, of "bySymbol supplied" "[]" ids]
  by (auto simp: quoteAndPublish_def readQuotes_def case_prod_beta publishQuotes_def unmoved_def)

lemma unmoved_sound:
  assumes "sound eng bookOf healthy D s" and "unmoved s t"
  shows "sound eng bookOf healthy D t"
  using assms(2) by (intro sound_same [OF assms(1)]) (auto simp: unmoved_def same_ledger_def)

text \<open>The end of an operation: a commit on a state whose engine is ahead, then quotes.\<close>

lemma commit_sound:
  assumes "commitMany es s = (r, t)" and "EngineOf (cfg s) = Some eng"
    and "funded D s" and "wellFormed s" and "funded D' (ideal_all es (book s))"
    and "wellFormed (ideal_all es (book s))"
    and "allEntered (ideal_all es (book s))" and "healthy (engineState s)"
    and "coupled (bookOf (engineState s)) (ideal_all es (book s))"
  shows "sound eng bookOf healthy (if r = None then D' else D) t"
proof (cases r)
  case None
  then have c: "commitMany es s = (None, t)" using assms(1) by simp
  have b: "funded D' t" "book t = book (ideal_all es (book s))"
    using commit_funded(1) [OF assms(1,3,5) None] by simp_all
  note st = structure_eq_book [OF b(2)]
  show ?thesis
    using None assms(2,6-9) b(1) commitMany_ok(4,5) [OF c] st by (simp add: sound_def)
next
  case (Some e)
  then have c: "commitMany es s = (Some e, t)" using assms(1) by simp
  have b: "funded D t" "book t = book s" "failure t \<noteq> None"
    using commit_funded(2) [OF assms(1,3,5)] Some by simp_all
  show ?thesis
    using Some assms(2,4) b commitMany_err(1) [OF c] structure_eq_book(1) [OF b(2)]
    by (intro sound_latched) (auto simp: keeps_def)
qed

lemma commit_publish_sound:
  assumes "andThen (commitMany es s) (quoteAndPublish ids supplied) = (r, t)"
    and "EngineOf (cfg s) = Some eng"
    and "funded D s" and "wellFormed s" and "funded D' (ideal_all es (book s))"
    and "wellFormed (ideal_all es (book s))"
    and "allEntered (ideal_all es (book s))" and "healthy (engineState s)"
    and "coupled (bookOf (engineState s)) (ideal_all es (book s))"
  shows "sound eng bookOf healthy (if r = None then D' else D) t"
proof -
  obtain r1 t1 where c: "commitMany es s = (r1, t1)" by (rule prod.exhaust)
  have s1: "sound eng bookOf healthy (if r1 = None then D' else D) t1"
    by (rule commit_sound [OF c assms(2-9)])
  show ?thesis
  proof (cases r1)
    case None
    have k: "failure t1 = None" "EngineOf (cfg t1) = Some eng"
      using commitMany_ok(2,4) [of es s t1] c None assms(2) by simp_all
    then have h: "healthy (engineState t1)" using s1 by (simp add: sound_def)
    have q: "quoteAndPublish ids supplied t1 = (r, t)" using assms(1) c None by simp
    have "unmoved t1 t" "r = None"
      using unmoved_quoteAndPublish [OF h k(2), of ids supplied] quoteAndPublish_ok(1) [of ids supplied t1]
      by (simp_all add: q)
    then show ?thesis using unmoved_sound s1 None by simp
  next
    case (Some e)
    then show ?thesis using assms(1) c s1 by simp
  qed
qed

section \<open>One order\<close>

lemma exact_call:
  assumes "order_ok k od"
  shows "i32 (oEnginePrice od) = oEnginePrice od" and "u32 (oQuantity od) = nat (oQuantity od)"
    and "u32 (remaining od) = nat (remaining od)"
  using order_ok_enginePrice [OF assms] assms
  by (auto simp: order_ok_def remaining_def intro!: i32_id u32_id)

lemma submitSingle_sound:
  assumes "submitSingle od mk s = (r, t)" and "EngineOf (cfg s) = Some eng"
    and "funded D s" and "wellFormed s" and "healthy (engineState s)" and "coupled (bookOf (engineState s)) s"
    and "fmlookup (orders s) (oID od) = Some od" and "oStatus od = Pending" and "oFilledQuantity od = 0"
    and "oEngineID od = 0" and "fmlookup (markets s) (oMarketID od) = Some mk"
    and "\<And>k x. fmlookup (orders s) k = Some x \<Longrightarrow> k \<noteq> oID od \<Longrightarrow>
      oStatus x \<noteq> Pending \<and> (live x \<longrightarrow> oEngineID x \<noteq> 0)"
  shows "sound eng bookOf healthy D t"
proof -
  have live: "live od" using assms(8) by (simp add: live_def)
  have ok: "order_ok (oID od) od" using funded_ordersOk [OF assms(3)] assms(7) by (simp add: ordersOk_def)
  have rem: "remaining od = oQuantity od" using assms(9) by (simp add: remaining_def)
  obtain a es where call: "AddOrder eng (engineState s) (mSymbol mk) (oEnginePrice od) (nat (remaining od))
      (oEngineSide od) = (a, es)" by (rule prod.exhaust)
  have go: "submitSingle od mk s = (case a of
        Inl e \<Rightarrow> fail (Wrap ''matching engine'' e) (s\<lparr>engineState := es\<rparr>)
      | Inr result \<Rightarrow> let t = s\<lparr>engineState := es\<rparr>
          in andThen (commitMany (completion t (entered od result Open) result) t) (quoteAndPublish [oMarketID od] []))"
    using assms(2) call exact_call [OF ok] rem
    by (simp add: submitSingle_def entered_def split: sum.split)
  let ?s = "s\<lparr>engineState := es\<rparr>"
  have fr: "book ?s = book s" "cfg ?s = cfg s" by (simp_all add: book_eq_iff)
  have f: "funded D ?s" "wellFormed ?s"
    using assms(3,4) funded_eq_book [OF fr(1)] structure_eq_book [OF fr(1)] by simp_all
  show ?thesis
  proof (cases a)
    case (Inl e)
    then have t: "t = ?s\<lparr>failure := Some (WrapV ErrRecoveryRequired (Wrap ''matching engine'' e))\<rparr>"
      using assms(1) go by (auto simp: fail_def Let_def)
    have b: "book t = book ?s" unfolding t by (simp add: book_eq_iff)
    show ?thesis
      using f funded_eq_book [OF b] structure_eq_book(1) [OF b] assms(2)
      by (intro sound_latched) (simp_all add: t)
  next
    case (Inr result)
    note enter = enter_call [OF assms(3,4,6,5,7) live assms(10,11) call [unfolded Inr], of Open, simplified]
    let ?od1 = "entered od result Open"
    let ?look = "lookupEngine ?s (fmupd (oMarketID od, erOrderID result) (oID od) fmempty) (oMarketID od)"
    have ix: "indexed ?s" using f(2) by (simp add: wellFormed_def)
    have fnd: "finds ?look (oMarketID od) (fmupd (oID od) ?od1 (orders s))"
      using finds_override [OF ix, of "oMarketID od" "erOrderID result" ?od1 "oID od"] enter(2) by simp
    have good: "goodReply ?s od result"
      using enter(3) [OF fnd] by (simp add: goodReply_def entered_def)
    have fresh: "\<not> restingAs (oMarketID od) (erOrderID result) x" if "fmlookup (orders ?s) h = Some x" for h x
      using enter(2) [of h x] that by simp
    let ?t = "ideal_all (completion ?s ?od1 result) (book ?s)"
    have at: "fmlookup (orders ?s) (oID od) = Some od" using assms(7) by simp
    note cs = completion_structure [OF f at live assms(10) good fresh]
    note ct = completion_ideal [OF f(1) at live good, folded entered_def]
    have co: "coupled (bookOf es) ?t \<and> liveInOpen ?t"
      using enter(4) [OF fnd, of ?t] cs(1,3) by simp
    have wf: "wellFormed ?t"
      using cs(2,3) co f(2) by (simp add: wellFormed_def marketsOk_def)
    have "allEntered (?s\<lparr>orders := fmupd (oID od) ?od1 (orders s)\<rparr>)"
      using assms(12) enter(1) by (auto simp: allEntered_def)
    moreover have "advances (oMarketID od) (fmupd (oID od) ?od1 (orders s)) (orders ?t)"
      using fillAll_advances [OF enter(3) [OF fnd]] cs(1) by simp
    ultimately have np: "allEntered ?t"
      using allEntered_advances [of "?s\<lparr>orders := fmupd (oID od) ?od1 (orders s)\<rparr>" "oMarketID od" ?t] by simp
    have "andThen (commitMany (completion ?s ?od1 result) ?s) (quoteAndPublish [oMarketID od] []) = (r, t)"
      using assms(1) go Inr by (simp add: Let_def)
    from commit_publish_sound [OF this _ f ct(1) wf np] show ?thesis
      using assms(2) enter(1) co by simp
  qed
qed

lemma placeSingle_sound:
  assumes "placeSingle ctxErr od s = (r, t)" and "sound eng bookOf healthy D s" and "submission od"
  shows "sound eng bookOf healthy D t"
proof -
  have s: "EngineOf (cfg s) = Some eng" "funded D s" "wellFormed s"
      "failure s = None \<Longrightarrow> allEntered s \<and> healthy (engineState s) \<and> coupled (bookOf (engineState s)) s"
    using assms(2) by (auto simp: sound_def)
  from assms(1) s(2) assms(3) show ?thesis
  proof (cases rule: placeSingle_cases)
    case same
    then show ?thesis using assms(2) by simp
  next
    case (refused e)
    then show ?thesis
      using s structure_eq_book(1) [OF refused(3)] by (intro sound_latched) simp_all
  next
    case (placed od' mk s1)
    let ?t = "ideal_all (reservationEvents od' (oPrice od * oQuantity od)) (book s)"
    note ok = commitMany_ok [OF placed(1)]
    have b: "funded D s1" "book s1 = book ?t"
      using commit_funded(1) [OF placed(1) s(2) placed(10)] by simp_all
    note st = structure_eq_book [OF b(2), unfolded structure_book]
    have wfb: "wellFormed (book s)" using s(3) by simp
    have wf: "wellFormed s1" "coupled (bookOf (engineState s1)) s1"
      unfolding st using reservation_structure [OF wfb _ placed(9) _ placed(6)] placed(4,5) s(4) [OF placed(3)] ok(5)
      by simp_all
    have o1: "orders s1 = fmupd (oID od') od' (orders s)" "markets s1 = markets s"
      using b(2) by (simp_all add: book_eq_iff reservation_orders)
    show ?thesis
      using s(4) [OF placed(3)] o1 placed ok(4,5) s(1) b(1) wf
      by (intro submitSingle_sound [OF placed(2)]) (auto simp: allEntered_def)
  qed
qed

section \<open>Deposits and markets\<close>

lemma Deposit_sound:
  assumes "Deposit user cents s = (r, t)" and "sound eng bookOf healthy D s" and "D + cents \<le> int64_max"
  shows "sound eng bookOf healthy (if r = None then D + cents else D) t"
proof (cases "user = [] \<or> cents \<le> 0 \<or> failure s \<noteq> None")
  case True
  then show ?thesis using assms(1,2) by (cases "failure s") (auto simp: Deposit_def split: if_splits)
next
  case False
  let ?ev = "Event0\<lparr>eType := EventBalance, eUserID := user, eAmount := cents\<rparr>"
  let ?t = "ideal_all [?ev] (book s)"
  have s: "EngineOf (cfg s) = Some eng" "funded D s" "wellFormed s" "allEntered s"
      "healthy (engineState s)" "coupled (bookOf (engineState s)) s"
    using assms(2) False by (auto simp: sound_def)
  have st: "wellFormed ?t" "allEntered ?t" "coupled (bookOf (engineState s)) ?t"
    using s structure_frame [of ?t s] by simp_all
  have "funded (D + cents) ?t"
    using s(2) assms(3) False ledger_pos_nonneg(1) [of s user]
    by (auto simp: funded_def ledger_ok_def skew_def value_of_def ideal_balance_cash ideal_balance_measures
        ledger_pos_frame [of "book s" s] measures_frame [of "book s" s] intro!: ledger_pos_balance)
  moreover have "commitMany [?ev] s = (r, t)" using assms(1) False by (simp add: Deposit_def commit_def)
  ultimately show ?thesis using commit_sound [of "[?ev]" s r t D "D + cents"] s st by blast
qed

lemma symbolTaken_iff:
  "symbolTaken symbol s \<longleftrightarrow> (\<exists>m mk. fmlookup (markets s) m = Some mk \<and> mSymbol mk = symbol)"
proof
  assume "symbolTaken symbol s"
  then obtain i where "i |\<in>| fmdom (markets s)" "mSymbol (fmget Market0 (markets s) i) = symbol"
    by (auto simp: symbolTaken_def list_ex_iff)
  then show "\<exists>m mk. fmlookup (markets s) m = Some mk \<and> mSymbol mk = symbol"
    by (auto simp: fmlookup_dom_iff fmget_def) blast
next
  assume "\<exists>m mk. fmlookup (markets s) m = Some mk \<and> mSymbol mk = symbol"
  then obtain m mk where m: "fmlookup (markets s) m = Some mk" "mSymbol mk = symbol" by blast
  have "m \<in> set (sorted_list_of_fset (fmdom (markets s)))" using fmdomI [OF m(1)] by simp
  moreover have "mSymbol (fmget Market0 (markets s) m) = symbol" using m by (simp add: fmget_def)
  ultimately show "symbolTaken symbol s" unfolding symbolTaken_def list_ex_iff by blast
qed

lemma market_structure:
  assumes "wellFormed s" and "allEntered s" and "coupled books s"
    and "fmlookup (markets s) i = None" and "\<not> symbolTaken (mSymbol mk) s" and "mID mk = i"
  defines "t \<equiv> s\<lparr>markets := fmupd i mk (markets s)\<rparr>"
  shows "wellFormed t" and "allEntered t" and "coupled books t"
proof -
  have taken: "mSymbol mk' \<noteq> mSymbol mk" if "fmlookup (markets s) m = Some mk'" for m mk'
    using assms(5) that symbolTaken_iff by blast
  have idle: "\<not> live od" if "fmlookup (orders s) k = Some od" "oMarketID od = i" for k od
    using assms(1,4) that unfolding wellFormed_def liveInOpen_def by fastforce
  have "indexed t" using assms(1) indexed_frame [of t s] by (simp add: wellFormed_def t_def)
  moreover have "marketsOk t"
    using assms(1,6) taken unfolding wellFormed_def marketsOk_def t_def by (auto, metis+)
  moreover have "liveInOpen t"
    using assms(1) idle unfolding wellFormed_def liveInOpen_def t_def by auto
  ultimately show "wellFormed t" by (simp add: wellFormed_def)
  show "allEntered t" using assms(2) by (simp add: allEntered_def t_def)
  have "mirrors none i (books (mSymbol mk)) (orders s)"
  proof (rule mirrorsI)
    have "books (mSymbol mk) = fmempty" using assms(3) taken unfolding coupled_def by blast
    then show "fmlookup (books (mSymbol mk)) j = Some r \<longleftrightarrow> \<not> False \<and>
        (\<exists>k od. (fmlookup (orders s) k = Some od \<and> restingAs i j od) \<and> r = restOf od)" for j r
      using idle by (auto simp: restingAs_def)
  qed
  moreover have "mirrors none m (books (mSymbol mk')) (orders s)"
    if "fmlookup (markets s) m = Some mk'" "mStatus mk' = Open" for m mk'
    using assms(3) that unfolding coupled_def by blast
  moreover have "books symbol = fmempty"
    if "\<forall>m mk'. fmlookup (markets t) m = Some mk' \<longrightarrow> mSymbol mk' \<noteq> symbol" for symbol
  proof -
    have "\<forall>m mk'. fmlookup (markets s) m = Some mk' \<longrightarrow> mSymbol mk' \<noteq> symbol"
      using that assms(4) by (simp add: t_def) (metis option.distinct(1))
    then show ?thesis using assms(3) unfolding coupled_def by blast
  qed
  ultimately show "coupled books t" unfolding coupled_def by (simp add: t_def)
qed

lemma CreateMarketFor_sound:
  assumes "CreateMarketFor i symbol owner s = (r, t)" and "sound eng bookOf healthy D s"
  shows "sound eng bookOf healthy D t"
proof (cases "failure s = None \<and> i \<noteq> [] \<and> symbol \<noteq> [] \<and> fmlookup (markets s) i = None \<and> \<not> symbolTaken symbol s")
  case False
  then show ?thesis
    using assms by (cases "failure s") (auto simp: CreateMarketFor_def split: if_splits option.splits)
next
  case True
  have s: "EngineOf (cfg s) = Some eng" "funded D s" "wellFormed s" "allEntered s"
      "healthy (engineState s)" "coupled (bookOf (engineState s)) s"
    using assms(2) True by (auto simp: sound_def)
  let ?mk = "\<lparr>mID = i, mSymbol = symbol, mOwnerID = owner, mStatus = Open\<rparr>"
  let ?ev = "Event0\<lparr>eType := EventMarket, eMarket := ?mk\<rparr>"
  obtain x es where call: "AddBook eng (engineState s) symbol = (x, es)" by (rule prod.exhaust)
  note eb = AddBook_books [OF s(5) call]
  let ?s = "s\<lparr>engineState := es\<rparr>" and ?t = "ideal_all [?ev] (book s)"
  have bs: "book ?s = book s" by (simp add: book_eq_iff)
  have go: "andThen (x, ?s) (commit ?ev) = (r, t)" using assms(1) True s(1) call by (simp add: CreateMarketFor_def)
  have s1: "sound eng bookOf healthy D ?s"
    using eb by (intro sound_same [OF assms(2) bs]) (simp_all add: True)
  show ?thesis
  proof (cases x)
    case (Some e)
    then show ?thesis using go s1 by simp
  next
    case None
    have tk: "\<not> symbolTaken (mSymbol ?mk) (book s)" using True by (simp add: symbolTaken_def)
    have f: "funded D ?t" using s(2) funded_frame [of ?t s D] by simp
    have st: "wellFormed ?t" "allEntered ?t" "coupled (bookOf es) ?t"
      using market_structure [of "book s" "bookOf es" i ?mk, OF _ _ _ _ tk] s eb True by simp_all
    have c: "commitMany [?ev] ?s = (r, t)" using go None by (simp add: commit_def)
    have "wellFormed ?s" "funded D ?s" "EngineOf (cfg ?s) = Some eng" using s1 by (simp_all add: sound_def)
    then show ?thesis using commit_sound [OF c, of D D] f st eb by (simp add: bs split: if_splits)
  qed
qed

section \<open>Cancellation\<close>

lemma remove_call:
  assumes "removeFromEngine symbol i s = (x, t)" and "EngineOf (cfg s) = Some eng" and "healthy (engineState s)"
  shows "same_ledger s t" and "x = Inr removed \<Longrightarrow> healthy (engineState t) \<and>
      removed = (fmlookup (bookOf (engineState s) symbol) i \<noteq> None) \<and>
      bookOf (engineState t) = (bookOf (engineState s))(symbol := fmdrop i (bookOf (engineState s) symbol))"
proof -
  show "same_ledger s t" using removeFromEngine_same [OF assms(1)] by simp
  obtain y es where call: "RemoveOrder eng (engineState s) symbol i = (y, es)" by (rule prod.exhaust)
  then have "y = x" "engineState t = es" using assms(1,2) by (auto simp: removeFromEngine_def)
  then show "healthy (engineState t) \<and> removed = (fmlookup (bookOf (engineState s) symbol) i \<noteq> None) \<and>
      bookOf (engineState t) = (bookOf (engineState s))(symbol := fmdrop i (bookOf (engineState s) symbol))"
    if "x = Inr removed"
    using RemoveOrder_books [OF assms(3), of symbol i removed es] call that by simp
qed

lemma cancel_structure:
  assumes "wellFormed s" and "allEntered s" and "coupled books s" and "ledger_pos s"
    and "fmlookup (orders s) k = Some od" and "live od" and "fmlookup (markets s) (oMarketID od) = Some mk"
  defines "t \<equiv> ideal_all (cancelEvents (oMarketID od) od) s"
  shows "wellFormed t" and "allEntered t"
    and "coupled (books(mSymbol mk := fmdrop (oEngineID od) (books (mSymbol mk)))) t"
proof -
  let ?od = "od\<lparr>oStatus := Cancelled\<rparr>"
  have ok: "order_ok k od" using assms(4,5) by (auto simp: ledger_pos_def)
  have id: "oID ?od = k" using order_ok_ID [OF ok] by simp
  have dead: "\<not> live ?od" by (simp add: live_def)
  have t: "orders t = fmupd k ?od (orders s)" "markets t = markets s" "engineOrders t = engineOrders (putOrder ?od s)"
    using id by (simp_all add: t_def cancelEvents_def Let_def)
  have "indexed (putOrder ?od s)"
    using assms(1,5,6) id dead by (intro indexed_cancel) (simp_all add: wellFormed_def)
  then have "indexed t" using indexed_frame [of t "putOrder ?od s"] t id by simp
  moreover have "liveInOpen t" using assms(1) liveInOpen_upd [OF _ t(1,2) dead] by (simp add: wellFormed_def)
  ultimately show "wellFormed t" using assms(1) t(2) by (simp add: wellFormed_def marketsOk_def)
  show "allEntered t" by (rule allEntered_upd [OF assms(2) t(1) dead])
  have "restingAs (oMarketID od) (oEngineID od) od"
    using assms(2,5,6) by (auto simp: restingAs_def allEntered_def)
  then show "coupled (books(mSymbol mk := fmdrop (oEngineID od) (books (mSymbol mk)))) t"
    using coupled_remove [OF assms(3,1,5) _ assms(7) dead _ t(1,2)] by simp
qed

lemma Cancel_sound:
  assumes "Cancel ctxErr i user s = (r, t)" and "sound eng bookOf healthy D s"
  shows "sound eng bookOf healthy D t"
proof (cases "ctxErr = None \<and> failure s = None \<and> (\<exists>od. fmlookup (orders s) i = Some od \<and> oUserID od = user \<and>
    (oStatus od = Open \<or> oStatus od = Partial))")
  case False
  then have "t = s" using assms(1) by (auto simp: Cancel_def split: option.splits if_splits)
  then show ?thesis using assms(2) by simp
next
  case True
  then obtain od where od: "fmlookup (orders s) i = Some od" "oUserID od = user"
      "oStatus od = Open \<or> oStatus od = Partial" and nf: "ctxErr = None" "failure s = None" by blast
  have s: "EngineOf (cfg s) = Some eng" "funded D s" "wellFormed s" "allEntered s"
      "healthy (engineState s)" "coupled (bookOf (engineState s)) s"
    using assms(2) nf by (auto simp: sound_def)
  have live: "live od" using od(3) by (auto simp: live_def)
  obtain mk where mk: "fmlookup (markets s) (oMarketID od) = Some mk" "mStatus mk = Open"
    using s(3) od(1) live unfolding wellFormed_def liveInOpen_def by blast
  obtain x t1 where rm: "removeFromEngine (mSymbol mk) (oEngineID od) s = (x, t1)" by (rule prod.exhaust)
  note rc = remove_call [OF rm s(1,5)]
  have b1: "book t1 = book s" "cfg t1 = cfg s" "failure t1 = None" using rc(1) nf by (simp_all add: same_ledger_def)
  have f1: "funded D t1" "wellFormed t1" using s funded_eq_book [OF b1(1)] structure_eq_book [OF b1(1)] by simp_all
  have go: "Cancel ctxErr i user s = (case x of
        Inl e \<Rightarrow> fail (Wrap ''uncertain cancellation'' e) t1
      | Inr ok \<Rightarrow> if ok then andThen (commitMany (cancelEvents (oMarketID od) od) t1) (quoteAndPublish [oMarketID od] [])
          else (Some (New ''engine rejected cancellation''), t1))"
    using nf od mk rm by (auto simp: Cancel_def fmget_def split: sum.split bool.split)
  have inBook: "fmlookup (bookOf (engineState s) (mSymbol mk)) (oEngineID od) \<noteq> None"
  proof -
    have "mirrors none (oMarketID od) (bookOf (engineState s) (mSymbol mk)) (orders s)"
      using s(6) mk unfolding coupled_def by blast
    moreover have "restingAs (oMarketID od) (oEngineID od) od"
      using s(4) od(1) live by (auto simp: restingAs_def allEntered_def)
    ultimately show ?thesis using mirrors_iff [of none] od(1) by blast
  qed
  show ?thesis
  proof (cases x)
    case (Inl e)
    then have t: "t = t1\<lparr>failure := Some (WrapV ErrRecoveryRequired (Wrap ''uncertain cancellation'' e))\<rparr>"
      using assms(1) go by (auto simp: fail_def Let_def)
    have b: "book t = book t1" unfolding t by (simp add: book_eq_iff)
    show ?thesis using f1 funded_eq_book [OF b] structure_eq_book(1) [OF b] s(1) b1(2)
      by (intro sound_latched) (simp_all add: t)
  next
    case (Inr ok)
    have e1: "ok" "healthy (engineState t1)" "bookOf (engineState t1) =
        (bookOf (engineState s))(mSymbol mk := fmdrop (oEngineID od) (bookOf (engineState s) (mSymbol mk)))"
      using rc(2) [OF Inr] inBook by simp_all
    have c: "andThen (commitMany (cancelEvents (oMarketID od) od) t1) (quoteAndPublish [oMarketID od] []) = (r, t)"
      using assms(1) go Inr e1(1) by simp
    have at: "fmlookup (orders (book s)) i = Some od" "fmlookup (markets (book s)) (oMarketID od) = Some mk"
      using od(1) mk(1) by simp_all
    have pos: "ledger_pos (book s)" using funded_pos [of D "book s"] s(2) by simp
    note ci = cancel_ideal [OF at(1) live pos]
    note cs = cancel_structure [of "book s", OF _ _ _ pos at(1) live at(2)]
    have "value_of (book s) = D \<and> (\<forall>m. skew (book s) m = 0) \<and> D \<le> int64_max"
      using s(2) funded_book [of D s] by (simp add: funded_def ledger_ok_def del: funded_book)
    then have f2: "funded D (ideal_all (cancelEvents (oMarketID od) od) (book s))"
      using ci by (intro fundedI) simp_all
    show ?thesis
      using commit_publish_sound [OF c _ f1, of D] f2 cs s e1(2,3) b1(1,2) by simp
  qed
qed

section \<open>Resolution\<close>

lemma cancelLoop_engine:
  assumes "cancelLoop mk m is s = (x, t)" and "EngineOf (cfg s) = Some eng" and "healthy (engineState s)"
    and "distinct is" and "uniqueIDs (orders s)"
    and "\<And>i. i \<in> set is \<Longrightarrow> restingAs m (oEngineID (orderIn s i)) (orderIn s i) \<and>
      fmlookup (orders s) i = Some (orderIn s i) \<and>
      fmlookup (bookOf (engineState s) (mSymbol mk)) (oEngineID (orderIn s i)) \<noteq> None"
  shows "cfg t = cfg s \<and> (case x of
      Inl e \<Rightarrow> failure t \<noteq> None
    | Inr es \<Rightarrow> healthy (engineState t) \<and>
        (\<forall>symbol. symbol \<noteq> mSymbol mk \<longrightarrow> bookOf (engineState t) symbol = bookOf (engineState s) symbol))"
  using assms
proof (induction "is" arbitrary: s x t)
  case (Cons i "is")
  let ?od = "orderIn s i"
  obtain y t1 where rm: "removeFromEngine (mSymbol mk) (oEngineID ?od) s = (y, t1)" by (rule prod.exhaust)
  obtain z t2 where loop: "cancelLoop mk m is t1 = (z, t2)" by (rule prod.exhaust)
  note rc = remove_call [OF rm Cons.prems(2,3)]
  have same: "orders t1 = orders s" "cfg t1 = cfg s" "orderIn t1 = orderIn s"
    using rc(1) by (simp_all add: same_ledger_def book_eq_iff orderIn_def [abs_def])
  show ?case
  proof (cases y)
    case (Inl e)
    then show ?thesis using Cons.prems(1) rm same by (auto simp: fail_def Let_def orderIn_def)
  next
    case (Inr ok)
    have r: "ok" "healthy (engineState t1)" "bookOf (engineState t1) =
        (bookOf (engineState s))(mSymbol mk := fmdrop (oEngineID ?od) (bookOf (engineState s) (mSymbol mk)))"
      using rc(2) [OF Inr] Cons.prems(6) [of i] by simp_all
    have ne: "oEngineID (orderIn s j) \<noteq> oEngineID ?od" if j: "j \<in> set is" for j
    proof
      assume eq: "oEngineID (orderIn s j) = oEngineID ?od"
      have "j \<noteq> i" using Cons.prems(4) j by auto
      then show False
        using Cons.prems(5) Cons.prems(6) [of i] Cons.prems(6) [of j] j eq unfolding uniqueIDs_def by simp blast
    qed
    have IH: "cfg t2 = cfg t1 \<and> (case z of Inl e \<Rightarrow> failure t2 \<noteq> None
      | Inr es \<Rightarrow> healthy (engineState t2) \<and>
          (\<forall>symbol. symbol \<noteq> mSymbol mk \<longrightarrow> bookOf (engineState t2) symbol = bookOf (engineState t1) symbol))"
      using Cons.prems(2,4,5,6) same r ne by (intro Cons.IH [OF loop]) simp_all
    have "cancelLoop mk m (i # is) s = (case z of Inl e \<Rightarrow> (Inl e, t2)
        | Inr es \<Rightarrow> (Inr (cancelEvents m ?od @ es), t2))"
      using rm loop Inr r(1) by (simp add: orderIn_def split: sum.split)
    then show ?thesis using Cons.prems(1) IH same r(3) by (cases z) auto
  qed
qed simp

lemma cancelAll_indexed:
  assumes "allResting market s is" and "distinct is" and "indexed t" and "ledger_pos t"
    and "\<And>i. i \<in> set is \<Longrightarrow> fmlookup (orders t) i = fmlookup (orders s) i"
  shows "indexed (ideal_all (cancelAll market s is) t)"
  using assms
proof (induction "is" arbitrary: t)
  case (Cons i "is")
  obtain od where od: "fmlookup (orders t) i = Some od" "live od" "oMarketID od = market" "orderIn s i = od"
    using Cons.prems(1) Cons.prems(5) [of i] by (auto simp: allResting_def orderIn_def fmget_def)
  let ?od = "od\<lparr>oStatus := Cancelled\<rparr>" and ?t1 = "ideal_all (cancelEvents market od) t"
  have id: "oID od = i" using Cons.prems(4) od(1) order_ok_ID by (auto simp: ledger_pos_def)
  note c = cancel_ideal [OF od(1,2) Cons.prems(4), unfolded od(3)]
  have "indexed (putOrder ?od t)"
    using Cons.prems(3) od(1,2) id by (intro indexed_cancel) (simp_all add: live_def)
  then have ix: "indexed ?t1"
    using indexed_frame [of ?t1 "putOrder ?od t"] by (simp add: cancelEvents_def Let_def)
  have rest: "fmlookup (orders ?t1) j = fmlookup (orders s) j" if "j \<in> set is" for j
    using that Cons.prems(2) Cons.prems(5) [of j] c(4) by auto
  have "allResting market s is" "distinct is" using Cons.prems(1,2) by (auto simp: allResting_def)
  from Cons.IH [OF this ix c(1) rest] show ?case by (simp add: cancelAll_def od(4))
qed (simp add: cancelAll_def)

lemma payoutEvents_orders:
  "orders (ideal_all (payoutEvents m yes s us) t) = orders t"
  "engineOrders (ideal_all (payoutEvents m yes s us) t) = engineOrders t"
  by (induction us arbitrary: t) (simp_all add: payoutEvents_def Let_def)

lemma resolution_structure:
  fixes yes :: bool
  assumes "funded D s" and "wellFormed s" and "allEntered s" and "coupled books s"
    and "fmlookup (markets s) i = Some mk"
    and "\<And>symbol. symbol \<noteq> mSymbol mk \<Longrightarrow> books' symbol = books symbol"
  defines "t \<equiv> ideal_all (resolution i yes mk s) s"
  shows "wellFormed t" and "allEntered t" and "coupled books' t"
proof -
  let ?is = "restingIn i s"
  have id: "mID mk = i" using assms(2,5) by (simp add: wellFormed_def marketsOk_def)
  have rm: "mID (resolvedMarket mk yes) = mID mk" "mSymbol (resolvedMarket mk yes) = mSymbol mk"
      "mStatus (resolvedMarket mk yes) \<noteq> Open" by (simp_all add: resolvedMarket_def)
  note r = resolution_ideal(2,3) [OF assms(1), where m = mk and yes = yes and i = i, folded t_def]
  have mt: "fmlookup (markets t) m = (if m = i then Some (resolvedMarket mk yes) else fmlookup (markets s) m)" for m
    using r(1) id by simp
  have gone: "fmlookup (orders s) k = Some od \<and> k \<notin> set ?is"
    if "fmlookup (orders t) k = Some od" "live od" for k od
    using that r(2) [of k] by (auto simp: live_def split: if_splits)
  have away: "oMarketID od \<noteq> i" if "fmlookup (orders t) k = Some od" "live od" for k od
    using gone [OF that] assms(3) that(2) set_restingIn [of k i s] unfolding allEntered_def live_def by blast
  have stays: "fmlookup (orders t) k = Some od" if "fmlookup (orders s) k = Some od" "oMarketID od \<noteq> i" for k od
    using that r(2) [of k] set_restingIn [of k i s] by auto
  have "indexed (ideal_all (cancelAll i s ?is) s)"
    using assms(2) by (intro cancelAll_indexed restingIn_all funded_pos [OF assms(1)]) (simp_all add: wellFormed_def)
  then have "indexed t"
    using indexed_frame [of t "ideal_all (cancelAll i s ?is) s"]
    by (simp add: t_def resolution_def payoutEvents_orders)
  moreover have "marketsOk t"
    using assms(2,5) mt rm unfolding wellFormed_def marketsOk_def by (auto split: if_splits)
  moreover have "liveInOpen t"
    unfolding liveInOpen_def
  proof (intro allI impI)
    fix k od assume od: "fmlookup (orders t) k = Some od" "live od"
    then show "\<exists>mk. fmlookup (markets t) (oMarketID od) = Some mk \<and> mStatus mk = Open"
      using gone [OF od] away [OF od] mt assms(2) od(2) unfolding wellFormed_def liveInOpen_def by simp blast
  qed
  ultimately show "wellFormed t" by (simp add: wellFormed_def)
  show "allEntered t"
    using assms(3) r(2) unfolding allEntered_def by (auto simp: live_def split: if_splits)
  have mirror: "mirrors none m (books' (mSymbol mk')) (orders t)"
    if mk': "fmlookup (markets s) m = Some mk'" "mStatus mk' = Open" "m \<noteq> i" for m mk'
  proof (rule mirrorsI)
    fix j q
    have "mSymbol mk' \<noteq> mSymbol mk" using mk' assms(2,5) unfolding wellFormed_def marketsOk_def by metis
    then have same: "books' (mSymbol mk') = books (mSymbol mk')" by (rule assms(6))
    have mir: "mirrors none m (books (mSymbol mk')) (orders s)" using mk' assms(4) unfolding coupled_def by blast
    have "(fmlookup (orders s) k = Some x \<and> restingAs m j x) = (fmlookup (orders t) k = Some x \<and> restingAs m j x)" for k x
      using stays [of k x] gone [of k x] mk'(3) by (auto simp: restingAs_def)
    then show "fmlookup (books' (mSymbol mk')) j = Some q \<longleftrightarrow> \<not> False \<and>
        (\<exists>k od. (fmlookup (orders t) k = Some od \<and> restingAs m j od) \<and> q = restOf od)"
      unfolding same mirrors_iff [OF mir] by simp
  qed
  have unused: "books' symbol = fmempty"
    if u: "\<forall>m mk'. fmlookup (markets t) m = Some mk' \<longrightarrow> mSymbol mk' \<noteq> symbol" for symbol
  proof -
    have "\<forall>m mk'. fmlookup (markets s) m = Some mk' \<longrightarrow> mSymbol mk' \<noteq> symbol"
      using u mt rm assms(5) by (metis option.inject)
    then show ?thesis using assms(4,5,6) unfolding coupled_def by metis
  qed
  show "coupled books' t" unfolding coupled_def using mirror unused mt rm by simp
qed

lemma ResolveFor_sound:
  assumes "ResolveFor ctxErr i yes owner s = (r, t)" and "sound eng bookOf healthy D s"
    and "outstanding pYes s i = outstanding pNo s i"
  shows "sound eng bookOf healthy D t"
proof (cases "ctxErr = None \<and> failure s = None \<and> (\<exists>mk. fmlookup (markets s) i = Some mk \<and> mStatus mk = Open \<and>
    (mOwnerID mk = [] \<or> mOwnerID mk = owner))")
  case False
  then have "t = s" using assms(1) by (auto simp: ResolveFor_def split: option.splits if_splits)
  then show ?thesis using assms(2) by simp
next
  case True
  then obtain mk where mk: "fmlookup (markets s) i = Some mk" "mStatus mk = Open"
      "mOwnerID mk = [] \<or> mOwnerID mk = owner" and nf: "ctxErr = None" "failure s = None" by blast
  have s: "EngineOf (cfg s) = Some eng" "funded D s" "wellFormed s" "allEntered s"
      "healthy (engineState s)" "coupled (bookOf (engineState s)) s"
    using assms(2) nf by (auto simp: sound_def)
  let ?is = "restingIn i s"
  obtain x t1 where loop: "cancelLoop mk i ?is s = (x, t1)" by (rule prod.exhaust)
  have mir: "mirrors none i (bookOf (engineState s) (mSymbol mk)) (orders s)"
    using s(6) mk unfolding coupled_def by blast
  have rest: "restingAs i (oEngineID (orderIn s k)) (orderIn s k) \<and> fmlookup (orders s) k = Some (orderIn s k) \<and>
      fmlookup (bookOf (engineState s) (mSymbol mk)) (oEngineID (orderIn s k)) \<noteq> None" if k: "k \<in> set ?is" for k
  proof -
    obtain od where od: "fmlookup (orders s) k = Some od" "oMarketID od = i" "oStatus od = Open \<or> oStatus od = Partial"
      using k set_restingIn [of k i s] by blast
    then have "restingAs i (oEngineID od) od" using s(4) by (auto simp: restingAs_def live_def allEntered_def)
    moreover from this have "fmlookup (bookOf (engineState s) (mSymbol mk)) (oEngineID od) \<noteq> None"
      using mirrors_iff [OF mir, of "oEngineID od" "restOf od"] od(1) by auto
    ultimately show ?thesis using od(1) by (simp add: orderIn_def fmget_def)
  qed
  have uni: "uniqueIDs (orders s)" using s(3) indexed_unique [of s] by (simp add: wellFormed_def)
  note eng = cancelLoop_engine [OF loop s(1,5) restingIn_all(2) uni rest]
  have b1: "book t1 = book s" by (rule cancelLoop_result(1) [OF loop])
  have f1: "funded D t1" "wellFormed t1" "EngineOf (cfg t1) = Some eng"
    using s eng funded_eq_book [OF b1] structure_eq_book [OF b1] by simp_all
  show ?thesis
  proof (cases x)
    case (Inl e)
    then have "t = t1" using assms(1) nf mk loop by (auto simp: ResolveFor_def)
    then show ?thesis using f1 eng Inl by (intro sound_latched) simp_all
  next
    case (Inr es)
    have es: "es = cancelAll i s ?is" using cancelLoop_result(2) [OF loop Inr] by simp
    have books: "healthy (engineState t1)"
        "\<And>symbol. symbol \<noteq> mSymbol mk \<Longrightarrow> bookOf (engineState t1) symbol = bookOf (engineState s) symbol"
      using eng Inr by simp_all
    obtain r2 t2 where c: "commitMany (resolution i yes mk s) t1 = (r2, t2)" by (rule prod.exhaust)
    have t: "same_ledger t2 t \<and> engineState t = engineState t2 \<and> r = r2"
      using assms(1) nf mk loop Inr c es
      by (cases r2) (auto simp: ResolveFor_def resolution_def publishQuotes_def)
    have fb: "funded D (book s)" using s(2) by simp
    note rs = resolution_structure [of D "book s" _ i mk, OF fb _ _ _ _ books(2)]
    have "outstanding (payoutOf yes) s i = outstanding pYes s i"
      using assms(3) by (cases yes) (simp_all add: payoutOf_def [abs_def])
    then have f2: "funded D (ideal_all (resolution i yes mk (book s)) (book s))"
      using resolution_ideal(1,4,5) [OF fb] s(2) assms(3) by (intro fundedI) (auto simp: funded_def)
    have "sound eng bookOf healthy D t2"
      using commit_sound [OF c f1(3,1,2), of D] f2 rs s mk(1) books(1)
      by (simp add: b1 resolution_book split: if_splits)
    then show ?thesis
      using t by (intro sound_same [of _ _ _ _ t2 t]) (auto simp: same_ledger_def sound_def)
  qed
qed

end

end
