(* ===== verification/Engine_Recovery.thy ===== *)
theory Engine_Recovery
  imports Exchange_Ops
begin

text \<open>
  \<^verbatim>\<open>RecoverEngine\<close> (service.go, lines 827 to 886): after a restart, the live orders are
  submitted again to an empty engine in the order of their sequence numbers. A recovery that
  returns no error establishes the invariant of the running exchange; whatever it returns, the
  books stay funded.
\<close>

section \<open>Forgetting the engine IDs\<close>

definition storedIn :: "'a ledger_scheme \<Rightarrow> Order list \<Rightarrow> bool" where
  "storedIn s ods \<longleftrightarrow> (\<forall>od\<in>set ods. fmlookup (orders s) (oID od) = Some od \<and> live od) \<and> distinct (map oID ods)"

abbreviation noID :: "Order \<Rightarrow> Order" where
  "noID od \<equiv> od\<lparr>oEngineID := 0\<rparr>"

lemma funded_forget:
  assumes "fmlookup (orders s) (oID od) = Some od" and "funded D s"
  shows "funded D (s\<lparr>orders := fmupd (oID od) (noID od) (orders s)\<rparr>)"
proof -
  have "restated od (noID od)" by (simp add: restated_def live_def)
  from funded_restated [OF assms(1) this assms(2)] show ?thesis
    using funded_frame [of "s\<lparr>orders := fmupd (oID od) (noID od) (orders s)\<rparr>" "putOrder (noID od) s" D] by simp
qed

lemma forget_fold:
  fixes t :: "('e, 'p) Service"
  assumes "storedIn t ods" and "funded D t"
  defines "t' \<equiv> fold (\<lambda>od t. t\<lparr>orders := fmupd (oID od) (noID od) (orders t)\<rparr>) ods t"
  shows "funded D t' \<and> markets t' = markets t \<and> engineOrders t' = engineOrders t \<and> cfg t' = cfg t \<and>
    failure t' = failure t \<and> engineState t' = engineState t \<and>
    (\<forall>k. fmlookup (orders t') k = (if k \<in> oID ` set ods
       then map_option noID (fmlookup (orders t) k) else fmlookup (orders t) k))"
  using assms(1,2) unfolding t'_def
proof (induction ods arbitrary: t)
  case (Cons od ods)
  let ?t1 = "t\<lparr>orders := fmupd (oID od) (noID od) (orders t)\<rparr>"
  have at: "fmlookup (orders t) (oID od) = Some od" using Cons.prems(1) by (simp add: storedIn_def)
  have "storedIn ?t1 ods" using Cons.prems(1) by (auto simp: storedIn_def)
  from Cons.IH [OF this funded_forget [OF at Cons.prems(2)]] show ?case
    using at Cons.prems(1) by (auto simp: storedIn_def)
qed simp

lemma forgetEngineIDs_effect:
  fixes s :: "('e, 'p) Service"
  assumes "storedIn s ods" and "funded D s"
  shows "funded D (forgetEngineIDs ods s) \<and> markets (forgetEngineIDs ods s) = markets s \<and>
    engineOrders (forgetEngineIDs ods s) = fmempty \<and> cfg (forgetEngineIDs ods s) = cfg s \<and>
    failure (forgetEngineIDs ods s) = failure s \<and> engineState (forgetEngineIDs ods s) = engineState s \<and>
    (\<forall>k. fmlookup (orders (forgetEngineIDs ods s)) k = (if k \<in> oID ` set ods
       then map_option noID (fmlookup (orders s) k) else fmlookup (orders s) k))"
proof -
  have "storedIn (s\<lparr>engineOrders := fmempty\<rparr>) ods" using assms(1) by (simp add: storedIn_def)
  moreover have "funded D (s\<lparr>engineOrders := fmempty\<rparr>)"
    using assms(2) funded_frame [of "s\<lparr>engineOrders := fmempty\<rparr>" s D] by simp
  ultimately show ?thesis unfolding forgetEngineIDs_def using forget_fold by fastforce
qed

text \<open>The orders to submit are the live ones, each once.\<close>

lemma liveOrders_stored:
  assumes "funded D s" and "distinct ids" and "set ids = fmdom' (orders s)"
  shows "storedIn s (liveOrders ids s)"
    and "fmlookup (orders s) k = Some od \<Longrightarrow> live od \<Longrightarrow> k \<in> oID ` set (liveOrders ids s)"
proof -
  let ?ods = "filter live (map (fmget Order0 (orders s)) ids)"
  have at: "fmlookup (orders s) i = Some (fmget Order0 (orders s) i) \<and> oID (fmget Order0 (orders s) i) = i"
    if "i \<in> set ids" for i
    using that assms(3) funded_ordersOk [OF assms(1)]
    by (auto simp: fmlookup_dom'_iff ordersOk_def fmget_def intro: order_ok_ID)
  have "map oID (map (fmget Order0 (orders s)) ids) = ids"
    using at by (simp add: map_idI)
  then have "distinct (map oID (map (fmget Order0 (orders s)) ids))" using assms(2) by simp
  then have "distinct (map oID ?ods)" by (rule distinct_map_filter)
  then have "distinct (map oID (sort_key oSequence ?ods))"
    by (simp add: distinct_map)
  then show "storedIn s (liveOrders ids s)"
    using at by (auto simp: storedIn_def liveOrders_def)
  show "k \<in> oID ` set (liveOrders ids s)" if "fmlookup (orders s) k = Some od" "live od"
  proof -
    have "k \<in> set ids" using that(1) assms(3) by (simp add: fmdom'I)
    moreover have "od = fmget Order0 (orders s) k" using that(1) by (simp add: fmget_def)
    ultimately have "od \<in> set (liveOrders ids s)" "oID od = k"
      using at [of k] that(2) by (auto simp: liveOrders_def)
    then show ?thesis by blast
  qed
qed

section \<open>Orders that are in no book\<close>

lemma fillAll_untouched:
  assumes "\<And>i. look i \<noteq> Some k"
  shows "fmlookup (fillAll look os fs) k = fmlookup os k"
proof (induction fs arbitrary: os)
  case (Cons f fs)
  have "look (etBuyOrderID f) \<noteq> Some k" "look (etSellOrderID f) \<noteq> Some k" using assms by blast+
  then show ?case using Cons.IH by (auto split: option.split)
qed simp

section \<open>Resubmitting the orders\<close>

text \<open>The state of the loop: the orders still to submit are live and have no engine ID.\<close>

definition waiting :: "'a ledger_scheme \<Rightarrow> Order list \<Rightarrow> bool" where
  "waiting s ods \<longleftrightarrow> distinct (map oID ods) \<and>
     (\<forall>od\<in>set ods. fmlookup (orders s) (oID od) = Some (noID od) \<and> live od) \<and>
     (\<forall>k x. fmlookup (orders s) k = Some x \<longrightarrow> live x \<longrightarrow> k \<notin> oID ` set ods \<longrightarrow>
        oStatus x \<noteq> Pending \<and> oEngineID x \<noteq> 0)"

lemma waiting_Nil: "waiting s [] \<longleftrightarrow> allEntered s"
  by (auto simp: waiting_def allEntered_def live_def)

lemma waiting_eq_book: "book t = book s \<Longrightarrow> waiting t ods = waiting s ods"
  by (simp add: waiting_def book_eq_iff)

lemma waiting_enter:
  assumes "waiting s (od # ods)" and "oMarketID od = m" and "erOrderID res \<noteq> 0" and "st = Open \<or> st = Partial"
    and "advances m (fmupd (oID od) (entered od res st) (orders s)) (orders t)"
    and "\<And>k. fmlookup (orders s) k \<noteq> None \<Longrightarrow> k \<in> oID ` set ods \<Longrightarrow>
      fmlookup (orders t) k = fmlookup (orders s) k"
  shows "waiting t ods"
  unfolding waiting_def
proof (intro conjI ballI allI impI)
  show "distinct (map oID ods)" using assms(1) by (simp add: waiting_def)
  show "fmlookup (orders t) (oID x) = Some (noID x)" "live x" if "x \<in> set ods" for x
    using that assms(1) assms(6) [of "oID x"] by (auto simp: waiting_def)
  fix k x assume x: "fmlookup (orders t) k = Some x" "live x" "k \<notin> oID ` set ods"
  obtain y where y: "fmlookup (fmupd (oID od) (entered od res st) (orders s)) k = Some y" "laterThan m y x"
    by (rule advancesE [OF assms(5) x(1)])
  have "live y" using y(2) x(2) by (auto simp: laterThan_def)
  then have "oStatus y \<noteq> Pending \<and> oEngineID y \<noteq> 0"
    using y(1) x(3) assms(1,3,4) by (auto simp: waiting_def split: if_splits)
  then show "oStatus x \<noteq> Pending" "oEngineID x \<noteq> 0" using y(2) by (auto simp: laterThan_def)
qed

context matching_engine
begin

definition recovering :: "int \<Rightarrow> Order list \<Rightarrow> ('e, 'p) Service \<Rightarrow> bool" where
  "recovering D ods s \<longleftrightarrow> EngineOf (cfg s) = Some eng \<and> funded D s \<and> wellFormed s \<and> failure s = None \<and>
     healthy (engineState s) \<and> coupled (bookOf (engineState s)) s \<and> waiting s ods"

lemma recovering_done: "recovering D [] s \<Longrightarrow> sound eng bookOf healthy D s"
  by (simp add: recovering_def sound_def waiting_Nil)

text \<open>The trades of a resubmitted order, committed after the order itself.\<close>

lemma applyTrades_funded:
  assumes "applyTrades m fs s = (r, t)" and "funded D s" and "indexed s"
    and "validTrades (lookupEngine s fmempty m) m (orders s) fs"
  shows "funded D t" and "r = None \<Longrightarrow> orders t = fillAll (lookupEngine s fmempty m) (orders s) fs \<and>
      indexed t \<and> markets t = markets s \<and> cfg t = cfg s \<and> engineState t = engineState s \<and> failure t = failure s"
proof -
  let ?es = "fst (buildTradeEvents s m fs fmempty fmempty)"
  have pos: "ledger_pos (book s)" using funded_pos [of D "book s"] assms(2) by simp
  have ix: "indexed (book s)" using assms(3) indexed_frame [of "book s" s] by simp
  have ag: "agrees s fmempty (book s)" by (simp add: agrees_def)
  have valid: "validTrades (lookupEngine s fmempty m) m (orders (book s)) fs" using assms(4) by simp
  note ti = trades_ideal [OF valid ag pos] and te = trades_effect [OF valid ag pos ix]
  have "value_of (book s) = D \<and> (\<forall>m. skew (book s) m = 0) \<and> D \<le> int64_max"
    using assms(2) funded_book [of D s] by (simp add: funded_def ledger_ok_def del: funded_book)
  then have f: "funded D (ideal_all ?es (book s))" using ti by (intro fundedI) simp_all
  show "funded D t"
  proof (cases "?es = []")
    case True
    then show ?thesis using assms(1,2) by (simp add: applyTrades_def)
  next
    case False
    then have "commitMany ?es s = (r, t)" using assms(1) by (simp add: applyTrades_def)
    then show ?thesis using commit_funded [OF _ assms(2) f] by (cases r) blast+
  qed
  show "orders t = fillAll (lookupEngine s fmempty m) (orders s) fs \<and> indexed t \<and> markets t = markets s \<and>
      cfg t = cfg s \<and> engineState t = engineState s \<and> failure t = failure s" if "r = None"
  proof (cases "?es = []")
    case True
    then show ?thesis using assms(1,3) te by (simp add: applyTrades_def)
  next
    case False
    then have c: "commitMany ?es s = (None, t)" using assms(1) that by (simp add: applyTrades_def)
    have b: "book t = book (ideal_all ?es (book s))" using commit_funded(1) [OF c assms(2) f] by simp
    then have "indexed t = indexed (ideal_all ?es (book s))"
      using indexed_frame [of t "ideal_all ?es (book s)"] by (simp add: book_eq_iff)
    then show ?thesis using b te ti commitMany_ok [OF c] by (simp add: book_eq_iff)
  qed
qed

lemma recoverOrder_step:
  assumes "recoverOrder eng od s = (r, t)" and "recovering D (od # ods) s"
  shows "funded D t" and "r = None \<Longrightarrow> recovering D ods t"
proof -
  have s: "EngineOf (cfg s) = Some eng" "funded D s" "wellFormed s" "failure s = None"
      "healthy (engineState s)" "coupled (bookOf (engineState s)) s" "waiting s (od # ods)"
    using assms(2) by (auto simp: recovering_def)
  let ?od = "noID od" and ?m = "oMarketID od"
  have od: "fmlookup (orders s) (oID od) = Some ?od" "live ?od"
    using s(7) by (auto simp: waiting_def live_def)
  have ok: "order_ok (oID od) ?od" using funded_ordersOk [OF s(2)] od(1) by (simp add: ordersOk_def)
  obtain mk where mk: "fmlookup (markets s) ?m = Some mk" "mStatus mk = Open"
    using s(3) od unfolding wellFormed_def liveInOpen_def by fastforce
  define st where "st = (if oFilledQuantity od > 0 then Partial else Open)"
  have st: "st = Open \<or> st = Partial" by (simp add: st_def)
  have ex: "i32 (oEnginePrice od) = oEnginePrice od" "i64 (oQuantity od - oFilledQuantity od) = remaining ?od"
      "u32 (remaining ?od) = nat (remaining ?od)"
    using exact_call [OF ok] cancelEvents_exact(1) [OF ok] by simp_all
  obtain a es where call: "AddOrder eng (engineState s) (mSymbol mk) (oEnginePrice ?od) (nat (remaining ?od))
      (oEngineSide ?od) = (a, es)" by (rule prod.exhaust)
  let ?s = "s\<lparr>engineState := es\<rparr>"
  have bs: "book ?s = book s" by (simp add: book_eq_iff)
  have fs: "funded D ?s" using s(2) funded_eq_book [OF bs] by simp
  have go: "recoverOrder eng od s = (case a of
        Inl e \<Rightarrow> (Some e, ?s)
      | Inr res \<Rightarrow> andThen (commit (Event0\<lparr>eType := EventOrder, eOrder := entered ?od res st\<rparr>) ?s)
          (applyTrades ?m (erTrades res)))"
    using call mk(1) ex by (simp add: recoverOrder_def fmget_def entered_def st_def split: sum.split)
  have main: "funded D t \<and> (r = None \<longrightarrow> recovering D ods t)"
  proof (cases a)
    case (Inl e)
    then show ?thesis using assms(1) go fs by auto
  next
    case (Inr res)
    let ?od1 = "entered ?od res st" and ?t1 = "ideal_balance [] 0 (putOrder (entered ?od res st) (book ?s))"
    let ?ev = "Event0\<lparr>eType := EventOrder, eOrder := ?od1\<rparr>"
    have mk': "fmlookup (markets s) (oMarketID ?od) = Some mk" using mk(1) by simp
    note enter = enter_call [OF s(2,3,6,5) od _ mk' call [unfolded Inr] st, simplified]
    have at: "fmlookup (orders (book ?s)) (oID od) = Some ?od" using od(1) by simp
    have f1: "funded D ?t1"
      using fs by (intro putOrder_restated [OF at entered_restated [OF od(2) st]]) simp
    have ev: "ideal_all [?ev] (book ?s) = ?t1" by simp
    obtain r1 s1 where c: "commitMany [?ev] ?s = (r1, s1)" by (rule prod.exhaust)
    show ?thesis
    proof (cases r1)
      case (Some e)
      then have "r = Some e" "t = s1" using assms(1) go Inr c by (auto simp: commit_def)
      then show ?thesis using commit_funded(2) [OF c fs, of D] f1 Some by simp
    next
      case None
      have b: "funded D s1" "book s1 = book ?t1"
        using commit_funded(1) [OF c fs, of D] f1 None by simp_all
      have k1: "cfg s1 = cfg s" "engineState s1 = es" "failure s1 = None"
        using commitMany_ok [of "[?ev]" ?s s1] c None by simp_all
      have o1: "orders s1 = fmupd (oID od) ?od1 (orders s)" "markets s1 = markets s"
        using b(2) by (simp_all add: book_eq_iff)
      have "indexed ?t1"
      proof (rule indexed_frame [THEN iffD2, OF _ _ indexed_putOrder])
        show "indexed (book ?s)" using s(3) indexed_frame [of "book ?s" s] by (simp add: wellFormed_def)
        show "live old \<or> oEngineID old = 0" if "fmlookup (orders (book ?s)) (oID ?od1) = Some old" for old
          using that od by simp
        show "k = oID ?od1" if "restingAs m i ?od1" "fmlookup (orders (book ?s)) k = Some old" "restingAs m i old"
          for m i k old
          using that enter(2) [of k old] by (auto simp: restingAs_def)
      qed simp_all
      then have ix: "indexed s1" using b(2) indexed_frame [of s1 ?t1] by (simp add: book_eq_iff)
      let ?look = "lookupEngine s1 fmempty ?m"
      have fnd: "finds ?look ?m (fmupd (oID od) ?od1 (orders s))" using finds_indexed [OF ix] o1 by simp
      have valid: "validTrades ?look ?m (orders s1) (erTrades res)" using enter(3) [OF fnd] o1 by simp
      have tr: "applyTrades ?m (erTrades res) s1 = (r, t)" using assms(1) go Inr c None by (simp add: commit_def)
      note ap = applyTrades_funded [OF tr b(1) ix valid]
      have "recovering D ods t" if "r = None"
      proof -
        note ap2 = ap(2) [OF that]
        have co: "coupled (bookOf es) t \<and> liveInOpen t" using enter(4) [OF fnd, of t] ap2 o1 by simp
        have "look \<noteq> Some k" if "k \<in> oID ` set ods" "look = ?look i" for k i look
        proof
          assume "look = Some k"
          then have "\<exists>x. fmlookup (orders s1) k = Some x \<and> restingAs ?m i x"
            using that(2) indexedD [OF ix] by (simp add: lookupEngine_def)
          then show False using that(1) s(7) o1 by (auto simp: waiting_def restingAs_def split: if_splits)
        qed
        then have unt: "fmlookup (orders t) k = fmlookup (orders s) k" if "k \<in> oID ` set ods" for k
          using that s(7) ap2 o1 fillAll_untouched [of ?look k] by (auto simp: waiting_def)
        have "waiting t ods"
          using waiting_enter [of s od ods ?m res st t] s(7) enter(1) st unt fillAll_advances [OF valid] ap2 o1
          by (simp add: entered_def)
        then show ?thesis
          using ap(1) ap2 co k1 s(1,3,4) enter(1) o1
          by (simp add: recovering_def wellFormed_def marketsOk_def)
      qed
      then show ?thesis using ap(1) by simp
    qed
  qed
  then show "funded D t" "r = None \<Longrightarrow> recovering D ods t" by simp_all
qed

lemma recoverLoop_result:
  assumes "recoverLoop eng ods s = (r, t)" and "recovering D ods s"
  shows "funded D t \<and> (r = None \<longrightarrow> sound eng bookOf healthy D t)"
  using assms
proof (induction ods arbitrary: s)
  case Nil
  then show ?case using recovering_done [of D s] by (auto simp: sound_def)
next
  case (Cons od ods)
  obtain r1 s1 where c: "recoverOrder eng od s = (r1, s1)" by (rule prod.exhaust)
  note step = recoverOrder_step [OF c Cons.prems(2)]
  show ?case
  proof (cases r1)
    case None
    then show ?thesis using Cons.IH [of s1] step(2) Cons.prems(1) c by simp
  next
    case (Some e)
    then show ?thesis using step(1) Cons.prems(1) c by auto
  qed
qed

lemma addBooks_result:
  assumes "addBooks eng is s = (r, t)" and "healthy (engineState s)"
  shows "same_ledger s t \<and> healthy (engineState t) \<and> bookOf (engineState t) = bookOf (engineState s)"
  using assms
proof (induction "is" arbitrary: s)
  case (Cons i "is")
  obtain x es where call: "AddBook eng (engineState s) (mSymbol (fmget Market0 (markets s) i)) = (x, es)"
    by (rule prod.exhaust)
  note eb = AddBook_books [OF Cons.prems(2) call]
  have same: "same_ledger s (s\<lparr>engineState := es\<rparr>)" by simp
  show ?case
  proof (cases "mStatus (fmget Market0 (markets s) i) = Open \<and> x = None")
    case True
    then have go: "addBooks eng is (s\<lparr>engineState := es\<rparr>) = (r, t)" using Cons.prems(1) call by simp
    show ?thesis using Cons.IH [OF go] eb same_ledger_trans [OF same] by simp
  next
    case False
    then show ?thesis
      using Cons.prems call eb Cons.IH [of s] by (cases x) (auto simp: Let_def split: if_splits)
  qed
qed simp

text \<open>
  Recovery into an empty engine. \<open>ms\<close> and \<open>ms'\<close> may be any lists; \<open>ids\<close> enumerates the orders.
\<close>

lemma RecoverEngine_result:
  assumes "RecoverEngine ctxErr ms ids ms' s = (r, t)" and "EngineOf (cfg s) = Some eng"
    and "funded D s" and "marketsOk s" and "liveInOpen s"
    and "healthy (engineState s)" and "\<And>symbol. bookOf (engineState s) symbol = fmempty"
    and "distinct ids" and "set ids = fmdom' (orders s)"
  shows "funded D t \<and> (r = None \<longrightarrow> sound eng bookOf healthy D t)"
proof (cases "ctxErr = None \<and> failure s = None")
  case False
  then have "t = s" "r \<noteq> None" using assms(1) by (cases ctxErr; cases "failure s"; auto simp: RecoverEngine_def)+
  then show ?thesis using assms(3) by auto
next
  case True
  obtain r1 s1 where books: "addBooks eng ms s = (r1, s1)" by (rule prod.exhaust)
  note ab = addBooks_result [OF books assms(6)]
  have b1: "book s1 = book s" "cfg s1 = cfg s" "failure s1 = failure s" using ab by (simp_all add: same_ledger_def)
  have eq: "markets s1 = markets s" "orders s1 = orders s" using b1(1) by (simp_all add: book_eq_iff)
  have f1: "funded D s1" using assms(3) funded_eq_book [OF b1(1)] by simp
  let ?ods = "liveOrders ids s1" and ?s2 = "forgetEngineIDs (liveOrders ids s1) s1"
  obtain r2 s3 where loop: "recoverLoop eng ?ods ?s2 = (r2, s3)" by (rule prod.exhaust)
  show ?thesis
  proof (cases r1)
    case (Some e)
    then show ?thesis using assms(1,2) True books f1 by (auto simp: RecoverEngine_def)
  next
    case None
    have ids: "set ids = fmdom' (orders s1)" using assms(9) eq by simp
    note lo = liveOrders_stored [OF f1 assms(8) ids]
    note fe = forgetEngineIDs_effect [OF lo(1) f1]
    have at: "fmlookup (orders ?s2) k = (if k \<in> oID ` set ?ods
        then map_option noID (fmlookup (orders s1) k) else fmlookup (orders s1) k)" for k using fe by blast
    have live2: "\<exists>x. fmlookup (orders s1) k = Some x \<and> live x \<and> y = noID x \<and> k \<in> oID ` set ?ods"
      if "fmlookup (orders ?s2) k = Some y" "live y" for k y
      using that at [of k] lo(2) [of k] by (auto simp: live_def split: if_splits)
    then have idle: "\<not> restingAs m i y" if "fmlookup (orders ?s2) k = Some y" for k y m i
      using that by (fastforce simp: restingAs_def)
    have wf: "wellFormed ?s2"
    proof -
      have "indexed ?s2" using fe idle by (auto simp: indexed_def)
      moreover have "marketsOk ?s2" using assms(4) fe eq by (simp add: marketsOk_def)
      moreover have "liveInOpen ?s2"
        using assms(5) fe eq live2 unfolding liveInOpen_def by fastforce
      ultimately show ?thesis by (simp add: wellFormed_def)
    qed
    have "mirrors none m fmempty (orders ?s2)" for m
      using idle by (intro mirrorsI) auto
    then have co: "coupled (bookOf (engineState ?s2)) ?s2"
      using assms(7) ab fe by (simp add: coupled_def)
    have "waiting ?s2 ?ods"
      unfolding waiting_def
    proof (intro conjI ballI allI impI)
      show "distinct (map oID ?ods)" using lo(1) by (simp add: storedIn_def)
      show "fmlookup (orders ?s2) (oID od) = Some (noID od)" "live od" if "od \<in> set ?ods" for od
        using that lo(1) at by (auto simp: storedIn_def)
      show "oStatus x \<noteq> Pending" "oEngineID x \<noteq> 0"
        if "fmlookup (orders ?s2) k = Some x" "live x" "k \<notin> oID ` set ?ods" for k x
        using live2 [OF that(1,2)] that(3) by blast+
    qed
    then have "recovering D ?ods ?s2"
      using wf co fe ab b1 assms(2) True by (simp add: recovering_def)
    from recoverLoop_result [OF loop this]
    have l: "funded D s3" "r2 = None \<Longrightarrow> sound eng bookOf healthy D s3" by simp_all
    show ?thesis
    proof (cases r2)
      case (Some e)
      then show ?thesis using assms(1,2) True books None loop l by (auto simp: RecoverEngine_def Let_def)
    next
      case ok: None
      have q: "quoteAndPublish (filter (\<lambda>i. mStatus (fmget Market0 (markets s3) i) = Open) ms') [] s3 = (r, t)"
        using assms(1,2) True books None loop ok by (simp add: RecoverEngine_def Let_def)
      have same: "same_ledger s3 t"
        using quoteAndPublish_ok(2) [where s = s3 and supplied = "[]"] q by (metis snd_conv)
      show ?thesis
      proof (cases "failure s3")
        case fs: None
        have "healthy (engineState s3)" "EngineOf (cfg s3) = Some eng" using l(2) [OF ok] fs by (auto simp: sound_def)
        from unmoved_quoteAndPublish [OF this] have "unmoved s3 t" using q by (metis snd_conv)
        then show ?thesis using unmoved_sound [OF l(2) [OF ok]] by (auto simp: sound_def)
      next
        case (Some e)
        then show ?thesis
          using sound_same [OF l(2) [OF ok], of t] same by (auto simp: same_ledger_def sound_def)
      qed
    qed
  qed
qed

end

end
