(* ===== verification/Batches.thy ===== *)
theory Batches
  imports Exchange_Ops
begin

text \<open>
  Batches of orders (order_batch.go): admission of a group of placements with aggregate
  reservations, the two durable steps around one call of the engine, the finite queue and its
  worker. Placements of one group share the lock, so the group is one step of the service.
\<close>

section \<open>Admission\<close>

text \<open>
  A placement as the worker sees it: the order and what \<^verbatim>\<open>ctx.Err()\<close> returns when the batch
  reaches it. The time and the channel of the struct carry no business state; the outcome of a
  placement is its place in the list of outcomes.
\<close>

record placement =
  plCtx :: "goerror option"
  plOrder :: Order

record admission =
  aOutcomes :: "goerror option list"
  aInitial :: "Event list"
  aAdmitted :: "nat list"
  aByID :: "(string, nat) fmap"
  aAliases :: "(nat, nat) fmap"
  aCash :: "(string, int) fmap"
  aShares :: "(string \<times> string, Position) fmap"

definition setOutcome :: "nat \<Rightarrow> goerror option \<Rightarrow> admission \<Rightarrow> admission" where
  "setOutcome i r a = a\<lparr>aOutcomes := (aOutcomes a)[i := r]\<rparr>"

definition addShares :: "Event \<Rightarrow> Position \<Rightarrow> Position" where
  "addShares e p = \<lparr>pYes = i64 (pYes p + eYesDelta e), pNo = i64 (pNo p + eNoDelta e)\<rparr>"

definition admit ::
  "'a ledger_scheme \<Rightarrow> nat \<Rightarrow> Order \<Rightarrow> Event \<Rightarrow> Event list \<Rightarrow> int \<Rightarrow> Position \<Rightarrow> admission \<Rightarrow> admission" where
  "admit s i od first rest reservedCash reservedShares a =
    a\<lparr>aCash := fmupd (oUserID od) reservedCash (aCash a),
      aShares := fmupd (oUserID od, oMarketID od) reservedShares (aShares a),
      aInitial := aInitial a @
        first\<lparr>eOrder := (eOrder first)\<lparr>oSequence := (sequence s + length (aInitial a) + 1) mod 2 ^ 64\<rparr>\<rparr> # rest,
      aAdmitted := aAdmitted a @ [i],
      aByID := fmupd (oID od) i (aByID a)\<rparr>"

definition admitOne :: "'a ledger_scheme \<Rightarrow> placement list \<Rightarrow> nat \<Rightarrow> admission \<Rightarrow> admission" where
  "admitOne s requests i a =
    (let od = plOrder (requests ! i)
     in case plCtx (requests ! i) of
          Some e \<Rightarrow> setOutcome i (Some e) a
        | None \<Rightarrow>
          (case fmlookup (aByID a) (oID od) of
             Some original \<Rightarrow>
               (if sameParams (plOrder (requests ! original)) od
                then a\<lparr>aAliases := fmupd i original (aAliases a)\<rparr>
                else setOutcome i (Some (New ''order id already exists with different parameters'')) a)
           | None \<Rightarrow>
             (case prepareOrder s od of
                Inl e \<Rightarrow> setOutcome i (Some e) a
              | Inr [] \<Rightarrow> setOutcome i None a
              | Inr (first # rest) \<Rightarrow>
                (let reservedCash = i64 (fmget 0 (aCash a) (oUserID od) + eAmount first);
                     shares = fmget Position0 (aShares a) (oUserID od, oMarketID od);
                     current = PositionOf s (oUserID od) (oMarketID od)
                 in if i64 (Balance s (oUserID od) + reservedCash) < 0
                    then setOutcome i (Some (New ''insufficient balance'')) a
                    else if isBuy (oSide od) then admit s i od first rest reservedCash shares a
                    else
                      let reservedShares = addShares (hd rest) shares
                      in if i64 (pYes current + pYes reservedShares) < 0 \<or> i64 (pNo current + pNo reservedShares) < 0
                         then setOutcome i (Some (New ''insufficient shares'')) a
                         else admit s i od first rest reservedCash reservedShares a))))"

definition admission0 :: "nat \<Rightarrow> admission" where
  "admission0 n = \<lparr>aOutcomes = replicate n None, aInitial = [], aAdmitted = [], aByID = fmempty,
     aAliases = fmempty, aCash = fmempty, aShares = fmempty\<rparr>"

definition admitAll :: "'a ledger_scheme \<Rightarrow> placement list \<Rightarrow> admission" where
  "admitAll s requests = fold (admitOne s requests) [0..<length requests] (admission0 (length requests))"

section \<open>Completion\<close>

definition commandFor :: "'a ledger_scheme \<Rightarrow> string \<Rightarrow> EngineOrder" where
  "commandFor s k =
    (let od = fmget Order0 (orders s) k
     in \<lparr>eoSymbol = mSymbol (fmget Market0 (markets s) (oMarketID od)), eoPrice = i32 (oEnginePrice od),
         eoQuantity = u32 (oQuantity od), eoSide = oEngineSide od\<rparr>)"

text \<open>One call for the whole group, when the engine offers it and it is not disabled.\<close>

definition batchCall :: "EngineOrder list \<Rightarrow> ('e, 'p) Service \<Rightarrow> (goerror + EngineBatch) \<times> ('e, 'p) Service" where
  "batchCall commands s =
    (case EngineOf (cfg s) of
       None \<Rightarrow> (Inr \<lparr>ebResults = [], ebQuotes = []\<rparr>, s)
     | Some eng \<Rightarrow>
        (case AddOrders eng of
           None \<Rightarrow> (Inr \<lparr>ebResults = [], ebQuotes = []\<rparr>, s)
         | Some addOrders \<Rightarrow>
            (if DisableEngineBatch (cfg s) then (Inr \<lparr>ebResults = [], ebQuotes = []\<rparr>, s)
             else
               let (r, es) = addOrders (engineState s) commands;
                   t = s\<lparr>engineState := es\<rparr>;
                   r1 = (case r of
                           Inl e \<Rightarrow> Inl e
                         | Inr batch \<Rightarrow>
                            if length (ebResults batch) \<noteq> length commands
                            then Inl (New ''invalid engine batch result count'') else Inr batch)
               in case r1 of
                    Inl e \<Rightarrow> (let (f, u) = fail (Wrap ''matching engine batch'' e) t in (Inl (the f), u))
                  | Inr batch \<Rightarrow> (Inr batch, t))))"

text \<open>The result of one command: from the group call, or from a call of its own.\<close>

definition resultFor ::
  "EngineResult list \<Rightarrow> EngineOrder list \<Rightarrow> nat \<Rightarrow> 'e Engine \<Rightarrow> ('e, 'p) Service \<Rightarrow> (goerror + EngineResult) \<times> ('e, 'p) Service" where
  "resultFor results commands j eng s =
    (if results \<noteq> [] then (Inr (results ! j), s)
     else
       let c = commands ! j; (r, es) = AddOrder eng (engineState s) (eoSymbol c) (eoPrice c) (eoQuantity c) (eoSide c)
       in (r, s\<lparr>engineState := es\<rparr>))"

fun completeLoop ::
  "EngineResult list \<Rightarrow> EngineOrder list \<Rightarrow> nat \<Rightarrow> string list \<Rightarrow> (engineOrderKey, string) fmap \<Rightarrow>
   (string, Order) fmap \<Rightarrow> ('e, 'p) Service \<Rightarrow> (goerror + Event list) \<times> ('e, 'p) Service" where
  "completeLoop results commands j [] engineIDs staged s = (Inr [], s)"
| "completeLoop results commands j (k # ks) engineIDs staged s =
    (let od = (fmget Order0 (orders s) k)\<lparr>oStatus := Open\<rparr>
     in case EngineOf (cfg s) of
          None \<Rightarrow>
            (case completeLoop results commands (Suc j) ks engineIDs staged s of
               (Inl e, u) \<Rightarrow> (Inl e, u)
             | (Inr es, u) \<Rightarrow> (Inr (Event0\<lparr>eType := EventOrder, eOrder := od\<rparr> # es), u))
        | Some eng \<Rightarrow>
            (case resultFor results commands j eng s of
               (Inl e, t) \<Rightarrow> (let (f, u) = fail (Wrap ''matching engine batch'' e) t in (Inl (the f), u))
             | (Inr res, t) \<Rightarrow>
                (let od1 = od\<lparr>oEngineID := erOrderID res\<rparr>;
                     ids1 = fmupd (oMarketID od1, oEngineID od1) (oID od1) engineIDs;
                     (evs, staged1) = buildTradeEvents t (oMarketID od1) (erTrades res) ids1 (fmupd (oID od1) od1 staged)
                 in case completeLoop results commands (Suc j) ks ids1 staged1 t of
                      (Inl e, u) \<Rightarrow> (Inl e, u)
                    | (Inr es, u) \<Rightarrow> (Inr (Event0\<lparr>eType := EventOrder, eOrder := od1\<rparr> # evs @ es), u))))"

definition completeBatch :: "string list \<Rightarrow> ('e, 'p) Service \<Rightarrow> (goerror option \<times> MarketQuote list) \<times> ('e, 'p) Service" where
  "completeBatch ids s =
    (let commands = map (commandFor s) ids; ms = map (\<lambda>k. oMarketID (fmget Order0 (orders s) k)) ids
     in case batchCall commands s of
          (Inl e, t) \<Rightarrow> ((Some e, []), t)
        | (Inr batch, t) \<Rightarrow>
           (case completeLoop (ebResults batch) commands 0 ids fmempty fmempty t of
              (Inl e, u) \<Rightarrow> ((Some e, []), u)
            | (Inr completed, u) \<Rightarrow>
               (case commitMany completed u of
                  (Some e, v) \<Rightarrow> ((Some e, []), v)
                | (None, v) \<Rightarrow> (let (qs, w) = readQuotes ms (ebQuotes batch) v in ((None, qs), w)))))"

definition settleOutcomes :: "goerror option \<Rightarrow> admission \<Rightarrow> goerror option list" where
  "settleOutcomes r a =
    (let os1 = fold (\<lambda>i os. os[i := r]) (aAdmitted a) (aOutcomes a)
     in fold (\<lambda>i os. os[i := os ! fmget 0 (aAliases a) i]) (sorted_list_of_fset (fmdom (aAliases a))) os1)"

definition placeBatchWithQuotes ::
  "placement list \<Rightarrow> ('e, 'p) Service \<Rightarrow> (goerror option list \<times> MarketQuote list) \<times> ('e, 'p) Service" where
  "placeBatchWithQuotes requests s =
    (case failure s of
       Some e \<Rightarrow> ((replicate (length requests) (Some e), []), s)
     | None \<Rightarrow>
        (let a = admitAll s requests
         in if aAdmitted a = [] then ((aOutcomes a, []), s)
            else case commitMany (aInitial a) s of
                   (Some e, t) \<Rightarrow> ((settleOutcomes (Some e) a, []), t)
                 | (None, t) \<Rightarrow>
                    (let ((r, qs), u) = completeBatch (map (\<lambda>i. oID (plOrder (requests ! i))) (aAdmitted a)) t
                     in ((settleOutcomes r a, qs), u))))"

definition placeBatch :: "placement list \<Rightarrow> ('e, 'p) Service \<Rightarrow> goerror option list \<times> ('e, 'p) Service" where
  "placeBatch requests s = (let ((os, _), t) = placeBatchWithQuotes requests s in (os, t))"

section \<open>The queue and its worker\<close>

definition maxQueuedOrders :: nat where
  "maxQueuedOrders = 128"

text \<open>
  The queue beside the service: the waiting placements with the number of the client that waits
  for each, whether the worker runs, whether the service is closed, and the outcomes handed to
  the clients so far. \<open>enqueue\<close> is the part before the client waits; the client then gets the
  outcome the worker sends, or the error of its own context when that ends first.
\<close>

record ('e, 'p) queue =
  qService :: "('e, 'p) Service"
  qPending :: "(nat \<times> placement) list"
  qRunning :: bool
  qClosed :: bool
  qDone :: "(nat \<times> goerror option) list"

definition enqueue :: "nat \<Rightarrow> goerror option \<Rightarrow> placement \<Rightarrow> ('e, 'p) queue \<Rightarrow> goerror option \<times> ('e, 'p) queue" where
  "enqueue client ctxErr p q =
    (case ctxErr of
       Some e \<Rightarrow> (Some e, q)
     | None \<Rightarrow>
        (if qClosed q then (Some (New ''trading service is closed''), q)
         else if length (qPending q) \<ge> maxQueuedOrders then (Some ErrOrderQueueFull, q)
         else (None, q\<lparr>qPending := qPending q @ [(client, p)], qRunning := True\<rparr>)))"

text \<open>One round of the worker; \<open>None\<close> when it stops. \<open>min(len, size)\<close> of a size below 0 would panic: the configuration keeps it at least 1.\<close>

definition drainRound :: "('e, 'p) queue \<Rightarrow> ('e, 'p) queue option" where
  "drainRound q =
    (let n = min (length (qPending q)) (nat (OrderBatchSize (cfg (qService q))))
     in if n = 0 then None
        else
          let requests = take n (qPending q);
              ((outcomes, quotes), s) = placeBatchWithQuotes (map snd requests) (qService q)
          in Some (q\<lparr>qPending := drop n (qPending q), qService := publishQuotes quotes s,
                     qDone := qDone q @ zip (map fst requests) outcomes\<rparr>))"

partial_function (option) drainOrders :: "('e, 'p) queue \<Rightarrow> ('e, 'p) queue option" where
  "drainOrders q = (case drainRound q of None \<Rightarrow> Some (q\<lparr>qRunning := False\<rparr>) | Some q' \<Rightarrow> drainOrders q')"

text \<open>\<^verbatim>\<open>Place\<close>: a batch size of at most 1 bypasses the queue.\<close>

definition Place :: "nat \<Rightarrow> goerror option \<Rightarrow> placement \<Rightarrow> ('e, 'p) queue \<Rightarrow> goerror option \<times> ('e, 'p) queue" where
  "Place client ctxErr p q =
    (if OrderBatchSize (cfg (qService q)) > 1 then enqueue client ctxErr p q
     else let (r, s) = placeSingle ctxErr (plOrder p) (qService q) in (r, q\<lparr>qService := s\<rparr>))"

end
