(* ===== verification/Batch_Admission.thy ===== *)
theory Batch_Admission
  imports Batches
begin

text \<open>
  Admission of a batch: the aggregate reservations of the admitted placements never overdraw an
  account, also when the sums wrap, and the group of reservations keeps the books funded.
\<close>

lemma funded_bounds:
  assumes "funded D t"
  shows "in_i64 (Balance t u)" and "0 \<le> Balance t u"
    and "in_i64 (pYes (PositionOf t u m))" and "in_i64 (pNo (PositionOf t u m))"
proof -
  note nn = ledger_pos_nonneg [OF funded_pos [OF assms]]
  have v: "value_of t \<le> int64_max" "ledger_ok t" using assms by (simp_all add: funded_def)
  show "0 \<le> Balance t u" using nn(1) by (simp add: Balance_def)
  show "in_i64 (Balance t u)"
    using ledger_ok_in_range [OF v(2,1)] by (cases "fmlookup (balances t) u") (auto simp: ledger_in_range_def Balance_def fmget_def)
  show "in_i64 (pYes (PositionOf t u m))" "in_i64 (pNo (PositionOf t u m))"
    using position_le_value [OF v(2), of u m] v(1) nn(2,3) [of u m] by (auto simp: in_i64_def)
qed

section \<open>Amounts of a reservation\<close>

lemma reservation_amounts:
  fixes s :: "'a ledger_scheme"
  shows "Balance (ideal_all (reservationEvents od c) s) u =
      Balance s u + (if isBuy (oSide od) \<and> u = oUserID od then i64 (- c) else 0)"
    and "pYes (PositionOf (ideal_all (reservationEvents od c) s) u m) = pYes (PositionOf s u m) +
      (if \<not> isBuy (oSide od) \<and> u = oUserID od \<and> m = oMarketID od \<and> oSide od = SellYes then i64 (- oQuantity od) else 0)"
    and "pNo (PositionOf (ideal_all (reservationEvents od c) s) u m) = pNo (PositionOf s u m) +
      (if \<not> isBuy (oSide od) \<and> u = oUserID od \<and> m = oMarketID od \<and> oSide od \<noteq> SellYes then i64 (- oQuantity od) else 0)"
  by (auto simp: reservationEvents_def Let_def ideal_balance_def ideal_position_def Balance_def PositionOf_def
      fmget_def putOrder_def split: option.splits)

lemma reservation_events:
  assumes "reservationEvents od c = first # rest"
  shows "eOrder first = od" and "eAmount first = (if isBuy (oSide od) then i64 (- c) else 0)"
    and "first\<lparr>eOrder := od\<lparr>oSequence := n\<rparr>\<rparr> # rest = reservationEvents (od\<lparr>oSequence := n\<rparr>) c"
    and "\<not> isBuy (oSide od) \<Longrightarrow> eYesDelta (hd rest) = (if oSide od = SellYes then i64 (- oQuantity od) else 0)"
    and "\<not> isBuy (oSide od) \<Longrightarrow> eNoDelta (hd rest) = (if oSide od = SellYes then 0 else i64 (- oQuantity od))"
  using assms by (auto simp: reservationEvents_def Let_def split: if_splits)

lemma order_ok_sequence [simp]: "order_ok k (od\<lparr>oSequence := n\<rparr>) = order_ok k od"
  by (simp add: order_ok_def live_def)

section \<open>The invariant of the loop\<close>

definition admittedIDs :: "placement list \<Rightarrow> admission \<Rightarrow> string list" where
  "admittedIDs requests a = map (\<lambda>i. oID (plOrder (requests ! i))) (aAdmitted a)"

definition waiting :: "string \<Rightarrow> Order \<Rightarrow> bool" where
  "waiting k od \<longleftrightarrow> oID od = k \<and> oStatus od = Pending \<and> oFilledQuantity od = 0 \<and> oEngineID od = 0"

definition admissionOk ::
  "int \<Rightarrow> ('e, 'p) Service \<Rightarrow> placement list \<Rightarrow> (string \<Rightarrow> restBook) \<Rightarrow> admission \<Rightarrow> bool" where
  "admissionOk D s requests books a \<longleftrightarrow>
    (let t = ideal_all (aInitial a) (book s); ids = admittedIDs requests a
     in funded D t \<and> wellFormed t \<and> coupled books t \<and> markets t = markets s \<and>
        (\<forall>u. fmget 0 (aCash a) u = i64 (Balance t u - Balance s u)) \<and>
        (\<forall>u m. fmget Position0 (aShares a) (u, m) =
           \<lparr>pYes = i64 (pYes (PositionOf t u m) - pYes (PositionOf s u m)),
            pNo = i64 (pNo (PositionOf t u m) - pNo (PositionOf s u m))\<rparr>) \<and>
        distinct ids \<and> fmdom' (aByID a) = set ids \<and>
        (\<forall>k. k \<notin> set ids \<longrightarrow> fmlookup (orders t) k = fmlookup (orders s) k) \<and>
        (\<forall>k\<in>set ids. \<exists>od. fmlookup (orders t) k = Some od \<and> waiting k od))"

lemma admissionOk_frame [simp]:
  "admissionOk D s requests books (setOutcome i r a) = admissionOk D s requests books a"
  "admissionOk D s requests books (a\<lparr>aAliases := x\<rparr>) = admissionOk D s requests books a"
  by (simp_all add: admissionOk_def admittedIDs_def setOutcome_def)

lemma admission_start:
  assumes "funded D s" and "wellFormed s" and "coupled books s"
  shows "admissionOk D s requests books (admission0 n)"
  using assms by (simp add: admissionOk_def admission0_def admittedIDs_def Balance_def PositionOf_def Position0_def)

lemma admissionOkD:
  assumes "admissionOk D s requests books a"
  defines "t \<equiv> ideal_all (aInitial a) (book s)" and "ids \<equiv> admittedIDs requests a"
  shows "funded D t" and "wellFormed t" and "coupled books t" and "markets t = markets s"
    and "fmget 0 (aCash a) u = i64 (Balance t u - Balance s u)"
    and "fmget Position0 (aShares a) (u, m) =
      \<lparr>pYes = i64 (pYes (PositionOf t u m) - pYes (PositionOf s u m)),
       pNo = i64 (pNo (PositionOf t u m) - pNo (PositionOf s u m))\<rparr>"
    and "distinct ids" and "fmdom' (aByID a) = set ids"
    and "k \<notin> set ids \<Longrightarrow> fmlookup (orders t) k = fmlookup (orders s) k"
    and "k \<in> set ids \<Longrightarrow> \<exists>od. fmlookup (orders t) k = Some od \<and> waiting k od"
  using assms(1) unfolding admissionOk_def Let_def t_def ids_def by blast+

text \<open>Sums of 64-bit values that wrap still compare rightly, since the total fits.\<close>

lemma i64_cancel: "i64 (a + i64 (i64 (b - a) + c)) = i64 (b + c)"
proof -
  have "i64 (a + i64 (i64 (b - a) + c)) = i64 (a + (b - a + c))" by simp
  then show ?thesis by (simp add: algebra_simps)
qed

lemma overdraw:
  assumes "in_i64 b" and "0 \<le> b" and "0 \<le> c" and "c \<le> 4294967296 * 100" and "\<not> i64 (b + - c) < 0"
  shows "c \<le> b"
  using assms i64_id [of "b + - c"] by (auto simp: in_i64_def)

text \<open>The facts about one placement that passes all checks.\<close>

definition admits ::
  "('e, 'p) Service \<Rightarrow> placement list \<Rightarrow> admission \<Rightarrow> nat \<Rightarrow> Order \<Rightarrow> Event \<Rightarrow> Event list \<Rightarrow> int \<Rightarrow> Position \<Rightarrow> bool" where
  "admits s requests a i od first rest c sh \<longleftrightarrow>
    submission od \<and> od = plOrder (requests ! i) \<and> prepareOrder s od = Inr (first # rest) \<and>
    fmlookup (aByID a) (oID od) = None \<and>
    c = i64 (fmget 0 (aCash a) (oUserID od) + eAmount first) \<and> \<not> i64 (Balance s (oUserID od) + c) < 0 \<and>
    (isBuy (oSide od) \<longrightarrow> sh = fmget Position0 (aShares a) (oUserID od, oMarketID od)) \<and>
    (\<not> isBuy (oSide od) \<longrightarrow> sh = addShares (hd rest) (fmget Position0 (aShares a) (oUserID od, oMarketID od)) \<and>
      \<not> i64 (pYes (PositionOf s (oUserID od) (oMarketID od)) + pYes sh) < 0 \<and>
      \<not> i64 (pNo (PositionOf s (oUserID od) (oMarketID od)) + pNo sh) < 0)"

lemma admitsD:
  assumes "admits s requests a i od first rest c sh"
  shows "submission od" and "od = plOrder (requests ! i)" and "prepareOrder s od = Inr (first # rest)"
    and "fmlookup (aByID a) (oID od) = None"
    and "c = i64 (fmget 0 (aCash a) (oUserID od) + eAmount first)" and "\<not> i64 (Balance s (oUserID od) + c) < 0"
    and "isBuy (oSide od) \<Longrightarrow> sh = fmget Position0 (aShares a) (oUserID od, oMarketID od)"
    and "\<not> isBuy (oSide od) \<Longrightarrow> sh = addShares (hd rest) (fmget Position0 (aShares a) (oUserID od, oMarketID od))"
    and "\<not> isBuy (oSide od) \<Longrightarrow> \<not> i64 (pYes (PositionOf s (oUserID od) (oMarketID od)) + pYes sh) < 0"
    and "\<not> isBuy (oSide od) \<Longrightarrow> \<not> i64 (pNo (PositionOf s (oUserID od) (oMarketID od)) + pNo sh) < 0"
  using assms unfolding admits_def by blast+

text \<open>The reservation it adds, with the amounts as the loop reads them off the events.\<close>

lemma admits_reservation:
  assumes "admits s requests a i od first rest cc sh"
  obtains new mk c where
    "first\<lparr>eOrder := (eOrder first)\<lparr>oSequence := (sequence s + length (aInitial a) + 1) mod 2 ^ 64\<rparr>\<rparr> # rest = reservationEvents new c"
    "oID new = oID od" "oMarketID new = oMarketID od" "oUserID new = oUserID od" "oSide new = oSide od"
    "waiting (oID od) new" "order_ok (oID od) new" "fmlookup (orders s) (oID od) = None"
    "fmlookup (markets s) (oMarketID od) = Some mk" "mStatus mk = Open"
    "c = oPrice new * oQuantity new" "0 \<le> c" "c \<le> 4294967296 * 100" "0 < oQuantity new" "oQuantity new \<le> uint32_max"
    "eAmount first = (if isBuy (oSide od) then - c else 0)" "i64 (- c) = - c" "i64 (- oQuantity new) = - oQuantity new"
    "\<not> isBuy (oSide od) \<longrightarrow> eYesDelta (hd rest) = (if oSide od = SellYes then - oQuantity new else 0)"
    "\<not> isBuy (oSide od) \<longrightarrow> eNoDelta (hd rest) = (if oSide od = SellYes then 0 else - oQuantity new)"
proof -
  note prep = admitsD(3) [OF assms] and sub = admitsD(1) [OF assms]
  obtain price side od' mk where p:
    "fmlookup (orders s) (oID od) = None" "fmlookup (markets s) (oMarketID od) = Some mk" "mStatus mk = Open"
    "translate (oSide od) (oPrice od) = Inr (price, side)"
    "od' = od\<lparr>oEnginePrice := price, oEngineSide := side, oStatus := Pending, oSequence := (sequence s + 1) mod 2 ^ 64\<rparr>"
    "order_ok (oID od) od'" "first # rest = reservationEvents od' (oPrice od * oQuantity od)"
    "isBuy (oSide od) \<longrightarrow> oPrice od * oQuantity od \<le> Balance s (oUserID od)"
    "oSide od = SellYes \<longrightarrow> oQuantity od \<le> pYes (PositionOf s (oUserID od) (oMarketID od))"
    "oSide od = SellNo \<longrightarrow> oQuantity od \<le> pNo (PositionOf s (oUserID od) (oMarketID od))"
    by (rule prepareOrder_admits [OF prep _ sub]) simp
  define n where "n = (sequence s + length (aInitial a) + 1) mod 2 ^ 64"
  define new where "new = od'\<lparr>oSequence := n\<rparr>"
  define c where "c = oPrice od * oQuantity od"
  have eq: "oID new = oID od" "oMarketID new = oMarketID od" "oUserID new = oUserID od" "oSide new = oSide od"
      "oPrice new = oPrice od" "oQuantity new = oQuantity od" "waiting (oID od) new" "oSide od' = oSide od" "oQuantity od' = oQuantity od"
    using p(5) sub by (simp_all add: new_def submission_def waiting_def)
  have okn: "order_ok (oID od) new" using p(6) by (simp add: new_def)
  have q: "0 < oQuantity od" "oQuantity od \<le> uint32_max" "1 \<le> oPrice od" "oPrice od \<le> 99"
    using okn order_ok_price [OF okn] eq by (auto simp: order_ok_def)
  have "c \<le> 99 * uint32_max" unfolding c_def using q by (intro mult_mono) simp_all
  then have c: "0 \<le> c" "c \<le> 4294967296 * 100" using q by (simp_all add: c_def)
  have neg: "i64 (- c) = - c" "i64 (- oQuantity od) = - oQuantity od" using c q by (auto intro!: i64_id simp: in_i64_def)
  note ev = reservation_events [OF p(7) [symmetric], folded c_def]
  have "first\<lparr>eOrder := (eOrder first)\<lparr>oSequence := n\<rparr>\<rparr> # rest = reservationEvents new c"
    unfolding ev(1) new_def by (rule ev(3))
  then show thesis
    using that [of new c mk] ev(2,4,5) neg c eq okn p(1-3) q unfolding n_def [symmetric] by (simp add: c_def)
qed

lemma admits_covered:
  assumes ok: "admissionOk D s requests books a" and "admits s requests a i od first rest cc sh"
    and r: "oUserID new = oUserID od" "oSide new = oSide od" "oMarketID new = oMarketID od"
      "c \<le> 4294967296 * 100" "0 \<le> c" "0 < oQuantity new" "oQuantity new \<le> uint32_max"
      "eAmount first = (if isBuy (oSide od) then - c else 0)"
      "\<not> isBuy (oSide od) \<longrightarrow> eYesDelta (hd rest) = (if oSide od = SellYes then - oQuantity new else 0)"
      "\<not> isBuy (oSide od) \<longrightarrow> eNoDelta (hd rest) = (if oSide od = SellYes then 0 else - oQuantity new)"
  defines "t \<equiv> ideal_all (aInitial a) (book s)"
  shows "isBuy (oSide new) \<Longrightarrow> c \<le> Balance t (oUserID new)"
    and "oSide new = SellYes \<Longrightarrow> oQuantity new \<le> pYes (PositionOf t (oUserID new) (oMarketID new))"
    and "oSide new = SellNo \<Longrightarrow> oQuantity new \<le> pNo (PositionOf t (oUserID new) (oMarketID new))"
proof -
  note A = admissionOkD [OF ok, folded t_def]
  note b = admitsD [OF assms(2)]
  note range = funded_bounds [OF A(1)] ledger_pos_nonneg [OF funded_pos [OF A(1)]]
  show "c \<le> Balance t (oUserID new)" if "isBuy (oSide new)"
  proof -
    have cc: "cc = i64 (i64 (Balance t (oUserID od) - Balance s (oUserID od)) + - c)"
      using that r(2,8) by (simp only: b(5) A(5) if_True simp_thms)
    show ?thesis
      unfolding r(1) by (rule overdraw [OF range(1,2) r(5,4) b(6) [unfolded cc i64_cancel]])
  qed
  show "oQuantity new \<le> pYes (PositionOf t (oUserID new) (oMarketID new))" if sy: "oSide new = SellYes"
  proof -
    have nb: "\<not> isBuy (oSide od)" using sy r(2) by (simp add: isBuy_def)
    have y: "pYes sh = i64 (i64 (pYes (PositionOf t (oUserID od) (oMarketID od)) - pYes (PositionOf s (oUserID od) (oMarketID od)))
        + - oQuantity new)"
      using b(8) [OF nb] r(2) mp [OF r(9) nb] sy by (simp only: addShares_def A(6) Position.simps if_True simp_thms)
    show ?thesis
      unfolding r(1,3) using r(6,7) by (intro overdraw [OF range(3,6) _ _ b(9) [OF nb, unfolded y i64_cancel]]) simp_all
  qed
  show "oQuantity new \<le> pNo (PositionOf t (oUserID new) (oMarketID new))" if sn: "oSide new = SellNo"
  proof -
    have nb: "\<not> isBuy (oSide od)" "oSide od \<noteq> SellYes" using sn r(2) by (simp_all add: isBuy_def)
    have y: "pNo sh = i64 (i64 (pNo (PositionOf t (oUserID od) (oMarketID od)) - pNo (PositionOf s (oUserID od) (oMarketID od)))
        + - oQuantity new)"
      using b(8) [OF nb(1)] mp [OF r(10) nb(1)] nb(2) by (simp only: addShares_def A(6) Position.simps if_False simp_thms)
    show ?thesis
      unfolding r(1,3) using r(6,7) by (intro overdraw [OF range(4,7) _ _ b(10) [OF nb(1), unfolded y i64_cancel]]) simp_all
  qed
qed

lemma fmdom'_None: "k \<notin> fmdom' m \<longleftrightarrow> fmlookup m k = None"
  by (simp add: fmlookup_dom'_iff)

lemma admits_effect:
  assumes ok: "admissionOk D s requests books a" and ad: "admits s requests a i od first rest cc sh"
  defines "t \<equiv> ideal_all (aInitial a) (book s)"
  obtains new c u where
    "first\<lparr>eOrder := (eOrder first)\<lparr>oSequence := (sequence s + length (aInitial a) + 1) mod 2 ^ 64\<rparr>\<rparr> # rest = reservationEvents new c"
    "waiting (oID od) new" "oID od \<notin> set (admittedIDs requests a)" "u = ideal_all (reservationEvents new c) t"
    "funded D u" "wellFormed u" "coupled books u" "orders u = fmupd (oID od) new (orders t)" "markets u = markets s"
    "\<forall>v. Balance u v = Balance t v + (if v = oUserID od then eAmount first else 0)"
    "\<forall>v m. pYes (PositionOf u v m) = pYes (PositionOf t v m) +
      (if \<not> isBuy (oSide od) \<and> v = oUserID od \<and> m = oMarketID od then eYesDelta (hd rest) else 0)"
    "\<forall>v m. pNo (PositionOf u v m) = pNo (PositionOf t v m) +
      (if \<not> isBuy (oSide od) \<and> v = oUserID od \<and> m = oMarketID od then eNoDelta (hd rest) else 0)"
proof -
  note A = admissionOkD [OF ok, folded t_def]
  obtain new mk c where r:
    "first\<lparr>eOrder := (eOrder first)\<lparr>oSequence := (sequence s + length (aInitial a) + 1) mod 2 ^ 64\<rparr>\<rparr> # rest = reservationEvents new c"
    "oID new = oID od" "oMarketID new = oMarketID od" "oUserID new = oUserID od" "oSide new = oSide od"
    "waiting (oID od) new" "order_ok (oID od) new" "fmlookup (orders s) (oID od) = None"
    "fmlookup (markets s) (oMarketID od) = Some mk" "mStatus mk = Open"
    "c = oPrice new * oQuantity new" "0 \<le> c" "c \<le> 4294967296 * 100" "0 < oQuantity new" "oQuantity new \<le> uint32_max"
    "eAmount first = (if isBuy (oSide od) then - c else 0)" "i64 (- c) = - c" "i64 (- oQuantity new) = - oQuantity new"
    "\<not> isBuy (oSide od) \<longrightarrow> eYesDelta (hd rest) = (if oSide od = SellYes then - oQuantity new else 0)"
    "\<not> isBuy (oSide od) \<longrightarrow> eNoDelta (hd rest) = (if oSide od = SellYes then 0 else - oQuantity new)"
    by (rule admits_reservation [OF ad])
  note cov = admits_covered [OF ok ad r(4,5,3,13,12,14-16,19,20), folded t_def]
  have free: "oID od \<notin> set (admittedIDs requests a)" using admitsD(4) [OF ad] A(8) fmdom'_None by metis
  have fresh: "fmlookup (orders t) (oID new) = None" using A(9) [OF free] r(2,8) by simp
  have w: "oStatus new = Pending" "oFilledQuantity new = 0" "oEngineID new = 0" using r(6) by (simp_all add: waiting_def)
  define u where "u = ideal_all (reservationEvents new c) t"
  have okn: "order_ok (oID new) new" using r(7) by (simp only: r(2))
  have f: "funded D u"
    unfolding u_def r(11) by (rule reservation_ideal [OF okn w(1,2) fresh A(1) cov [unfolded r(11)]])
  have mk: "fmlookup (markets t) (oMarketID new) = Some mk" using r(3,9) A(4) by simp
  have st: "wellFormed u" "coupled books u"
    unfolding u_def by (rule reservation_structure(1) [OF A(2) fresh w(3) mk r(10)],
      rule reservation_structure(2) [OF A(2) fresh w(3) mk r(10) A(3)])
  have o: "orders u = fmupd (oID od) new (orders t)" "markets u = markets s"
    using A(4) by (simp_all add: u_def reservation_orders r(2))
  note am = reservation_amounts [of new c t, folded u_def, unfolded r(3-5,17,18)]
  show thesis
    by (rule that [OF r(1,6) free u_def f st o]) (use am r(16,19,20) in auto)
qed

lemma admit_keeps:
  assumes ok: "admissionOk D s requests books a" and ad: "admits s requests a i od first rest cc sh"
  shows "admissionOk D s requests books (admit s i od first rest cc sh a)"
proof -
  define t where "t = ideal_all (aInitial a) (book s)"
  note A = admissionOkD [OF ok, folded t_def]
  obtain new c u where e:
    "first\<lparr>eOrder := (eOrder first)\<lparr>oSequence := (sequence s + length (aInitial a) + 1) mod 2 ^ 64\<rparr>\<rparr> # rest = reservationEvents new c"
    "waiting (oID od) new" "oID od \<notin> set (admittedIDs requests a)" "u = ideal_all (reservationEvents new c) t"
    "funded D u" "wellFormed u" "coupled books u" "orders u = fmupd (oID od) new (orders t)" "markets u = markets s"
    "\<forall>v. Balance u v = Balance t v + (if v = oUserID od then eAmount first else 0)"
    "\<forall>v m. pYes (PositionOf u v m) = pYes (PositionOf t v m) +
      (if \<not> isBuy (oSide od) \<and> v = oUserID od \<and> m = oMarketID od then eYesDelta (hd rest) else 0)"
    "\<forall>v m. pNo (PositionOf u v m) = pNo (PositionOf t v m) +
      (if \<not> isBuy (oSide od) \<and> v = oUserID od \<and> m = oMarketID od then eNoDelta (hd rest) else 0)"
    unfolding t_def by (rule admits_effect [OF ok ad])
  let ?a = "admit s i od first rest cc sh a"
  have a: "ideal_all (aInitial ?a) (book s) = u" "admittedIDs requests ?a = admittedIDs requests a @ [oID od]"
      "fmdom' (aByID ?a) = insert (oID od) (fmdom' (aByID a))"
    using admitsD(2) [OF ad] e(1,4) by (simp_all add: admit_def admittedIDs_def t_def)
  have cash: "fmget 0 (aCash ?a) v = i64 (Balance u v - Balance s v)" for v
    using admitsD(5) [OF ad] e(10) by (simp add: admit_def A(5) algebra_simps)
  have sh: "fmget Position0 (aShares ?a) (v, m) = \<lparr>pYes = i64 (pYes (PositionOf u v m) - pYes (PositionOf s v m)),
      pNo = i64 (pNo (PositionOf u v m) - pNo (PositionOf s v m))\<rparr>" for v m
    using admitsD(7,8) [OF ad] e(11,12) by (cases "isBuy (oSide od)") (simp_all add: admit_def A(6) addShares_def algebra_simps)
  have ids: "\<exists>x. fmlookup (orders u) k = Some x \<and> waiting k x" if "k \<in> set (admittedIDs requests a @ [oID od])" for k
    using that A(10) [of k] e(2,3,8) by (cases "k = oID od") simp_all
  show ?thesis
    unfolding admissionOk_def Let_def a using e(3,5-9) cash sh A(7-9) ids by simp
qed

lemma admitOne_keeps:
  assumes "admissionOk D s requests books a" and "submission (plOrder (requests ! i))"
  shows "admissionOk D s requests books (admitOne s requests i a)"
proof -
  let ?od = "plOrder (requests ! i)"
  have step: "admissionOk D s requests books (admit s i ?od first rest cc sh a)"
    if "admits s requests a i ?od first rest cc sh" for first rest cc sh
    by (rule admit_keeps [OF assms(1) that])
  show ?thesis
    using assms by (auto simp: admitOne_def Let_def admits_def intro!: step split: option.splits sum.splits list.splits)
qed

lemma admitAll_ok:
  assumes "funded D s" and "wellFormed s" and "coupled books s"
    and "\<And>p. p \<in> set requests \<Longrightarrow> submission (plOrder p)"
  shows "admissionOk D s requests books (admitAll s requests)"
proof -
  have "admissionOk D s requests books (fold (admitOne s requests) is a)"
    if "admissionOk D s requests books a" "set is \<subseteq> {..<length requests}" for "is" a
    using that
  proof (induction "is" arbitrary: a)
    case (Cons i "is")
    then have "submission (plOrder (requests ! i))" using assms(4) by simp
    then show ?case using Cons admitOne_keeps [of D s requests books a i] by simp
  qed simp
  then show ?thesis unfolding admitAll_def using admission_start [OF assms(1-3)] by (simp add: atLeast0LessThan)
qed

end
