(* ===== verification/Batch_Completion.thy ===== *)
theory Batch_Completion
  imports Batch_Admission
begin

text \<open>
  Completion of a batch: the orders of the group enter the engine one after the other, each
  seeing the fills of the earlier ones through the staged copies. The theory proves that the
  events of the whole group keep the books funded and the engine coupled to the ledger, that
  every operation on the queue keeps the invariant of the service, and that the worker stops.
\<close>

section \<open>Staged completion\<close>

lemma advances_shrinks: "advances m os os' \<Longrightarrow> shrinks os os'"
  unfolding shrinks_def
proof (intro allI impI)
  fix h od' m' i assume a: "advances m os os'" "fmlookup os' h = Some od'" "restingAs m' i od'"
  obtain od where "fmlookup os h = Some od" "laterThan m od od'" by (rule advancesE [OF a(1,2)])
  then show "\<exists>od. fmlookup os h = Some od \<and> restingAs m' i od"
    using a(3) by (auto simp: laterThan_def restingAs_def)
qed

lemma finds_enter:
  assumes "\<And>m. finds (lookupEngine s ov m) m os" and "\<And>h x. fmlookup os h = Some x \<Longrightarrow> \<not> restingAs m i x"
    and "oMarketID od = m" and "oEngineID od = i" and "\<And>m' j. fmlookup os k = Some old \<Longrightarrow> \<not> restingAs m' j old"
  shows "finds (lookupEngine s (fmupd (m, i) k ov) m') m' (fmupd k od os)"
  unfolding finds_def
proof (intro allI impI)
  fix h x j assume h: "fmlookup (fmupd k od os) h = Some x" "restingAs m' j x"
  show "lookupEngine s (fmupd (m, i) k ov) m' j = Some h"
  proof (cases "h = k")
    case True
    then have "j = i" "m' = m" using h assms(3,4) by (auto simp: restingAs_def)
    then show ?thesis using True by (simp add: lookupEngine_def)
  next
    case False
    then have x: "fmlookup os h = Some x" using h(1) by simp
    then have "(m', j) \<noteq> (m, i)" using assms(2) h(2) by blast
    then show ?thesis using findsD [OF assms(1) x h(2)] by (auto simp: lookupEngine_def)
  qed
qed

definition stageOk ::
  "int \<Rightarrow> 'a ledger_scheme \<Rightarrow> (string \<Rightarrow> restBook) \<Rightarrow> string list \<Rightarrow> (engineOrderKey, string) fmap \<Rightarrow>
   (string, Order) fmap \<Rightarrow> ledger \<Rightarrow> bool" where
  "stageOk D s books ks ov staged l \<longleftrightarrow>
    funded D l \<and> wellFormed l \<and> coupled books l \<and> agrees s staged l \<and> markets l = markets s \<and>
    (\<forall>m. finds (lookupEngine s ov m) m (orders l)) \<and> distinct ks \<and>
    (\<forall>k\<in>set ks. \<exists>od. fmlookup (orders s) k = Some od \<and> waiting k od \<and> fmlookup (orders l) k = Some od) \<and>
    (\<forall>k od. fmlookup (orders l) k = Some od \<longrightarrow> k \<notin> set ks \<longrightarrow>
       oStatus od \<noteq> Pending \<and> (live od \<longrightarrow> oEngineID od \<noteq> 0))"

lemma stageOkD:
  assumes "stageOk D s books ks ov staged l"
  shows "funded D l" and "wellFormed l" and "coupled books l" and "agrees s staged l" and "markets l = markets s"
    and "finds (lookupEngine s ov m) m (orders l)" and "distinct ks"
    and "k \<in> set ks \<Longrightarrow> \<exists>od. fmlookup (orders s) k = Some od \<and> waiting k od \<and> fmlookup (orders l) k = Some od"
    and "fmlookup (orders l) k = Some od \<Longrightarrow> k \<notin> set ks \<Longrightarrow> oStatus od \<noteq> Pending \<and> (live od \<longrightarrow> oEngineID od \<noteq> 0)"
  using assms unfolding stageOk_def by blast+

lemma stageOk_cong:
  assumes "orders t = orders s" and "engineOrders t = engineOrders s" and "markets t = markets s"
  shows "stageOk D t books ks ov staged l = stageOk D s books ks ov staged l"
proof -
  have "lookupEngine t = lookupEngine s" by (simp add: lookupEngine_def fun_eq_iff assms(2) split: option.split)
  moreover have "agrees t staged l = agrees s staged l" unfolding agrees_def assms(1) ..
  ultimately show ?thesis by (simp add: stageOk_def assms)
qed

lemma indexed_enter:
  assumes "indexed l" and "fmlookup (orders l) k = Some od" and "oID od = k" and "live od" and "oEngineID od = 0"
    and "\<And>h x. fmlookup (orders l) h = Some x \<Longrightarrow> \<not> restingAs (oMarketID od) (erOrderID res) x"
  shows "indexed (ideal_balance [] 0 (putOrder (entered od res Open) l))"
proof (rule indexed_frame [THEN iffD2, OF _ _ indexed_putOrder])
  show "live old \<or> oEngineID old = 0" if "fmlookup (orders l) (oID (entered od res Open)) = Some old" for old
    using that assms(2-4) by simp
  show "h = oID (entered od res Open)"
    if "restingAs m i (entered od res Open)" "fmlookup (orders l) h = Some old" "restingAs m i old" for m i h old
    using that assms(6) [of h old] by (auto simp: restingAs_def)
qed (use assms(1) in simp_all)

text \<open>The orders that still wait are untouched; the others have entered.\<close>

lemma stage_orders:
  assumes ok: "stageOk D s books (k # ks) ov staged l"
    and adv: "advances m (fmupd k od1 (orders l)) os" and un: "untouched (fmupd k od1 (orders l)) os"
  shows "h \<in> set ks \<Longrightarrow> \<exists>x. fmlookup (orders s) h = Some x \<and> waiting h x \<and> fmlookup os h = Some x"
    and "fmlookup os h = Some x \<Longrightarrow> h \<notin> set ks \<Longrightarrow> oStatus od1 = Open \<Longrightarrow> oEngineID od1 \<noteq> 0 \<Longrightarrow>
      oStatus x \<noteq> Pending \<and> (live x \<longrightarrow> oEngineID x \<noteq> 0)"
proof -
  note A = stageOkD [OF ok]
  show "\<exists>x. fmlookup (orders s) h = Some x \<and> waiting h x \<and> fmlookup os h = Some x" if h: "h \<in> set ks"
  proof -
    obtain x where x: "fmlookup (orders s) h = Some x" "waiting h x" "fmlookup (orders l) h = Some x"
      using A(8) [of h] h by auto
    have "fmlookup (fmupd k od1 (orders l)) h = Some x" "oEngineID x = 0" using x A(7) h by (auto simp: waiting_def)
    then show ?thesis using x un unfolding untouched_def by blast
  qed
  show "oStatus x \<noteq> Pending \<and> (live x \<longrightarrow> oEngineID x \<noteq> 0)"
    if x: "fmlookup os h = Some x" "h \<notin> set ks" "oStatus od1 = Open" "oEngineID od1 \<noteq> 0"
  proof -
    obtain y where y: "fmlookup (fmupd k od1 (orders l)) h = Some y" "laterThan m y x" by (rule advancesE [OF adv x(1)])
    have "oStatus y \<noteq> Pending \<and> (live y \<longrightarrow> oEngineID y \<noteq> 0)"
      using y(1) x(2-4) A(9) [of h y] by (cases "h = k") auto
    then show ?thesis using y(2) by (auto simp: laterThan_def)
  qed
qed

lemma stage_step:
  assumes ok: "stageOk D s books (k # ks) ov staged l"
    and od: "fmlookup (orders s) k = Some od" and mk: "fmlookup (markets s) (oMarketID od) = Some mk"
    and match: "matchBook (books (mSymbol mk)) (oEngineSide od) (oEnginePrice od) (nat (remaining od)) res = Some (books' (mSymbol mk))"
    and rest: "\<forall>other. other \<noteq> mSymbol mk \<longrightarrow> books' other = books other"
  defines "od1 \<equiv> entered od res Open" and "ov1 \<equiv> fmupd (oMarketID od, erOrderID res) k ov"
  defines "r \<equiv> buildTradeEvents s (oMarketID od) (erTrades res) ov1 (fmupd k od1 staged)"
  shows "stageOk D s books' ks ov1 (snd r) (ideal_all (Event0\<lparr>eType := EventOrder, eOrder := od1\<rparr> # fst r) l)"
proof -
  note A = stageOkD [OF ok]
  let ?m = "oMarketID od" and ?look = "lookupEngine s ov1 (oMarketID od)" and ?os = "fmupd k od1 (orders l)"
  have w: "waiting k od" "fmlookup (orders l) k = Some od" using A(8) [of k] od by auto
  then have live: "live od" "oEngineID od = 0" "oID od = k" by (simp_all add: waiting_def live_def)
  have mkl: "fmlookup (markets l) ?m = Some mk" using mk A(5) by simp
  note eb = enter_books [OF A(1-3) w(2) live(1,2) mkl match rest disjI1 [OF refl], folded od1_def]
  have id: "oID od1 = k" "oMarketID od1 = ?m" "oEngineID od1 = erOrderID res" using live(3) by (simp_all add: od1_def)
  have fnd: "finds (lookupEngine s ov1 m') m' ?os" for m'
    unfolding ov1_def using w(2) live(2) by (intro finds_enter [OF A(6) eb(2) id(2,3)]) (auto simp: restingAs_def)
  define l0 where "l0 = ideal_balance [] 0 (putOrder od1 l)"
  have re: "restated od od1" unfolding od1_def by (rule entered_restated [OF live(1) disjI1 [OF refl]])
  have l0: "funded D l0" "orders l0 = ?os" "markets l0 = markets l"
    using putOrder_restated [OF w(2) re A(1), of "[]"] id(1) by (simp_all add: l0_def)
  have ix: "indexed l0"
    unfolding l0_def od1_def using A(2) eb(2) by (intro indexed_enter [OF _ w(2) live(3,1,2)]) (auto simp: wellFormed_def)
  have ag: "agrees s (fmupd k od1 staged) l0" using A(4) l0(2) by (simp add: agrees_def)
  have valid: "validTrades ?look ?m (orders l0) (erTrades res)" using eb(3) [OF fnd] l0(2) by simp
  note tr = trades_ideal [OF valid ag funded_pos [OF l0(1)], folded r_def]
  note eff = trades_effect [OF valid ag funded_pos [OF l0(1)] ix, folded r_def]
  define l1 where "l1 = ideal_all (fst r) l0"
  have o1: "orders l1 = fillAll ?look ?os (erTrades res)" "markets l1 = markets l"
    using eff tr l0(2,3) by (simp_all add: l1_def)
  have f: "funded D l1" using tr l0(1) by (intro fundedI) (auto simp: l1_def funded_def ledger_ok_def)
  have st: "coupled books' l1" "liveInOpen l1" using eb(4) [OF fnd o1] by simp_all
  have wf: "wellFormed l1" using eff st(2) A(2) o1(2) by (simp add: l1_def wellFormed_def marketsOk_def)
  have adv: "advances ?m ?os (orders l1)" unfolding o1(1) by (rule fillAll_advances [OF eb(3) [OF fnd]])
  have look: "finds (lookupEngine s ov1 m') m' (orders l1)" for m'
    by (rule shrinks_finds [OF advances_shrinks [OF adv] fnd])
  have un: "untouched ?os (orders l1)" unfolding o1(1) by (rule eb(5) [OF fnd])
  note so = stage_orders [OF ok adv un]
  have "ideal_all (Event0\<lparr>eType := EventOrder, eOrder := od1\<rparr> # fst r) l = l1" by (simp add: l1_def l0_def)
  then show ?thesis
    using f wf st(1) tr A(5,7) o1(2) look so eb(1) by (simp add: stageOk_def l1_def od1_def)
qed

section \<open>The loop over the admitted orders\<close>

text \<open>The head of the waiting list, and the command built for it.\<close>

lemma stage_head:
  assumes "stageOk D s books (k # ks) ov staged l"
  obtains od mk where "fmlookup (orders s) k = Some od" "fmlookup (markets s) (oMarketID od) = Some mk" "waiting k od"
    "order_ok k od" "commandFor s k = \<lparr>eoSymbol = mSymbol mk, eoPrice = oEnginePrice od, eoQuantity = nat (remaining od), eoSide = oEngineSide od\<rparr>"
proof -
  note A = stageOkD [OF assms]
  obtain od where od: "fmlookup (orders s) k = Some od" "waiting k od" "fmlookup (orders l) k = Some od" using A(8) [of k] by auto
  have ok: "order_ok k od" using funded_ordersOk [OF A(1)] od(3) by (simp add: ordersOk_def)
  have "live od" using od(2) by (simp add: waiting_def live_def)
  then obtain mk where mk: "fmlookup (markets s) (oMarketID od) = Some mk"
    using A(2,5) od(3) unfolding wellFormed_def liveInOpen_def by metis
  have q: "oQuantity od = remaining od" using od(2) by (simp add: waiting_def remaining_def)
  have "i32 (oEnginePrice od) = oEnginePrice od" "u32 (oQuantity od) = nat (remaining od)"
    using order_ok_enginePrice [OF ok] ok q by (auto simp: order_ok_def intro!: i32_id u32_id)
  then have "commandFor s k = \<lparr>eoSymbol = mSymbol mk, eoPrice = oEnginePrice od, eoQuantity = nat (remaining od), eoSide = oEngineSide od\<rparr>"
    using od(1) mk by (simp add: commandFor_def fmget_def)
  then show thesis by (rule that [OF od(1) mk od(2) ok])
qed

text \<open>One round, once the result of the command is known.\<close>

lemma completeLoop_round:
  fixes s :: "('e, 'p) Service" and ov :: "(engineOrderKey, string) fmap" and staged :: "(string, Order) fmap"
  assumes "EngineOf (cfg s) = Some eng" and "resultFor results commands j eng s = (Inr res, t)"
    and "orders t = orders s" and "engineOrders t = engineOrders s"
    and "fmlookup (orders s) k = Some od" and "oID od = k"
  defines "od1 \<equiv> entered od res Open" and "ov1 \<equiv> fmupd (oMarketID od, erOrderID res) k ov"
  defines "r \<equiv> buildTradeEvents t (oMarketID od) (erTrades res) ov1 (fmupd k od1 staged)"
  shows "completeLoop results commands j (k # ks) ov staged s =
    (case completeLoop results commands (Suc j) ks ov1 (snd r) t of
       (Inl e, u) \<Rightarrow> (Inl e, u)
     | (Inr es, u) \<Rightarrow> (Inr (Event0\<lparr>eType := EventOrder, eOrder := od1\<rparr> # fst r @ es), u))"
proof -
  have od1: "od\<lparr>oStatus := Open\<rparr>\<lparr>oEngineID := erOrderID res\<rparr> = od1" by (simp add: od1_def entered_def)
  have g: "fmget Order0 (orders s) k = od" using assms(5) by (simp add: fmget_def)
  have ids: "oMarketID od1 = oMarketID od" "oEngineID od1 = erOrderID res" "oID od1 = k"
    using assms(6) by (simp_all add: od1_def)
  show ?thesis
    unfolding completeLoop.simps Let_def g assms(1,2) option.case prod.case sum.case od1 ids ov1_def [symmetric]
    unfolding r_def [symmetric] by (cases r) (auto split: prod.split sum.split)
qed

lemma completeLoop_batched:
  assumes "results \<noteq> []" and "EngineOf (cfg s) = Some eng" and "j + length ks = length results"
    and "stageOk D s books ks ov staged l"
    and "\<And>symbol. matchAll symbol (books symbol) (zip (map (commandFor s) ks) (drop j results)) = Some (books' symbol)"
  shows "\<exists>es ov' staged'. completeLoop results commands j ks ov staged s = (Inr es, s) \<and>
    stageOk D s books' [] ov' staged' (ideal_all es l)"
  using assms(3-5)
proof (induction ks arbitrary: j ov staged l books)
  case Nil
  then have "books' = books" by (simp add: fun_eq_iff)
  then show ?case using Nil by auto
next
  case (Cons k ks)
  obtain od mk where h: "fmlookup (orders s) k = Some od" "fmlookup (markets s) (oMarketID od) = Some mk" "waiting k od"
      "order_ok k od" "commandFor s k = \<lparr>eoSymbol = mSymbol mk, eoPrice = oEnginePrice od, eoQuantity = nat (remaining od), eoSide = oEngineSide od\<rparr>"
    by (rule stage_head [OF Cons.prems(2)])
  let ?res = "results ! j"
  have drop: "drop j results = ?res # drop (Suc j) results" using Cons.prems(1) by (simp add: Cons_nth_drop_Suc)
  note all = Cons.prems(3) [unfolded drop list.map zip_Cons_Cons matchAll.simps h(5) EngineOrder.simps]
  obtain b where b: "matchBook (books (mSymbol mk)) (oEngineSide od) (oEnginePrice od) (nat (remaining od)) ?res = Some b"
    using all [of "mSymbol mk"] by (auto split: option.splits)
  define books1 where "books1 = books(mSymbol mk := b)"
  have m: "matchBook (books (mSymbol mk)) (oEngineSide od) (oEnginePrice od) (nat (remaining od)) ?res = Some (books1 (mSymbol mk))"
      "\<forall>other. other \<noteq> mSymbol mk \<longrightarrow> books1 other = books other" using b by (simp_all add: books1_def)
  note step = stage_step [OF Cons.prems(2) h(1,2) m]
  have rest: "matchAll symbol (books1 symbol) (zip (map (commandFor s) ks) (drop (Suc j) results)) = Some (books' symbol)" for symbol
    using all [of symbol] b by (cases "symbol = mSymbol mk") (auto simp: books1_def)
  have "Suc j + length ks = length results" using Cons.prems(1) by simp
  from Cons.IH [OF this step rest]
  obtain es ov' staged' where IH: "completeLoop results commands (Suc j) ks (fmupd (oMarketID od, erOrderID ?res) k ov)
        (snd (buildTradeEvents s (oMarketID od) (erTrades ?res) (fmupd (oMarketID od, erOrderID ?res) k ov)
          (fmupd k (entered od ?res Open) staged))) s = (Inr es, s)"
      "stageOk D s books' [] ov' staged' (ideal_all es (ideal_all (Event0\<lparr>eType := EventOrder, eOrder := entered od ?res Open\<rparr> #
        fst (buildTradeEvents s (oMarketID od) (erTrades ?res) (fmupd (oMarketID od, erOrderID ?res) k ov)
          (fmupd k (entered od ?res Open) staged))) l))"
    by blast
  have rf: "resultFor results commands j eng s = (Inr ?res, s)" using assms(1) by (simp add: resultFor_def)
  have "oID od = k" using h(3) by (simp add: waiting_def)
  note round = completeLoop_round [OF assms(2) rf refl refl h(1) this, where ks = ks and ov = ov and staged = staged]
  show ?case
    unfolding round IH(1) prod.case sum.case using IH(2) by auto
qed

lemma completeLoop_frame:
  assumes "completeLoop results commands j ks ov staged s = (x, t)"
  shows "book t = book s \<and> cfg t = cfg s \<and> (\<forall>e. x = Inl e \<longrightarrow> failure t \<noteq> None)"
  using assms
proof (induction ks arbitrary: j ov staged s x t)
  case (Cons k ks)
  have rf: "book u = book s \<and> cfg u = cfg s" if "resultFor results commands j eng s = (y, u)" for eng y u
    using that by (auto simp: resultFor_def Let_def book_eq_iff split: if_splits prod.splits)
  show ?case
  proof (cases "EngineOf (cfg s)")
    case None
    then obtain y where "completeLoop results commands (Suc j) ks ov staged s = (y, t)" "\<forall>e. x = Inl e \<longrightarrow> y = Inl e"
      using Cons.prems by (auto simp: Let_def split: prod.splits sum.splits)
    then show ?thesis using Cons.IH by blast
  next
    case (Some eng)
    obtain y u where y: "resultFor results commands j eng s = (y, u)" by (rule prod.exhaust)
    show ?thesis
    proof (cases y)
      case (Inl e)
      then show ?thesis using Cons.prems Some y rf [OF y] by (auto simp: Let_def fail_def book_eq_iff)
    next
      case (Inr res)
      obtain ov1 staged1 z v where "completeLoop results commands (Suc j) ks ov1 staged1 u = (z, v)" "v = t" "\<forall>e. x = Inl e \<longrightarrow> z = Inl e"
        using Cons.prems Some y Inr by (auto simp: Let_def split: prod.splits sum.splits)
      then show ?thesis using Cons.IH rf [OF y] by metis
    qed
  qed
qed simp

lemma commandFor_cong: "orders t = orders s \<Longrightarrow> markets t = markets s \<Longrightarrow> commandFor t = commandFor s"
  by (simp add: commandFor_def fun_eq_iff)

context matching_engine
begin

lemma completeLoop_sequential:
  assumes "completeLoop [] commands j ks ov staged s = (Inr es, t)" and "EngineOf (cfg s) = Some eng"
    and "healthy (engineState s)" and "stageOk D s (bookOf (engineState s)) ks ov staged l"
    and "\<And>i. i < length ks \<Longrightarrow> commands ! (j + i) = commandFor s (ks ! i)"
  shows "healthy (engineState t) \<and>
    (\<exists>ov' staged'. stageOk D s (bookOf (engineState t)) [] ov' staged' (ideal_all es l))"
  using assms
proof (induction ks arbitrary: j ov staged s l es)
  case (Cons k ks)
  obtain od mk where h: "fmlookup (orders s) k = Some od" "fmlookup (markets s) (oMarketID od) = Some mk" "waiting k od"
      "order_ok k od" "commandFor s k = \<lparr>eoSymbol = mSymbol mk, eoPrice = oEnginePrice od, eoQuantity = nat (remaining od), eoSide = oEngineSide od\<rparr>"
    by (rule stage_head [OF Cons.prems(4)])
  have c: "commands ! j = commandFor s k" using Cons.prems(5) [of 0] by simp
  obtain y e' where call: "AddOrder eng (engineState s) (mSymbol mk) (oEnginePrice od) (nat (remaining od)) (oEngineSide od) = (y, e')"
    by (rule prod.exhaust)
  let ?u = "s\<lparr>engineState := e'\<rparr>"
  have rf: "resultFor [] commands j eng s = (y, ?u)" using call c h(5) by (simp add: resultFor_def)
  obtain res where y: "y = Inr res" using Cons.prems(1,2) rf by (cases y) (auto simp: Let_def fail_def)
  have live: "live od" "oID od = k" using h(3) by (simp_all add: waiting_def live_def)
  have "0 < nat (remaining od)" using order_ok_remaining [OF h(4) live(1)] by simp
  note books = AddOrder_books [OF Cons.prems(3) call [unfolded y] order_ok_sideOk [OF h(4)] this]
  have b: "matchBook (bookOf (engineState s) (mSymbol mk)) (oEngineSide od) (oEnginePrice od) (nat (remaining od)) res =
      Some (bookOf e' (mSymbol mk))" "\<forall>other. other \<noteq> mSymbol mk \<longrightarrow> bookOf e' other = bookOf (engineState s) other"
    using books by blast+
  let ?ov = "fmupd (oMarketID od, erOrderID res) k ov"
  let ?r = "buildTradeEvents ?u (oMarketID od) (erTrades res) ?ov (fmupd k (entered od res Open) staged)"
  have fr: "orders ?u = orders s" "engineOrders ?u = engineOrders s" "markets ?u = markets s" by simp_all
  have ok: "stageOk D ?u (bookOf (engineState s)) (k # ks) ov staged l" using Cons.prems(4) unfolding stageOk_cong [OF fr] .
  have "fmlookup (orders ?u) k = Some od" "fmlookup (markets ?u) (oMarketID od) = Some mk" using h(1,2) by simp_all
  note step = stage_step [OF ok this b]
  note round = completeLoop_round [OF Cons.prems(2) rf [unfolded y] fr(1,2) h(1) live(2), where ks = ks and ov = ov and staged = staged]
  obtain es1 where es1: "completeLoop [] commands (Suc j) ks ?ov (snd ?r) ?u = (Inr es1, t)"
      "es = Event0\<lparr>eType := EventOrder, eOrder := entered od res Open\<rparr> # fst ?r @ es1"
    using Cons.prems(1) unfolding round by (auto split: prod.splits sum.splits)
  have cmd: "commands ! (Suc j + i) = commandFor ?u (ks ! i)" if "i < length ks" for i
    using Cons.prems(5) [of "Suc i"] that commandFor_cong [OF fr(1,3)] by simp
  have "healthy (engineState t) \<and>
      (\<exists>ov' staged'. stageOk D ?u (bookOf (engineState t)) [] ov' staged' (ideal_all es1
        (ideal_all (Event0\<lparr>eType := EventOrder, eOrder := entered od res Open\<rparr> # fst ?r) l)))"
    using Cons.prems(2) books step by (intro Cons.IH [OF es1(1) _ _ _ cmd]) simp_all
  then show ?case unfolding stageOk_cong [OF fr] es1(2) by simp
qed auto

text \<open>After the reservations are durable, all admitted orders wait.\<close>

lemma admitted_stage:
  assumes ok: "admissionOk D s requests books a" and "allEntered s" and b: "book t = book (ideal_all (aInitial a) (book s))"
  shows "stageOk D t books (admittedIDs requests a) fmempty fmempty (book t)"
proof -
  define u where "u = ideal_all (aInitial a) (book s)"
  note A = admissionOkD [OF ok, folded u_def]
  have b: "book t = book u" using b by (simp add: u_def)
  have o1: "orders t = orders u" "markets t = markets u" using b by (simp_all add: book_eq_iff)
  note st = structure_eq_book [OF b]
  have f: "funded D (book t)" using A(1) funded_eq_book [OF b] by simp
  have fnd: "finds (lookupEngine t fmempty m) m (orders (book t))" for m
    using finds_indexed [of t m] st(1) A(2) by (simp add: wellFormed_def)
  have entered: "oStatus od \<noteq> Pending \<and> (live od \<longrightarrow> oEngineID od \<noteq> 0)"
    if "fmlookup (orders u) h = Some od" "h \<notin> set (admittedIDs requests a)" for h od
    using that A(9) [of h] assms(2) by (simp add: allEntered_def)
  have waits: "\<exists>od. fmlookup (orders t) k = Some od \<and> waiting k od \<and> fmlookup (orders (book t)) k = Some od"
    if "k \<in> set (admittedIDs requests a)" for k
    using A(10) [OF that] o1(1) by auto
  have st': "wellFormed (book t)" "coupled books (book t)" using st A(2,3) by simp_all
  have ag: "agrees t fmempty (book t)" by (simp add: agrees_def)
  have ent: "oStatus od \<noteq> Pending \<and> (live od \<longrightarrow> oEngineID od \<noteq> 0)"
    if "fmlookup (orders (book t)) k = Some od" "k \<notin> set (admittedIDs requests a)" for k od
    using entered that o1(1) by simp
  show ?thesis unfolding stageOk_def using f st' ag fnd A(7) waits ent by simp
qed

text \<open>The group call, or no group call at all.\<close>

lemma batchCall_cases:
  assumes "batchCall commands s = (x, t)" and "EngineOf (cfg s) = Some eng"
  obtains (failed) e where "x = Inl e" "book t = book s" "cfg t = cfg s" "failure t \<noteq> None"
    | (each) "x = Inr \<lparr>ebResults = [], ebQuotes = []\<rparr>" "t = s"
    | (group) addOrders batch e' where "AddOrders eng = Some addOrders" "addOrders (engineState s) commands = (Inr batch, e')"
      "length (ebResults batch) = length commands" "x = Inr batch" "t = s\<lparr>engineState := e'\<rparr>"
proof (cases "AddOrders eng = None \<or> DisableEngineBatch (cfg s)")
  case True
  then show thesis using each assms by (auto simp: batchCall_def split: option.splits)
next
  case False
  then obtain addOrders where ao: "AddOrders eng = Some addOrders" "\<not> DisableEngineBatch (cfg s)" by auto
  obtain r e' where c: "addOrders (engineState s) commands = (r, e')" by (rule prod.exhaust)
  show thesis
  proof (cases "\<exists>batch. r = Inr batch \<and> length (ebResults batch) = length commands")
    case True
    then show thesis using group [OF ao(1)] assms ao c by (auto simp: batchCall_def Let_def)
  next
    case False
    then show thesis using failed assms ao c
      by (cases r) (auto simp: batchCall_def Let_def fail_def book_eq_iff)
  qed
qed

lemma completeLoop_coupled:
  assumes call: "batchCall (map (commandFor s) ids) s = (Inr batch, t)" and "EngineOf (cfg s) = Some eng"
    and "healthy (engineState s)" and "stageOk D s (bookOf (engineState s)) ids fmempty fmempty (book s)" and "ids \<noteq> []"
    and loop: "completeLoop (ebResults batch) (map (commandFor s) ids) 0 ids fmempty fmempty t = (Inr es, u)"
  shows "healthy (engineState u) \<and>
    (\<exists>ov staged. stageOk D s (bookOf (engineState u)) [] ov staged (ideal_all es (book s)))"
  using call assms(2)
proof (cases rule: batchCall_cases)
  case each
  then show ?thesis
    using loop assms(2-4) by (intro completeLoop_sequential [of "map (commandFor s) ids" 0 ids fmempty fmempty]) simp_all
next
  case (group addOrders batch' e')
  have fr: "orders t = orders s" "engineOrders t = engineOrders s" "markets t = markets s" "EngineOf (cfg t) = Some eng"
    using group(5) assms(2) by simp_all
  have b: "ebResults batch = ebResults batch'" using group(4) by simp
  have good: "\<forall>od\<in>set (map (commandFor s) ids). sideOk (eoSide od) \<and> 0 < eoQuantity od"
  proof
    fix od assume "od \<in> set (map (commandFor s) ids)"
    then obtain k where k: "k \<in> set ids" "od = commandFor s k" by auto
    obtain x where x: "fmlookup (orders s) k = Some x" "waiting k x" "fmlookup (orders (book s)) k = Some x"
      using stageOkD(8) [OF assms(4) k(1)] by blast
    have ok: "order_ok k x" using funded_ordersOk [OF stageOkD(1) [OF assms(4)]] x(3) by (simp add: ordersOk_def)
    have "0 < u32 (oQuantity x)" using ok by (simp add: order_ok_def u32_id)
    then show "sideOk (eoSide od) \<and> 0 < eoQuantity od"
      using x(1) order_ok_sideOk [OF ok] k(2) by (simp add: commandFor_def fmget_def)
  qed
  have m: "healthy e'" "\<And>symbol. matchAll symbol (bookOf (engineState s) symbol) (zip (map (commandFor s) ids) (ebResults batch)) =
      Some (bookOf e' symbol)"
    using AddOrders_books [OF assms(3) group(1-3) good] b by simp_all
  have ne: "ebResults batch \<noteq> []" "0 + length ids = length (ebResults batch)" using group(3) assms(5) b by auto
  have st: "stageOk D t (bookOf (engineState s)) ids fmempty fmempty (book s)" using assms(4) unfolding stageOk_cong [OF fr(1-3)] .
  obtain es' ov staged where r: "completeLoop (ebResults batch) (map (commandFor s) ids) 0 ids fmempty fmempty t = (Inr es', t)"
      "stageOk D t (bookOf e') [] ov staged (ideal_all es' (book s))"
    using completeLoop_batched [OF ne(1) fr(4) ne(2) st, of "bookOf e'" "map (commandFor s) ids"] m(2) commandFor_cong [OF fr(1,3)]
    by auto
  have "es = es'" "engineState u = e'" using r(1) loop group(5) by auto
  then show ?thesis using m(1) r(2) unfolding stageOk_cong [OF fr(1-3)] by blast
qed simp

lemma completeBatch_sound:
  assumes "completeBatch ids s = ((r, qs), t)" and "EngineOf (cfg s) = Some eng" and "funded D s" and "wellFormed s"
    and "healthy (engineState s)" and "stageOk D s (bookOf (engineState s)) ids fmempty fmempty (book s)" and "ids \<noteq> []"
  shows "sound eng bookOf healthy D t"
proof -
  have latched: "sound eng bookOf healthy D v" if "book v = book s" "cfg v = cfg s" "failure v \<noteq> None" for v
    using that assms(2-4) funded_eq_book [OF that(1)] structure_eq_book(1) [OF that(1)] by (intro sound_latched) simp_all
  obtain x t1 where call: "batchCall (map (commandFor s) ids) s = (x, t1)" by (rule prod.exhaust)
  have b1: "book t1 = book s" "cfg t1 = cfg s" "x = Inl e \<Longrightarrow> failure t1 \<noteq> None" for e
    by (cases rule: batchCall_cases [OF call assms(2)]; simp add: book_eq_iff)+
  show ?thesis
  proof (cases x)
    case (Inl e)
    then show ?thesis using assms(1) call latched b1 by (simp add: completeBatch_def)
  next
    case (Inr batch)
    obtain y u where loop: "completeLoop (ebResults batch) (map (commandFor s) ids) 0 ids fmempty fmempty t1 = (y, u)" by (rule prod.exhaust)
    have bu: "book u = book s" "cfg u = cfg s" "y = Inl e \<Longrightarrow> failure u \<noteq> None" for e
      using completeLoop_frame [OF loop] b1 by simp_all
    show ?thesis
    proof (cases y)
      case (Inl e)
      then show ?thesis using assms(1) call Inr loop latched bu by (simp add: completeBatch_def)
    next
      case y: (Inr es)
      obtain ov staged where h: "healthy (engineState u)" "stageOk D s (bookOf (engineState u)) [] ov staged (ideal_all es (book s))"
        using completeLoop_coupled [OF call [unfolded Inr] assms(2,5-7) loop [unfolded y]] by blast
      note A = stageOkD [OF h(2)]
      obtain r2 v where c: "commitMany es u = (r2, v)" by (rule prod.exhaust)
      have entered: "allEntered (ideal_all es (book u))" using A(9) bu(1) by (simp add: allEntered_def)
      have "sound eng bookOf healthy (if r2 = None then D else D) v"
        using assms(2-4) A(1-3) bu funded_eq_book [OF bu(1)] structure_eq_book [OF bu(1)]
        by (intro commit_sound [OF c _ _ _ _ _ entered h(1)]) simp_all
      then have sv: "sound eng bookOf healthy D v" by simp
      show ?thesis
      proof (cases r2)
        case (Some e)
        then show ?thesis using assms(1) call Inr loop y c sv by (simp add: completeBatch_def)
      next
        case None
        then have ok: "failure v = None" "EngineOf (cfg v) = Some eng" using commitMany_ok(2,4) [of es u v] c bu(2) assms(2) by simp_all
        then have hv: "healthy (engineState v)" using sv by (simp add: sound_def)
        have "t = snd (readLoop (bySymbol (ebQuotes batch)) [] (map (\<lambda>k. oMarketID (fmget Order0 (orders s) k)) ids) v)"
          using assms(1) call Inr loop y c None by (auto simp: completeBatch_def readQuotes_def case_prod_beta)
        then show ?thesis using unmoved_sound [OF sv unmoved_readLoop [OF hv ok(2)]] by simp
      qed
    qed
  qed
qed

lemma placeBatchWithQuotes_sound:
  assumes "placeBatchWithQuotes requests s = (x, t)" and "sound eng bookOf healthy D s"
    and "\<And>p. p \<in> set requests \<Longrightarrow> submission (plOrder p)"
  shows "sound eng bookOf healthy D t"
proof (cases "failure s")
  case (Some e)
  then show ?thesis using assms(1,2) by (auto simp: placeBatchWithQuotes_def)
next
  case None
  have s: "EngineOf (cfg s) = Some eng" "funded D s" "wellFormed s" "allEntered s" "healthy (engineState s)"
      "coupled (bookOf (engineState s)) s"
    using assms(2) None by (auto simp: sound_def)
  let ?a = "admitAll s requests"
  define u where "u = ideal_all (aInitial ?a) (book s)"
  have ad: "admissionOk D s requests (bookOf (engineState s)) ?a" using admitAll_ok [OF s(2,3,6)] assms(3) by blast
  note A = admissionOkD [OF ad, folded u_def]
  show ?thesis
  proof (cases "aAdmitted ?a = []")
    case True
    then show ?thesis using assms(1,2) None by (simp add: placeBatchWithQuotes_def)
  next
    case adm: False
    obtain r t1 where c: "commitMany (aInitial ?a) s = (r, t1)" by (rule prod.exhaust)
    show ?thesis
    proof (cases r)
      case (Some e)
      have b: "funded D t1" "book t1 = book s" "failure t1 \<noteq> None"
        using commit_funded(2) [OF c s(2)] A(1) Some by (simp_all add: u_def)
      have "cfg t1 = cfg s" using commitMany_err(1) [of "aInitial ?a" s e t1] c Some by (simp add: keeps_def)
      then have "sound eng bookOf healthy D t1" using b s(1,3) structure_eq_book(1) [OF b(2)] by (intro sound_latched) simp_all
      then show ?thesis using assms(1) None adm c Some by (simp add: placeBatchWithQuotes_def)
    next
      case r: None
      let ?ids = "admittedIDs requests ?a"
      have b: "funded D t1" "book t1 = book u" using commit_funded(1) [OF c s(2)] A(1) r by (simp_all add: u_def)
      have k: "cfg t1 = cfg s" "engineState t1 = engineState s" using commitMany_ok(4,5) [of "aInitial ?a" s t1] c r by simp_all
      have "stageOk D t1 (bookOf (engineState t1)) ?ids fmempty fmempty (book t1)"
        unfolding k(2) by (rule admitted_stage [OF ad s(4) b(2) [unfolded u_def]])
      moreover obtain r2 qs where cb: "completeBatch ?ids t1 = ((r2, qs), t)"
        using assms(1) None adm c r by (auto simp: placeBatchWithQuotes_def admittedIDs_def Let_def split: prod.splits)
      moreover have "?ids \<noteq> []" using adm by (simp add: admittedIDs_def)
      ultimately show ?thesis using s(1,5) k b(1) structure_eq_book(1) [OF b(2)] A(2)
        by (intro completeBatch_sound [OF cb]) simp_all
    qed
  qed
qed

end

end
