(* ===== verification/Order_Queue.thy ===== *)
theory Order_Queue
  imports Batch_Completion
begin

text \<open>
  The admission queue and its worker: the queue never holds more than 128 placements, the worker
  stops and leaves it empty, and every placement gets one answer, in the order of arrival.
\<close>

section \<open>Shape of the outcomes\<close>

lemma fold_length:
  assumes "\<And>x a. length (g (f x a)) = length (g a)"
  shows "length (g (fold f xs a)) = length (g a)"
  using assms by (induction xs arbitrary: a) simp_all

lemma admitOne_length: "length (aOutcomes (admitOne s requests i a)) = length (aOutcomes a)"
  by (auto simp: admitOne_def Let_def setOutcome_def admit_def split: option.splits sum.splits list.splits)

lemma admitAll_length: "length (aOutcomes (admitAll s requests)) = length requests"
  unfolding admitAll_def by (subst fold_length) (simp_all add: admitOne_length admission0_def)

lemma settle_length: "length (settleOutcomes r a) = length (aOutcomes a)"
  unfolding settleOutcomes_def Let_def
  by (subst fold_length [of "\<lambda>x. x"], simp, subst fold_length [of "\<lambda>x. x"], simp_all)

lemma placeBatch_length:
  assumes "placeBatchWithQuotes requests s = ((os, qs), t)"
  shows "length os = length requests"
  using assms by (auto simp: placeBatchWithQuotes_def Let_def settle_length admitAll_length
      split: option.splits if_splits prod.splits)

section \<open>The batch keeps the configuration\<close>

lemma batchCall_cfg: "batchCall commands s = (x, t) \<Longrightarrow> cfg t = cfg s"
  by (auto simp: batchCall_def Let_def fail_def split: option.splits if_splits prod.splits sum.splits)

lemma completeBatch_cfg:
  assumes "completeBatch ids s = (x, t)"
  shows "cfg t = cfg s"
proof -
  obtain y t1 where c: "batchCall (map (commandFor s) ids) s = (y, t1)" by (rule prod.exhaust)
  show ?thesis
  proof (cases y)
    case (Inl e)
    then show ?thesis using assms c batchCall_cfg [OF c] by (auto simp: completeBatch_def)
  next
    case (Inr batch)
    obtain z u where l: "completeLoop (ebResults batch) (map (commandFor s) ids) 0 ids fmempty fmempty t1 = (z, u)" by (rule prod.exhaust)
    have u: "cfg u = cfg s" using completeLoop_frame [OF l] batchCall_cfg [OF c] by simp
    show ?thesis
    proof (cases z)
      case (Inl e)
      then show ?thesis using assms c Inr l u by (auto simp: completeBatch_def)
    next
      case z: (Inr es)
      obtain r v where v: "commitMany es u = (r, v)" by (rule prod.exhaust)
      have "cfg v = cfg u" using commitMany_ok(4) [of es u v] commitMany_err(1) [of es u _ v] v by (cases r) (auto simp: keeps_def)
      moreover have "cfg (snd (readQuotes ms qs v)) = cfg v" for ms qs
        using same_ledger_readLoop [of v "bySymbol qs" "[]" ms] by (simp add: readQuotes_def same_ledger_def)
      ultimately show ?thesis using assms c Inr l z v u by (cases r) (auto simp: completeBatch_def case_prod_beta)
    qed
  qed
qed

lemma placeBatch_cfg:
  assumes "placeBatchWithQuotes requests s = (x, t)"
  shows "cfg t = cfg s"
proof -
  let ?a = "admitAll s requests"
  obtain r v where v: "commitMany (aInitial ?a) s = (r, v)" by (rule prod.exhaust)
  have "cfg v = cfg s" using commitMany_ok(4) [of _ s v] commitMany_err(1) [of _ s _ v] v by (cases r) (auto simp: keeps_def)
  then show ?thesis
    using assms v completeBatch_cfg [of "map (\<lambda>i. oID (plOrder (requests ! i))) (aAdmitted ?a)" v]
    by (cases r) (auto simp: placeBatchWithQuotes_def Let_def split: option.splits if_splits prod.splits)
qed

section \<open>The worker\<close>

definition queueBounded :: "('e, 'p) queue \<Rightarrow> bool" where
  "queueBounded q \<longleftrightarrow> length (qPending q) \<le> maxQueuedOrders"

lemma enqueue_bounded: "queueBounded q \<Longrightarrow> queueBounded (snd (enqueue client ctxErr p q))"
  by (auto simp: queueBounded_def enqueue_def split: option.splits)

lemma drainRound_result:
  assumes "drainRound q = Some q'"
  shows "cfg (qService q') = cfg (qService q)" and "length (qPending q') < length (qPending q)"
    and "map fst (qDone q') @ map fst (qPending q') = map fst (qDone q) @ map fst (qPending q)"
    and "qClosed q' = qClosed q"
proof -
  let ?n = "min (length (qPending q)) (nat (OrderBatchSize (cfg (qService q))))"
  obtain os qs s where p: "placeBatchWithQuotes (map snd (take ?n (qPending q))) (qService q) = ((os, qs), s)"
    by (metis prod.exhaust)
  have n: "?n \<noteq> 0" and q': "q' = q\<lparr>qPending := drop ?n (qPending q), qService := publishQuotes qs s,
      qDone := qDone q @ zip (map fst (take ?n (qPending q))) os\<rparr>"
    using assms p by (auto simp: drainRound_def Let_def split: if_splits)
  have len: "length os = ?n" using placeBatch_length [OF p] by simp
  show "cfg (qService q') = cfg (qService q)" using placeBatch_cfg [OF p] q' by (simp add: publishQuotes_def)
  show "length (qPending q') < length (qPending q)" using n q' by auto
  have zip: "map fst (zip (map fst (take ?n (qPending q))) os) = map fst (take ?n (qPending q))"
    using len by (intro map_fst_zip) simp
  have all: "map fst (take ?n (qPending q)) @ map fst (drop ?n (qPending q)) = map fst (qPending q)"
    by (metis append_take_drop_id map_append)
  show "map fst (qDone q') @ map fst (qPending q') = map fst (qDone q) @ map fst (qPending q)"
    using zip all by (simp add: q')
  show "qClosed q' = qClosed q" using q' by simp
qed

text \<open>The worker stops, with an empty queue and one answer per placement, in order.\<close>

lemma drainOrders_result:
  assumes "0 < OrderBatchSize (cfg (qService q))"
  shows "\<exists>q'. drainOrders q = Some q' \<and> qPending q' = [] \<and> \<not> qRunning q' \<and>
    map fst (qDone q') = map fst (qDone q) @ map fst (qPending q)"
  using assms
proof (induction "length (qPending q)" arbitrary: q rule: less_induct)
  case less
  show ?case
  proof (cases "drainRound q")
    case None
    then have "qPending q = []" using less.prems
      by (auto simp: drainRound_def Let_def min_def split: if_splits prod.splits)
    then show ?thesis using None by (simp add: drainOrders.simps)
  next
    case (Some q1)
    note r = drainRound_result [OF Some]
    obtain q' where q': "drainOrders q1 = Some q'" "qPending q' = []" "\<not> qRunning q'"
        "map fst (qDone q') = map fst (qDone q1) @ map fst (qPending q1)"
      using less.hyps [OF r(2)] less.prems r(1) by auto
    have "drainOrders q = Some q'" using Some q'(1) by (simp add: drainOrders.simps [of q])
    then show ?thesis using q'(2-4) r(3) by metis
  qed
qed

section \<open>The invariant of the service along the queue\<close>

definition queueOk :: "'e Engine \<Rightarrow> ('e \<Rightarrow> string \<Rightarrow> restBook) \<Rightarrow> ('e \<Rightarrow> bool) \<Rightarrow> int \<Rightarrow> ('e, 'p) queue \<Rightarrow> bool" where
  "queueOk eng bookOf healthy D q \<longleftrightarrow> sound eng bookOf healthy D (qService q) \<and>
     (\<forall>(c, p)\<in>set (qPending q). submission (plOrder p))"

context matching_engine
begin

lemma publishQuotes_sound:
  assumes "sound eng bookOf healthy D s"
  shows "sound eng bookOf healthy D (publishQuotes qs s)"
proof -
  have "sound eng bookOf healthy D (s\<lparr>published := x\<rparr>)" for x
    using assms by (intro sound_same [OF assms]) (auto simp: book_eq_iff sound_def)
  then show ?thesis using assms by (simp add: publishQuotes_def)
qed

lemma drainRound_sound:
  assumes "drainRound q = Some q'" and "queueOk eng bookOf healthy D q"
  shows "queueOk eng bookOf healthy D q'"
proof -
  let ?n = "min (length (qPending q)) (nat (OrderBatchSize (cfg (qService q))))"
  obtain os qs s where p: "placeBatchWithQuotes (map snd (take ?n (qPending q))) (qService q) = ((os, qs), s)"
    by (metis prod.exhaust)
  have q': "q' = q\<lparr>qPending := drop ?n (qPending q), qService := publishQuotes qs s,
      qDone := qDone q @ zip (map fst (take ?n (qPending q))) os\<rparr>"
    using assms(1) p by (auto simp: drainRound_def Let_def split: if_splits)
  have "sound eng bookOf healthy D s"
    using assms(2) by (intro placeBatchWithQuotes_sound [OF p]) (auto simp: queueOk_def dest!: in_set_takeD)
  then show ?thesis using assms(2) publishQuotes_sound by (auto simp: queueOk_def q' dest!: in_set_dropD)
qed

lemma drainOrders_sound:
  assumes "drainOrders q = Some q'" and "queueOk eng bookOf healthy D q"
  shows "queueOk eng bookOf healthy D q'"
  using assms(2)
proof (induction rule: drainOrders.raw_induct [OF _ assms(1), rotated])
  case (1 drain q r)
  show ?case
  proof (cases "drainRound q")
    case None
    then show ?thesis using 1 by (auto simp: queueOk_def)
  next
    case (Some q1)
    then have "drain q1 = Some r" using 1 by simp
    then show ?thesis using 1 drainRound_sound [OF Some] by blast
  qed
qed

lemma Place_sound:
  assumes "Place client ctxErr p q = (r, q')" and "queueOk eng bookOf healthy D q" and "submission (plOrder p)"
  shows "queueOk eng bookOf healthy D q'"
proof (cases "OrderBatchSize (cfg (qService q)) > 1")
  case True
  then show ?thesis using assms by (auto simp: Place_def enqueue_def queueOk_def split: option.splits if_splits)
next
  case False
  obtain r1 s where s: "placeSingle ctxErr (plOrder p) (qService q) = (r1, s)" by (rule prod.exhaust)
  have "sound eng bookOf healthy D s" using placeSingle_sound [OF s _ assms(3)] assms(2) by (simp add: queueOk_def)
  then show ?thesis using assms(1,2) False s by (auto simp: Place_def queueOk_def)
qed

end

end
