(* ===== verification/Checkpoint.thy ===== *)
theory Checkpoint
  imports Order_Queue
begin

text \<open>
  Checkpoints and startup (checkpoint.go; service.go, lines 217 to 240 and 919 to 954): freezing
  the state and rotating the log, writing the snapshot, deleting the covered segment, and the
  construction of a service from the files. The two halves of a checkpoint are definitions of
  their own, because commits run between them.
\<close>

section \<open>Freezing the state\<close>

definition frozen :: "'a ledger_scheme \<Rightarrow> snapshot" where
  "frozen s = \<lparr>snSequence = sequence s, snMarkets = markets s, snOrders = orders s,
     snBalances = balances s, snPositions = positions s\<rparr>"

definition onDisk :: "(disk \<Rightarrow> disk) \<Rightarrow> ('e, 'p) Service \<Rightarrow> ('e, 'p) Service" where
  "onDisk f s = s\<lparr>disk := f (disk s)\<rparr>"

text \<open>\<^verbatim>\<open>os.Rename(current, previous)\<close>: a missing current file is not an error.\<close>

definition rotate :: "disk \<Rightarrow> disk" where
  "rotate d = (case walCurrent d of None \<Rightarrow> d | Some ls \<Rightarrow> d\<lparr>walPrevious := Some ls, walCurrent := None\<rparr>)"

definition failIf :: "('e, 'p) outcome \<Rightarrow> (('e, 'p) Service \<Rightarrow> ('e, 'p) outcome) \<Rightarrow> ('e, 'p) outcome" where
  "failIf r k = (case r of (Some e, s) \<Rightarrow> fail e s | (None, s) \<Rightarrow> k s)"

definition closeWAL :: "('e, 'p) Service \<Rightarrow> ('e, 'p) outcome" where
  "closeWAL s =
    (if walFile s
     then failIf (osTry s) (\<lambda>s. failIf (osTry s) (\<lambda>s. (None, s\<lparr>walFile := False\<rparr>)))
     else (None, s))"

definition rotateWAL :: "('e, 'p) Service \<Rightarrow> ('e, 'p) outcome" where
  "rotateWAL s =
    failIf (osTry s) (\<lambda>s. failIf (syncDirectory (onDisk rotate s)) (\<lambda>s. failIf (osTry s) (\<lambda>s.
      let t = (onDisk (\<lambda>d. d\<lparr>walCurrent := Some []\<rparr>) s)\<lparr>walFile := True\<rparr>
      in failIf (osTry t) (\<lambda>s. failIf (syncDirectory s) (\<lambda>s. (None, s))))))"

definition freezeCheckpoint :: "('e, 'p) Service \<Rightarrow> (goerror + snapshot) \<times> ('e, 'p) Service" where
  "freezeCheckpoint s =
    (case failure s of
       Some e \<Rightarrow> (Inl e, s)
     | None \<Rightarrow>
        (if SnapshotPath (cfg s) = [] then (Inl (New ''snapshot path not configured''), s)
         else case osTry s of
                (Some e, t) \<Rightarrow> (Inl e, t)
              | (None, t) \<Rightarrow>
                 (if walPrevious (disk t) \<noteq> None then (Inr (frozen s), t)
                  else case osTry t of
                         (Some e, u) \<Rightarrow> (Inl e, u)
                       | (None, u) \<Rightarrow>
                          (case andThen (closeWAL u) rotateWAL of
                             (Some e, v) \<Rightarrow> (Inl e, v)
                           | (None, v) \<Rightarrow> (Inr (frozen s), v)))))"

section \<open>Writing the snapshot\<close>

text \<open>The temporary file is never read, so its content after a failed write does not matter.\<close>

definition writeSnapshot :: "snapshot \<Rightarrow> ('e, 'p) Service \<Rightarrow> ('e, 'p) outcome" where
  "writeSnapshot sn s =
    andThen (osTry s) (\<lambda>s. andThen (osTry s) (\<lambda>s.
      let t = onDisk (\<lambda>d. d\<lparr>snapshotTmp := None\<rparr>) s
      in andThen (osTry t) (\<lambda>s.
        let t = onDisk (\<lambda>d. d\<lparr>snapshotTmp := Some sn\<rparr>) s
        in andThen (osTry t) (\<lambda>s. andThen (osTry s) (\<lambda>s. andThen (osTry s) (\<lambda>s.
          syncDirectory (onDisk (\<lambda>d. d\<lparr>snapshotFile := snapshotTmp d, snapshotTmp := None\<rparr>) s)))))))"

text \<open>The end of a checkpoint: delete the covered segment unless the service has failed.\<close>

definition dropPrevious :: "('e, 'p) Service \<Rightarrow> ('e, 'p) outcome" where
  "dropPrevious s =
    (case HealthError s of
       Some e \<Rightarrow> (Some e, s)
     | None \<Rightarrow> andThen (osTry s) (\<lambda>s. syncDirectory (onDisk (\<lambda>d. d\<lparr>walPrevious := None\<rparr>) s)))"

definition checkpoint :: "(snapshot \<Rightarrow> ('e, 'p) Service \<Rightarrow> ('e, 'p) outcome) \<Rightarrow> ('e, 'p) Service \<Rightarrow> ('e, 'p) outcome" where
  "checkpoint write s =
    (case freezeCheckpoint s of
       (Inl e, t) \<Rightarrow> (Some e, t)
     | (Inr state, t) \<Rightarrow> andThen (write state t) dropPrevious)"

definition Snapshot :: "('e, 'p) Service \<Rightarrow> ('e, 'p) outcome" where
  "Snapshot s = checkpoint writeSnapshot s"

section \<open>Startup and shutdown\<close>

text \<open>The index of engine orders, rebuilt from the orders of a snapshot.\<close>

definition rebuildIndex :: "(string, Order) fmap \<Rightarrow> (engineOrderKey, string) fmap" where
  "rebuildIndex os = fold (\<lambda>i ix. let od = fmget Order0 os i in
      if oEngineID od \<noteq> 0 \<and> live od then fmupd (oMarketID od, oEngineID od) i ix else ix)
    (sorted_list_of_fset (fmdom os)) fmempty"

definition loadLedger :: "snapshot \<Rightarrow> ledger" where
  "loadLedger sn = \<lparr>markets = snMarkets sn, orders = snOrders sn, engineOrders = rebuildIndex (snOrders sn),
     balances = snBalances sn, positions = snPositions sn, sequence = snSequence sn\<rparr>"

definition loadSnapshot :: "('e, 'p) Service \<Rightarrow> ('e, 'p) outcome" where
  "loadSnapshot s =
    andThen (osTry s) (\<lambda>s.
      case snapshotFile (disk s) of
        None \<Rightarrow> (None, s)
      | Some sn \<Rightarrow>
         (None, s\<lparr>sequence := snSequence sn, markets := snMarkets sn, orders := snOrders sn,
            balances := snBalances sn, positions := snPositions sn, engineOrders := rebuildIndex (snOrders sn)\<rparr>))"

text \<open>
  The service before anything is loaded, with the files, the engine and the projection as the
  process finds them.
\<close>

definition newService :: "('e, 'p) Config \<Rightarrow> disk \<Rightarrow> 'e \<Rightarrow> 'p \<Rightarrow> ('e, 'p) Service" where
  "newService c d e p = \<lparr>markets = fmempty, orders = fmempty, engineOrders = fmempty, balances = fmempty,
     positions = fmempty, sequence = 0, cfg = c, failure = None, walFile = False, disk = d,
     engineState = e, projection = p, uuidCount = 0, published = []\<rparr>"

definition NewWithConfig ::
  "(walLine \<Rightarrow> string) \<Rightarrow> ('e, 'p) Config \<Rightarrow> disk \<Rightarrow> 'e \<Rightarrow> 'p \<Rightarrow> goerror + ('e, 'p) Service" where
  "NewWithConfig h c d e p =
    (if OrderBatchSize c < 0 \<or> OrderBatchSize c > 32 then Inl (New ''order batch size must be between 0 and 32'')
     else if WALPath c = [] then Inl (New ''WAL path is required'')
     else
       case andThen (if SnapshotPath c \<noteq> [] then loadSnapshot (newService c d e p) else (None, newService c d e p))
              (\<lambda>s. andThen (replayFile h walPrevious cutPrevious s) (replay h)) of
         (Some err, _) \<Rightarrow> Inl err
       | (None, s) \<Rightarrow> Inr s)"

definition NewService :: "(walLine \<Rightarrow> string) \<Rightarrow> ('e, 'p) Config \<Rightarrow> string \<Rightarrow> 'e Engine option \<Rightarrow> disk \<Rightarrow> 'e \<Rightarrow> 'p \<Rightarrow>
    goerror + ('e, 'p) Service" where
  "NewService h c wal eng d e p =
    NewWithConfig h (c\<lparr>WALPath := wal, SnapshotPath := [], EngineOf := eng, ProjectorOf := None, SyncWAL := True,
      OrderBatchSize := 0, DisableEngineBatch := False, PublishQuotes := False\<rparr>) d e p"

definition Close :: "('e, 'p) queue \<Rightarrow> (goerror option \<times> ('e, 'p) queue) option" where
  "Close q =
    (case drainOrders (q\<lparr>qClosed := True\<rparr>) of
       None \<Rightarrow> None
     | Some q1 \<Rightarrow>
        (let s = qService q1
         in if walFile s
            then let (r, t) = osTry s in Some (r, q1\<lparr>qService := t\<lparr>walFile := False\<rparr>\<rparr>)
            else Some (None, q1)))"

section \<open>What the files say\<close>

text \<open>
  The accounting state recorded on disk: the snapshot, then the events of both segments that are
  newer than what is known so far.
\<close>

definition catchUp :: "Event list \<Rightarrow> 'a ledger_scheme \<Rightarrow> 'a ledger_scheme" where
  "catchUp es l = fold (\<lambda>e l. if sequence l < eSequence e then apply_event e l else l) es l"

definition emptyLedger :: ledger where
  "emptyLedger = \<lparr>markets = fmempty, orders = fmempty, engineOrders = fmempty, balances = fmempty,
     positions = fmempty, sequence = 0\<rparr>"

fun lineContent :: "walLine \<Rightarrow> Event list" where
  "lineContent (Batch v es) = es"
| "lineContent (Legacy e) = [e]"
| "lineContent Corrupt = []"
| "lineContent Torn = []"

definition logEvents :: "walLine list option \<Rightarrow> Event list" where
  "logEvents f = (case f of None \<Rightarrow> [] | Some ls \<Rightarrow> concat (map lineContent ls))"

definition baseLedger :: "disk \<Rightarrow> ledger" where
  "baseLedger d = (case snapshotFile d of None \<Rightarrow> emptyLedger | Some sn \<Rightarrow> loadLedger sn)"

definition diskLedger :: "disk \<Rightarrow> ledger" where
  "diskLedger d = catchUp (logEvents (walCurrent d)) (catchUp (logEvents (walPrevious d)) (baseLedger d))"

definition increasing :: "Event list \<Rightarrow> bool" where
  "increasing es \<longleftrightarrow> sorted_wrt (<) (0 # map eSequence es)"

text \<open>A segment the service wrote: batches of version 1, with an unterminated last line at most.\<close>

definition goodLine :: "(walLine \<Rightarrow> nat) \<Rightarrow> walLine \<Rightarrow> bool" where
  "goodLine len l \<longleftrightarrow> (\<exists>es. l = Batch 1 es \<and> es \<noteq> [] \<and> len l + 1 \<le> maxWALRecord)"

definition goodLog :: "(walLine \<Rightarrow> nat) \<Rightarrow> walLine list option \<Rightarrow> bool" where
  "goodLog len f \<longleftrightarrow> increasing (logEvents f) \<and>
     (case f of
        None \<Rightarrow> True
      | Some ls \<Rightarrow> list_all (goodLine len) ls \<or>
          (ls \<noteq> [] \<and> last ls = Torn \<and> len Torn + 1 \<le> maxWALRecord \<and> list_all (goodLine len) (butlast ls)))"

end
