(* ===== verification/Recovery.thy ===== *)
theory Recovery
  imports Checkpoint
begin

text \<open>
  Crash recovery. Starting a service from the files yields the accounting state they record,
  with an unterminated last line removed; every successful commit, the rotation of the log, the
  new snapshot and the deletion of the covered segment keep the files and the service in step,
  so a crash between any two of them loses nothing.
\<close>

section \<open>Catching up\<close>

lemma sequence_apply_event: "sequence (apply_event e s) = max (sequence s) (eSequence e)"
  by (simp add: apply_event_def Let_def addBalance_def putOrder_def addPosition_def split: EventType.splits)

lemma catchUp_simps [simp]:
  "catchUp [] l = l" "catchUp (e # es) l = catchUp es (if sequence l < eSequence e then apply_event e l else l)"
  "catchUp (es @ es') l = catchUp es' (catchUp es l)"
  by (simp_all add: catchUp_def)

lemma apply_all_simps [simp]: "apply_all [] s = s" "apply_all (e # es) s = apply_all es (apply_event e s)"
  by (simp_all add: apply_all_def)

lemma catchUp_filter:
  assumes "sorted_wrt (<) (map eSequence es)"
  shows "apply_all (filter (\<lambda>e. sequence l < eSequence e) es) l = catchUp es l"
  using assms
proof (induction es arbitrary: l)
  case (Cons e es)
  show ?case
  proof (cases "sequence l < eSequence e")
    case True
    have "sequence (apply_event e l) = eSequence e" using True by (simp add: sequence_apply_event)
    moreover have "sequence l < eSequence x \<and> eSequence e < eSequence x" if "x \<in> set es" for x
      using Cons.prems that True by auto
    ultimately have "filter (\<lambda>x. sequence l < eSequence x) es = filter (\<lambda>x. sequence (apply_event e l) < eSequence x) es"
      by (intro filter_cong) auto
    then show ?thesis using Cons True by simp
  next
    case False
    then show ?thesis using Cons by simp
  qed
qed simp

lemma catchUp_old:
  assumes "\<And>e. e \<in> set es \<Longrightarrow> eSequence e \<le> sequence l"
  shows "catchUp es l = l"
  using assms
proof (induction es)
  case (Cons e es)
  have "\<not> sequence l < eSequence e" using Cons.prems [of e] by simp
  then show ?case using Cons by simp
qed simp

lemma catchUp_mono: "sequence l \<le> sequence (catchUp es l)"
proof (induction es arbitrary: l)
  case (Cons e es)
  have "sequence l \<le> sequence (if sequence l < eSequence e then apply_event e l else l)" by (simp add: sequence_apply_event)
  then show ?case unfolding catchUp_simps(2) using Cons.IH order_trans by blast
qed simp

lemma catchUp_covers: "e \<in> set es \<Longrightarrow> eSequence e \<le> sequence (catchUp es l)"
proof (induction es arbitrary: l)
  case (Cons x es)
  have "eSequence x \<le> sequence (if sequence l < eSequence x then apply_event x l else l)" by (simp add: sequence_apply_event)
  then have "eSequence x \<le> sequence (catchUp (x # es) l)" unfolding catchUp_simps(2) using catchUp_mono order_trans by blast
  then show ?case using Cons by auto
qed simp

text \<open>The accounting part of a service, and how events act on it.\<close>

lemma truncate_apply: "ledger.truncate (apply_event e s) = apply_event e (ledger.truncate s)"
  by (simp add: apply_event_def Let_def addBalance_def putOrder_def addPosition_def ledger.truncate_def
      split: EventType.splits option.splits)

lemma truncate_apply_all: "ledger.truncate (apply_all es s) = apply_all es (ledger.truncate s)"
  by (induction es arbitrary: s) (simp_all add: truncate_apply)

lemma truncate_sequence [simp]: "sequence (ledger.truncate s) = sequence s"
  by (simp add: ledger.truncate_def)

lemma truncate_frame [simp]:
  "ledger.truncate (s\<lparr>disk := d\<rparr>) = ledger.truncate s" "ledger.truncate (s\<lparr>projection := p\<rparr>) = ledger.truncate s"
  "ledger.truncate (s\<lparr>failure := f\<rparr>) = ledger.truncate s" "ledger.truncate (s\<lparr>walFile := w\<rparr>) = ledger.truncate s"
  "ledger.truncate (s\<lparr>uuidCount := c\<rparr>) = ledger.truncate s"
  by (simp_all add: ledger.truncate_def)

section \<open>Replay of a segment\<close>

lemma scanBatch_increasing:
  assumes "sorted_wrt (<) (previous # map eSequence es)"
  shows "scanBatch current previous es = Inr (last (previous # map eSequence es), filter (\<lambda>e. current < eSequence e) es)"
  using assms by (induction es arbitrary: previous) auto

text \<open>
  A projection in a state \<open>p\<close> that takes every batch of events in \<open>E\<close>, one after the other: some
  property of its states holds of \<open>p\<close>, is enough for such a batch to be taken, and is kept.
\<close>

definition accepts :: "('e, 'p) Config \<Rightarrow> ('p \<Rightarrow> bool) \<Rightarrow> Event set \<Rightarrow> bool" where
  "accepts c I E \<longleftrightarrow>
    (case ProjectorOf c of
       None \<Rightarrow> True
     | Some pr \<Rightarrow> (\<forall>p es. I p \<longrightarrow> set es \<subseteq> E \<longrightarrow>
         (\<exists>p'. (case ApplyBatch pr of Some f \<Rightarrow> f p es | None \<Rightarrow> applyEach pr es p) = (None, p') \<and> I p')))"

definition projectorOk :: "('e, 'p) Config \<Rightarrow> 'p \<Rightarrow> Event set \<Rightarrow> bool" where
  "projectorOk c p E \<longleftrightarrow> (\<exists>I. I p \<and> accepts c I E)"

lemma projectorOk_none: "ProjectorOf c = None \<Longrightarrow> projectorOk c p E"
  by (auto simp: projectorOk_def accepts_def)

text \<open>A state that differs only in the projection and the files.\<close>

definition alike :: "('e, 'p) Service \<Rightarrow> ('e, 'p) Service \<Rightarrow> bool" where
  "alike s t \<longleftrightarrow> cfg t = cfg s \<and> failure t = failure s \<and> walFile t = walFile s \<and> engineState t = engineState s \<and>
     published t = published s"

lemma alike_refl [simp]: "alike s s" by (simp add: alike_def)

lemma alike_trans: "alike s t \<Longrightarrow> alike t u \<Longrightarrow> alike s u" by (simp add: alike_def)

lemma projectRaw_ok:
  assumes "accepts (cfg s) I E" and "I (projection s)" and "set es \<subseteq> E"
  obtains p where "projectRaw es s = (None, s\<lparr>projection := p\<rparr>)" "I p"
proof (cases "ProjectorOf (cfg s)")
  case None
  then show thesis using that [of "projection s"] assms(2) by (simp add: projectRaw_def)
next
  case (Some pr)
  have "\<forall>p es. I p \<longrightarrow> set es \<subseteq> E \<longrightarrow>
      (\<exists>p'. (case ApplyBatch pr of Some f \<Rightarrow> f p es | None \<Rightarrow> applyEach pr es p) = (None, p') \<and> I p')"
    using assms(1) unfolding accepts_def Some option.case .
  then obtain p where "(case ApplyBatch pr of Some f \<Rightarrow> f (projection s) es | None \<Rightarrow> applyEach pr es (projection s)) = (None, p)" "I p"
    using assms(2,3) by blast
  then show thesis using that [of p] Some by (simp add: projectRaw_def)
qed

lemma replayBatch_ok:
  assumes "sorted_wrt (<) (previous # map eSequence es)" and "accepts (cfg s) I E" and "I (projection s)" and "set es \<subseteq> E"
  obtains t where "replayBatch previous es s = (Inr (last (previous # map eSequence es)), t)"
    "ledger.truncate t = catchUp es (ledger.truncate s)" "alike s t" "disk t = disk s" "I (projection t)"
proof -
  let ?fresh = "filter (\<lambda>e. sequence s < eSequence e) es"
  have led: "apply_all ?fresh (ledger.truncate s) = catchUp es (ledger.truncate s)"
    using catchUp_filter [of es "ledger.truncate s"] assms(1) by simp
  have "set ?fresh \<subseteq> E" using assms(4) by auto
  then obtain p where p: "projectRaw ?fresh s = (None, s\<lparr>projection := p\<rparr>)" "I p"
    by (rule projectRaw_ok [OF assms(2,3)])
  show thesis
  proof (cases "?fresh = []")
    case True
    then show thesis using that [of s] scanBatch_increasing [OF assms(1)] led assms(3) by (simp add: replayBatch_def)
  next
    case False
    then show thesis
      using that [of "apply_all ?fresh (s\<lparr>projection := p\<rparr>)"] scanBatch_increasing [OF assms(1), of "sequence s"] p led
      by (simp add: replayBatch_def truncate_apply_all alike_def)
  qed
qed

text \<open>Calls that all succeed.\<close>

abbreviation calm :: "('e, 'p) Service \<Rightarrow> bool" where
  "calm s \<equiv> ioScript (disk s) = []"

lemma calm_calls [simp]: "calm s \<Longrightarrow> osCall s = (IoOk, s)" "calm s \<Longrightarrow> osTry s = (None, s)"
  by (simp_all add: osCall_def osTry_def)

lemma sorted_split:
  assumes "sorted_wrt (<) (previous # map eSequence (es @ es'))"
  shows "sorted_wrt (<) (previous # map eSequence es)" and "sorted_wrt (<) (last (previous # map eSequence es) # map eSequence es')"
proof -
  show "sorted_wrt (<) (previous # map eSequence es)" using assms by (auto simp: sorted_wrt_append)
  show "sorted_wrt (<) (last (previous # map eSequence es) # map eSequence es')"
  proof (cases es rule: rev_cases)
    case Nil
    then show ?thesis using assms by simp
  next
    case (snoc xs x)
    then show ?thesis using assms by (auto simp: sorted_wrt_append)
  qed
qed

text \<open>The good lines at the start of a segment, whatever follows them.\<close>

lemma replayLines_good:
  assumes "calm s" and "accepts (cfg s) I E" and "list_all (goodLine (recordLen (cfg s))) ls"
    and "sorted_wrt (<) (previous # map eSequence (concat (map lineContent ls)))"
    and "I (projection s)" and "set (concat (map lineContent ls)) \<subseteq> E"
  obtains t where "replayLines h cutAt n previous (ls @ rest) s =
      replayLines h cutAt (n + length ls) (last (previous # map eSequence (concat (map lineContent ls)))) rest t"
    "ledger.truncate t = catchUp (concat (map lineContent ls)) (ledger.truncate s)" "alike s t" "disk t = disk s" "I (projection t)"
proof -
  have "\<exists>t. replayLines h cutAt n previous (ls @ rest) s =
      replayLines h cutAt (n + length ls) (last (previous # map eSequence (concat (map lineContent ls)))) rest t \<and>
    ledger.truncate t = catchUp (concat (map lineContent ls)) (ledger.truncate s) \<and> alike s t \<and> disk t = disk s \<and> I (projection t)"
    using assms
  proof (induction ls arbitrary: n previous s)
    case (Cons l ls)
    obtain es where l: "l = Batch 1 es" "es \<noteq> []" "\<not> recordLen (cfg s) l + 1 > maxWALRecord"
      using Cons.prems(3) by (auto simp: goodLine_def not_less)
    have sp: "sorted_wrt (<) (previous # map eSequence (es @ concat (map lineContent ls)))" using Cons.prems(4) l(1) by simp
    let ?prev = "last (previous # map eSequence es)"
    obtain t where t: "replayBatch previous es s = (Inr ?prev, t)" "ledger.truncate t = catchUp es (ledger.truncate s)"
        "alike s t" "disk t = disk s" "I (projection t)"
      using replayBatch_ok [OF sorted_split(1) [OF sp] Cons.prems(2,5)] Cons.prems(6) l(1) by auto
    have c: "cfg t = cfg s" using t(3) by (simp add: alike_def)
    obtain u where u: "replayLines h cutAt (Suc n) ?prev (ls @ rest) t = replayLines h cutAt (Suc n + length ls)
          (last (?prev # map eSequence (concat (map lineContent ls)))) rest u"
        "ledger.truncate u = catchUp (concat (map lineContent ls)) (ledger.truncate t)" "alike t u" "disk u = disk t" "I (projection u)"
      using Cons.IH [of t ?prev "Suc n"] Cons.prems(1-3,6) sorted_split(2) [OF sp] c t(4,5) by auto
    have "lineEvents h l = Inr es" "l \<noteq> Torn" using l(1,2) by simp_all
    then have "replayLines h cutAt n previous ((l # ls) @ rest) s = replayLines h cutAt (Suc n) ?prev (ls @ rest) t"
      using Cons.prems(1) l(3) t(1) by simp
    moreover have "last (?prev # map eSequence (concat (map lineContent ls))) =
        last (previous # map eSequence (concat (map lineContent (l # ls))))"
      using l(1,2) by simp
    ultimately show ?case using u t(2-4) l(1) alike_trans [OF t(3) u(3)] by auto
  qed auto
  then show thesis using that by blast
qed

definition keptLines :: "walLine list \<Rightarrow> walLine list" where
  "keptLines ls = (if ls \<noteq> [] \<and> last ls = Torn then butlast ls else ls)"

lemma keptLines_good: "list_all (goodLine len) ls \<Longrightarrow> keptLines ls = ls"
  by (cases ls rule: rev_cases) (auto simp: keptLines_def goodLine_def)

text \<open>Replay of a segment: the events it records, with the unterminated line cut off.\<close>

lemma replayFile_ok:
  assumes "calm s" and "accepts (cfg s) I E" and "goodLog (recordLen (cfg s)) (path (disk s))"
    and proj: "I (projection s)" "set (logEvents (path (disk s))) \<subseteq> E"
    and cutAt: "\<And>n t. cutAt n t = t\<lparr>disk := upd (map_option (take n) (path (disk t))) (disk t)\<rparr>"
    and same: "upd (path (disk s)) (disk s) = disk s"
    and keepsScript: "\<And>x. ioScript (upd x (disk s)) = ioScript (disk s)"
  obtains t where "replayFile h path cutAt s = (None, t)" "ledger.truncate t = catchUp (logEvents (path (disk s))) (ledger.truncate s)"
    "alike s t" "disk t = upd (map_option keptLines (path (disk s))) (disk s)" "I (projection t)"
proof (cases "path (disk s)")
  case None
  then show thesis using that [of s] same proj(1) by (simp add: replayFile_def logEvents_def)
next
  case (Some ls)
  have inc: "sorted_wrt (<) (0 # map eSequence (concat (map lineContent ls)))"
    using assms(3) Some by (simp add: goodLog_def increasing_def logEvents_def)
  have sub: "set (concat (map lineContent ls)) \<subseteq> E" using proj(2) Some by (simp add: logEvents_def)
  show thesis
  proof (cases "list_all (goodLine (recordLen (cfg s))) ls")
    case True
    obtain t where t: "replayLines h cutAt 0 0 (ls @ []) s = replayLines h cutAt (0 + length ls)
          (last (0 # map eSequence (concat (map lineContent ls)))) [] t"
        "ledger.truncate t = catchUp (concat (map lineContent ls)) (ledger.truncate s)" "alike s t" "disk t = disk s" "I (projection t)"
      by (rule replayLines_good [OF assms(1,2) True inc proj(1) sub])
    then show thesis using that [of t] Some assms(1) same keptLines_good [OF True] by (simp add: replayFile_def logEvents_def)
  next
    case False
    then have ls: "ls = butlast ls @ [Torn]" "list_all (goodLine (recordLen (cfg s))) (butlast ls)" "recordLen (cfg s) Torn + 1 \<le> maxWALRecord"
      using assms(3) Some by (auto simp: goodLog_def) (metis append_butlast_last_id)
    have ev: "concat (map lineContent ls) = concat (map lineContent (butlast ls))" by (subst ls(1)) simp
    obtain t where t: "replayLines h cutAt 0 0 (butlast ls @ [Torn]) s = replayLines h cutAt (0 + length (butlast ls))
          (last (0 # map eSequence (concat (map lineContent (butlast ls))))) [Torn] t"
        "ledger.truncate t = catchUp (concat (map lineContent (butlast ls))) (ledger.truncate s)" "alike s t" "disk t = disk s" "I (projection t)"
      by (rule replayLines_good [OF assms(1,2) ls(2) inc [unfolded ev] proj(1) sub [unfolded ev]])
    have c: "cfg t = cfg s" "calm t" using t(3,4) assms(1) by (simp_all add: alike_def)
    have kept: "take (length ls - 1) ls = keptLines ls"
      using ls(1) by (metis butlast_conv_take keptLines_def last_snoc snoc_eq_iff_butlast)
    let ?t = "cutAt (length (butlast ls)) t"
    have d: "disk ?t = upd (Some (keptLines ls)) (disk s)" using Some kept t(4) by (simp add: cutAt)
    have "truncateRepair cutAt (length (butlast ls)) t = osTry ?t" using c(2) by (simp add: truncateRepair_def)
    also have "\<dots> = (None, ?t)" using d keepsScript assms(1) by simp
    finally have "replayFile h path cutAt s = (None, ?t)"
      using Some assms(1) t(1) ls(1,3) c by (simp add: replayFile_def)
    moreover have "ledger.truncate ?t = ledger.truncate t" "alike t ?t" "projection ?t = projection t" by (simp_all add: cutAt alike_def)
    ultimately show thesis
      using that [of ?t] d Some t(2,5) alike_trans [OF t(3)] ev by (simp add: logEvents_def)
  qed
qed

section \<open>Startup\<close>

text \<open>Both segments as the service leaves them.\<close>

definition goodFiles :: "(walLine \<Rightarrow> nat) \<Rightarrow> disk \<Rightarrow> bool" where
  "goodFiles len d \<longleftrightarrow> goodLog len (walPrevious d) \<and> goodLog len (walCurrent d)"

text \<open>The files after the repair of unterminated last lines.\<close>

definition repaired :: "disk \<Rightarrow> disk" where
  "repaired d = d\<lparr>walPrevious := map_option keptLines (walPrevious d), walCurrent := map_option keptLines (walCurrent d)\<rparr>"

lemma loadSnapshot_ok:
  assumes "calm s" and "ledger.truncate s = emptyLedger"
  obtains t where "loadSnapshot s = (None, t)" "ledger.truncate t = baseLedger (disk s)" "alike s t" "disk t = disk s"
    "projection t = projection s"
proof (cases "snapshotFile (disk s)")
  case None
  then show thesis using that [of s] assms by (simp add: loadSnapshot_def baseLedger_def)
next
  case (Some sn)
  let ?t = "s\<lparr>sequence := snSequence sn, markets := snMarkets sn, orders := snOrders sn, balances := snBalances sn,
    positions := snPositions sn, engineOrders := rebuildIndex (snOrders sn)\<rparr>"
  show thesis using assms(1) Some
    by (intro that [of ?t]) (simp_all add: loadSnapshot_def baseLedger_def loadLedger_def ledger.truncate_def alike_def)
qed

text \<open>The events in the log.\<close>

definition loggedEvents :: "disk \<Rightarrow> Event set" where
  "loggedEvents d = set (logEvents (walPrevious d)) \<union> set (logEvents (walCurrent d))"

lemma loggedEvents_frame [simp]:
  "loggedEvents (d\<lparr>ioScript := x\<rparr>) = loggedEvents d" "loggedEvents (d\<lparr>snapshotTmp := y\<rparr>) = loggedEvents d"
  "loggedEvents (d\<lparr>snapshotFile := z\<rparr>) = loggedEvents d"
  by (simp_all add: loggedEvents_def)

text \<open>
  A start on good files succeeds, with the accounting state the files record, no failure
  latched, and the unterminated lines cut off.
\<close>

lemma NewWithConfig_ok:
  assumes "0 \<le> OrderBatchSize c" "OrderBatchSize c \<le> 32" "WALPath c \<noteq> []" "SnapshotPath c \<noteq> []"
    and "ioScript d = []" and "goodFiles (recordLen c) d" and "projectorOk c p (loggedEvents d)"
  obtains s where "NewWithConfig h c d e p = Inr s" "ledger.truncate s = diskLedger d" "failure s = None"
    "cfg s = c" "engineState s = e" "disk s = repaired d"
proof -
  let ?s = "newService c d e p"
  obtain I where I: "I p" "accepts c I (loggedEvents d)" using assms(7) by (auto simp: projectorOk_def)
  have s0: "calm ?s" "ledger.truncate ?s = emptyLedger" "disk ?s = d" "cfg ?s = c" "projection ?s = p"
    using assms(5) by (simp_all add: newService_def ledger.truncate_def emptyLedger_def)
  obtain t where t: "loadSnapshot ?s = (None, t)" "ledger.truncate t = baseLedger d" "alike ?s t" "disk t = d" "projection t = p"
    using loadSnapshot_ok [OF s0(1,2)] s0(3,5) by metis
  have ct: "cfg t = c" "calm t" using t(3,4) s0(4) assms(5) by (simp_all add: alike_def)
  have g: "goodLog (recordLen c) (walPrevious d)" "goodLog (recordLen c) (walCurrent d)"
    using assms(6) by (simp_all add: goodFiles_def)
  obtain u where u: "replayFile h walPrevious cutPrevious t = (None, u)"
      "ledger.truncate u = catchUp (logEvents (walPrevious d)) (ledger.truncate t)" "alike t u"
      "disk u = d\<lparr>walPrevious := map_option keptLines (walPrevious d)\<rparr>" "I (projection u)"
    by (rule replayFile_ok [where s = t and path = walPrevious and cutAt = cutPrevious and
          upd = "\<lambda>x d. d\<lparr>walPrevious := x\<rparr>" and h = h and I = I and E = "loggedEvents d"])
      (use ct t(4,5) g I in \<open>auto simp: cutPrevious_def loggedEvents_def\<close>)
  have cu: "cfg u = c" "calm u" using u(3,4) ct assms(5) by (simp_all add: alike_def)
  obtain v where v: "replayFile h walCurrent cutCurrent u = (None, v)"
      "ledger.truncate v = catchUp (logEvents (walCurrent d)) (ledger.truncate u)" "alike u v"
      "disk v = (disk u)\<lparr>walCurrent := map_option keptLines (walCurrent d)\<rparr>"
    by (rule replayFile_ok [where s = u and path = walCurrent and cutAt = cutCurrent and
          upd = "\<lambda>x d. d\<lparr>walCurrent := x\<rparr>" and h = h and I = I and E = "loggedEvents d"])
      (use cu u(4,5) g I in \<open>auto simp: cutCurrent_def loggedEvents_def\<close>)
  have "alike ?s v" using t(3) u(3) v(3) alike_trans by blast
  then have al: "cfg v = c" "failure v = None" "engineState v = e" by (simp_all add: alike_def newService_def)
  show thesis
  proof (rule that [of v])
    show "NewWithConfig h c d e p = Inr v" using assms(1-4) t(1) u(1) v(1) by (simp add: NewWithConfig_def replay_def)
    show "ledger.truncate v = diskLedger d" using t(2) u(2) v(2) by (simp add: diskLedger_def)
    show "disk v = repaired d" using v(4) u(4) by (simp add: repaired_def)
  qed (use al in simp_all)
qed

end
