(* ===== verification/Durability.thy ===== *)
theory Durability
  imports Recovery
begin

text \<open>
  The files and the service stay in step. While no failure is latched, the accounting state is
  the one the files record: a successful commit, the rotation of the log, the new snapshot and
  the deletion of the covered segment all keep this, in any interleaving of commits with the
  three phases of a checkpoint. A commit that fails leaves files that record the state before
  it or the state after it.
\<close>

section \<open>The index of engine orders\<close>

lemma resting_zero [simp]: "\<not> restingAs m e Order0"
  by (auto simp: restingAs_def Order0_def)

lemma rebuildIndex_fold:
  assumes "distinct is" and "\<And>i. i \<in> set is \<Longrightarrow> fmlookup os i \<noteq> None"
    and "\<And>i j od od'. fmlookup os i = Some od \<Longrightarrow> fmlookup os j = Some od' \<Longrightarrow> restingAs m e od \<Longrightarrow>
      restingAs m e od' \<Longrightarrow> i = j"
  shows "fmlookup (fold (\<lambda>i ix. let od = fmget Order0 os i in
      if oEngineID od \<noteq> 0 \<and> live od then fmupd (oMarketID od, oEngineID od) i ix else ix) is ix) (m, e) = Some k \<longleftrightarrow>
    (k \<in> set is \<and> restingAs m e (fmget Order0 os k)) \<or>
    ((\<forall>i\<in>set is. \<not> restingAs m e (fmget Order0 os i)) \<and> fmlookup ix (m, e) = Some k)"
  using assms(1,2)
proof (induction "is" arbitrary: ix)
  case (Cons i ks)
  let ?od = "fmget Order0 os i"
  have uniq: "i = j" if "restingAs m e ?od" "j \<in> set ks" "restingAs m e (fmget Order0 os j)" for j
    using assms(3) [of i ?od j] that Cons.prems by (auto simp: fmget_def split: option.splits)
  show ?case
  proof (cases "restingAs m e ?od")
    case True
    then have "\<forall>j\<in>set ks. \<not> restingAs m e (fmget Order0 os j)" using uniq Cons.prems(1) by auto
    then show ?thesis using Cons True by (auto simp: Let_def restingAs_def)
  next
    case False
    then have "fmlookup (if oEngineID ?od \<noteq> 0 \<and> live ?od then fmupd (oMarketID ?od, oEngineID ?od) i ix else ix) (m, e)
        = fmlookup ix (m, e)"
      by (auto simp: restingAs_def)
    then show ?thesis using Cons False by (auto simp: Let_def)
  qed
qed simp

lemma frozen_load:
  assumes "indexed s"
  shows "loadLedger (frozen s) = ledger.truncate s"
proof -
  have uniq: "i = j" if "fmlookup (orders s) i = Some od" "fmlookup (orders s) j = Some od'" "restingAs m e od" "restingAs m e od'"
    for i j od od' m e
    using assms that indexedD [OF assms, of m e] by (metis option.inject)
  have "fmlookup (rebuildIndex (orders s)) (m, e) = Some k \<longleftrightarrow> fmlookup (engineOrders s) (m, e) = Some k" for m e k
  proof -
    have "fmlookup (rebuildIndex (orders s)) (m, e) = Some k \<longleftrightarrow>
        k \<in> fmdom' (orders s) \<and> restingAs m e (fmget Order0 (orders s) k)"
      unfolding rebuildIndex_def
      by (subst rebuildIndex_fold [where m = m and e = e]) (use uniq in \<open>auto simp: set_sorted_keys fmlookup_dom_iff fmlookup_dom'_iff\<close>)
    also have "\<dots> \<longleftrightarrow> (\<exists>od. fmlookup (orders s) k = Some od \<and> restingAs m e od)"
      by (auto simp: fmget_def fmlookup_dom'_iff split: option.splits)
    finally show ?thesis using indexedD [OF assms, of m e k] by simp
  qed
  then have "fmlookup (rebuildIndex (orders s)) x = fmlookup (engineOrders s) x" for x
    by (cases x) (metis option.exhaust)
  then have "rebuildIndex (orders s) = engineOrders s" by (intro fmap_ext) simp
  then show ?thesis by (simp add: loadLedger_def frozen_def ledger.truncate_def)
qed

section \<open>Files in step with the service\<close>

definition wholeLog :: "(walLine \<Rightarrow> nat) \<Rightarrow> walLine list option \<Rightarrow> bool" where
  "wholeLog len f \<longleftrightarrow> increasing (logEvents f) \<and> (case f of None \<Rightarrow> True | Some ls \<Rightarrow> list_all (goodLine len) ls)"

definition wholeFiles :: "(walLine \<Rightarrow> nat) \<Rightarrow> disk \<Rightarrow> bool" where
  "wholeFiles len d \<longleftrightarrow> wholeLog len (walPrevious d) \<and> wholeLog len (walCurrent d)"

definition durable :: "('e, 'p) Service \<Rightarrow> bool" where
  "durable s \<longleftrightarrow> wholeFiles (recordLen (cfg s)) (disk s) \<and> ledger.truncate s = diskLedger (disk s)"

lemma whole_good: "wholeLog len f \<Longrightarrow> goodLog len f" "wholeFiles len d \<Longrightarrow> goodFiles len d"
  by (auto simp: wholeLog_def goodLog_def wholeFiles_def goodFiles_def split: option.splits)

lemma diskLedger_frame [simp]:
  "diskLedger (d\<lparr>ioScript := x\<rparr>) = diskLedger d" "diskLedger (d\<lparr>snapshotTmp := y\<rparr>) = diskLedger d"
  "wholeFiles len (d\<lparr>ioScript := x\<rparr>) = wholeFiles len d" "wholeFiles len (d\<lparr>snapshotTmp := y\<rparr>) = wholeFiles len d"
  "wholeFiles len (d\<lparr>snapshotFile := z\<rparr>) = wholeFiles len d"
  by (simp_all add: diskLedger_def baseLedger_def wholeFiles_def)

lemma diskLedger_covers: "e \<in> set (logEvents (walCurrent d)) \<Longrightarrow> eSequence e \<le> sequence (diskLedger d)"
  by (simp add: diskLedger_def catchUp_covers)

section \<open>A commit\<close>

lemma next_event_numbers:
  assumes "next_event e s = (e1, t)" and "sequence s + 1 < 2 ^ 64"
  shows "eSequence e1 = sequence s + 1" and "sequence t = sequence s + 1"
  using assms by (auto simp: next_event_def Let_def split: if_splits)

lemma nextAll_numbers:
  assumes "nextAll es s = (es1, t)" and "sequence s + length es < 2 ^ 64"
  shows "map eSequence es1 = [Suc (sequence s)..<Suc (sequence s + length es)]" and "sequence t = sequence s + length es"
proof -
  have "map eSequence es1 = [Suc (sequence s)..<Suc (sequence s + length es)] \<and> sequence t = sequence s + length es"
    using assms
  proof (induction es arbitrary: s es1)
    case (Cons e es)
    obtain e1 s1 where n: "next_event e s = (e1, s1)" by (cases "next_event e s")
    obtain es2 where r: "nextAll es s1 = (es2, t)" "es1 = e1 # es2"
      using Cons.prems(1) n by (auto split: prod.splits)
    have "eSequence e1 = Suc (sequence s)" "sequence s1 = Suc (sequence s)"
      using next_event_numbers [OF n] Cons.prems(2) by simp_all
    then show ?case using Cons.IH [OF r(1)] Cons.prems(2) r(2) by (simp add: upt_rec)
  qed simp
  then show "map eSequence es1 = [Suc (sequence s)..<Suc (sequence s + length es)]" "sequence t = sequence s + length es"
    by simp_all
qed

text \<open>What an append leaves in the current segment: nothing new, a torn line, or the record.\<close>

definition currentLines :: "disk \<Rightarrow> walLine list" where
  "currentLines d = (case walCurrent d of None \<Rightarrow> [] | Some ls \<Rightarrow> ls)"

lemma logEvents_current: "logEvents (walCurrent d) = concat (map lineContent (currentLines d))"
  by (simp add: logEvents_def currentLines_def split: option.split)

lemma wholeFiles_current:
  "wholeFiles len d \<longleftrightarrow> wholeLog len (walPrevious d) \<and> increasing (logEvents (walCurrent d)) \<and>
     list_all (goodLine len) (currentLines d)"
  by (auto simp: wholeFiles_def wholeLog_def currentLines_def split: option.splits)

definition sameFiles :: "('e, 'p) Service \<Rightarrow> walLine list \<Rightarrow> ('e, 'p) Service \<Rightarrow> bool" where
  "sameFiles s ls t \<longleftrightarrow> currentLines (disk t) = ls \<and> walPrevious (disk t) = walPrevious (disk s) \<and>
     snapshotFile (disk t) = snapshotFile (disk s) \<and> cfg t = cfg s \<and> ledger.truncate t = ledger.truncate s"

lemma sameFiles_refl [simp]: "sameFiles s (currentLines (disk s)) s"
  by (simp add: sameFiles_def)

lemma sameFiles_os [simp]:
  "sameFiles s ls (snd (osCall t)) = sameFiles s ls t" "sameFiles s ls (snd (osTry t)) = sameFiles s ls t"
  by (auto simp: sameFiles_def osTry_def osCall_def currentLines_def split: list.splits)

lemma sameFiles_update [simp]:
  "sameFiles s ls (t\<lparr>walFile := f\<rparr>) = sameFiles s ls t" "sameFiles s ls (t\<lparr>projection := p\<rparr>) = sameFiles s ls t"
  "sameFiles s ls (t\<lparr>failure := x\<rparr>) = sameFiles s ls t"
  by (auto simp: sameFiles_def)

lemma sameFiles_setWal: "sameFiles s ls t \<Longrightarrow> sameFiles s (f ls) (setWal f t)"
  by (auto simp: sameFiles_def setWal_def currentLines_def)

lemma sameFiles_create: "sameFiles s ls t \<Longrightarrow> sameFiles s ls (setWal (\<lambda>ls. ls) t)"
  by (rule sameFiles_setWal)

lemma sameFiles_andThen:
  assumes "sameFiles s ls (snd r)" and "\<And>t. sameFiles s ls t \<Longrightarrow> sameFiles s ls (snd (k t))"
  shows "sameFiles s ls (snd (andThen r k))"
  using assms by (auto simp: andThen_def split: prod.splits option.splits)

lemma sameFiles_sync: "sameFiles s ls t \<Longrightarrow> sameFiles s ls (snd (syncDirectory t))"
  by (simp add: syncDirectory_def sameFiles_andThen)

lemma sameFiles_openWAL: "sameFiles s ls t \<Longrightarrow> sameFiles s ls (snd (openWAL t))"
  by (auto simp: openWAL_def Let_def intro!: sameFiles_andThen sameFiles_sync sameFiles_create)

lemma sameFiles_writeLine:
  assumes "writeLine l t = (r, u)" and "sameFiles s ls t"
  shows "r = None \<Longrightarrow> sameFiles s (appendLine ls l) u"
    and "r \<noteq> None \<Longrightarrow> sameFiles s ls u \<or> sameFiles s (appendLine ls Torn) u"
proof -
  obtain x v where v: "osCall t = (x, v)" by (rule prod.exhaust)
  have "sameFiles s ls v" using assms(2) v by (metis sameFiles_os(1) snd_conv)
  then show "r = None \<Longrightarrow> sameFiles s (appendLine ls l) u"
      "r \<noteq> None \<Longrightarrow> sameFiles s ls u \<or> sameFiles s (appendLine ls Torn) u"
    using assms(1) v sameFiles_setWal [of s ls v "\<lambda>ls. appendLine ls l"] sameFiles_setWal [of s ls v "\<lambda>ls. appendLine ls Torn"]
    by (auto simp: writeLine_def split: ioOutcome.splits)
qed

lemma sameFiles_appendMany:
  assumes "appendMany es t = (r, u)" and "sameFiles s ls t"
  shows "r = None \<Longrightarrow> sameFiles s (appendLine ls (Batch 1 es)) u \<and> recordLen (cfg s) (Batch 1 es) + 1 < maxWALRecord"
    and "r \<noteq> None \<Longrightarrow> sameFiles s ls u \<or> sameFiles s (appendLine ls Torn) u \<or>
      sameFiles s (appendLine ls (Batch 1 es)) u \<and> recordLen (cfg s) (Batch 1 es) + 1 < maxWALRecord"
proof -
  obtain r1 v where v: "openWAL t = (r1, v)" by (rule prod.exhaust)
  have sv: "sameFiles s ls v" using sameFiles_openWAL [OF assms(2)] v by simp
  obtain r2 w where w: "writeLine (Batch 1 es) v = (r2, w)" by (rule prod.exhaust)
  note sw = sameFiles_writeLine [OF w sv]
  have sy: "sameFiles s x (snd (osTry w)) = sameFiles s x w" for x by simp
  have c: "cfg v = cfg s" using sv by (simp add: sameFiles_def)
  have "(r = None \<longrightarrow> sameFiles s (appendLine ls (Batch 1 es)) u \<and> recordLen (cfg s) (Batch 1 es) + 1 < maxWALRecord) \<and>
      (r \<noteq> None \<longrightarrow> sameFiles s ls u \<or> sameFiles s (appendLine ls Torn) u \<or>
        sameFiles s (appendLine ls (Batch 1 es)) u \<and> recordLen (cfg s) (Batch 1 es) + 1 < maxWALRecord)"
  proof (cases "r1 = None \<and> recordLen (cfg s) (Batch 1 es) + 1 < maxWALRecord")
    case False
    then have "u = v \<and> r \<noteq> None" using assms(1) v c by (cases r1) (auto simp: appendMany_def)
    then show ?thesis using sv by auto
  next
    case True
    then have a: "(r, u) = andThen (r2, w) (\<lambda>s. if SyncWAL (cfg s) then osTry s else (None, s))"
      using assms(1) v w c by (simp add: appendMany_def)
    show ?thesis
    proof (cases r2)
      case None
      then have "u = w \<or> u = snd (osTry w)" using a by (auto split: if_splits) (metis snd_conv)+
      then show ?thesis using sw(1) None True sy by auto
    next
      case (Some e)
      then show ?thesis using a sw(2) by auto
    qed
  qed
  then show "r = None \<Longrightarrow> sameFiles s (appendLine ls (Batch 1 es)) u \<and> recordLen (cfg s) (Batch 1 es) + 1 < maxWALRecord"
    and "r \<noteq> None \<Longrightarrow> sameFiles s ls u \<or> sameFiles s (appendLine ls Torn) u \<or>
      sameFiles s (appendLine ls (Batch 1 es)) u \<and> recordLen (cfg s) (Batch 1 es) + 1 < maxWALRecord" by blast+
qed

text \<open>The record of a batch, appended to whole files.\<close>

lemma increasing_append:
  assumes "increasing es" and "sorted_wrt (<) (map eSequence es')"
    and "\<And>e e'. e \<in> set es \<Longrightarrow> e' \<in> set es' \<Longrightarrow> eSequence e < eSequence e'" and "\<And>e. e \<in> set es' \<Longrightarrow> 0 < eSequence e"
  shows "increasing (es @ es')"
  using assms by (auto simp: increasing_def sorted_wrt_append)

lemma numbered:
  assumes "map eSequence es = [Suc n..<Suc (n + k)]"
  shows "sorted_wrt (<) (map eSequence es)" and "e \<in> set es \<Longrightarrow> n < eSequence e"
proof -
  show "sorted_wrt (<) (map eSequence es)" unfolding assms by (rule sorted_wrt_upt)
  assume "e \<in> set es"
  then have "eSequence e \<in> set [Suc n..<Suc (n + k)]" using assms by (metis image_eqI set_map)
  then show "n < eSequence e" unfolding set_upt by simp
qed

lemma diskLedger_append:
  assumes "logEvents (walCurrent d') = logEvents (walCurrent d) @ es" and "walPrevious d' = walPrevious d"
    and "snapshotFile d' = snapshotFile d" and "map eSequence es = [Suc (sequence (diskLedger d))..<Suc (sequence (diskLedger d) + n)]"
  shows "diskLedger d' = apply_all es (diskLedger d)"
proof -
  have "filter (\<lambda>e. sequence (diskLedger d) < eSequence e) es = es" using numbered(2) [OF assms(4)] by (simp add: filter_id_conv)
  then have "catchUp es (diskLedger d) = apply_all es (diskLedger d)"
    using catchUp_filter [OF numbered(1) [OF assms(4)], of "diskLedger d"] by simp
  then show ?thesis using assms(1-3) by (simp add: diskLedger_def baseLedger_def)
qed

lemma sequence_apply_all: "sequence (apply_all es s) = fold max (map eSequence es) (sequence s)"
  by (induction es arbitrary: s) (simp_all add: sequence_apply_event max.commute)

text \<open>
  What the files say after the append of a numbered batch to whole files: the state before, or
  the state with the batch.
\<close>

lemma appended_files:
  assumes "durable s" and "map eSequence es = [Suc (sequence s)..<Suc (sequence s + length es)]" and "es \<noteq> []"
    and "walPrevious d = walPrevious (disk s)" and "snapshotFile d = snapshotFile (disk s)"
    and "currentLines d = currentLines (disk s) @ [Batch 1 es]" and "recordLen (cfg s) (Batch 1 es) + 1 < maxWALRecord"
  shows "wholeFiles (recordLen (cfg s)) d" and "diskLedger d = apply_all es (ledger.truncate s)"
proof -
  have w: "wholeFiles (recordLen (cfg s)) (disk s)" and l: "ledger.truncate s = diskLedger (disk s)"
    using assms(1) by (simp_all add: durable_def)
  have ev: "logEvents (walCurrent d) = logEvents (walCurrent (disk s)) @ es"
    using assms(6) by (simp add: logEvents_current)
  have sq: "sequence s = sequence (diskLedger (disk s))" using l truncate_sequence by metis
  have old: "eSequence e \<le> sequence s" if "e \<in> set (logEvents (walCurrent (disk s)))" for e
    using diskLedger_covers [OF that] sq by simp
  note new = numbered(2) [OF assms(2)]
  have "increasing (logEvents (walCurrent d))"
    unfolding ev
  proof (rule increasing_append)
    show "increasing (logEvents (walCurrent (disk s)))" using w by (simp add: wholeFiles_current)
    show "sorted_wrt (<) (map eSequence es)" by (rule numbered(1) [OF assms(2)])
    show "eSequence e < eSequence e'" if "e \<in> set (logEvents (walCurrent (disk s)))" "e' \<in> set es" for e e'
      using old [OF that(1)] new [OF that(2)] by simp
    show "0 < eSequence e" if "e \<in> set es" for e using new [OF that] by linarith
  qed
  then show "wholeFiles (recordLen (cfg s)) d"
    using w assms(3,4,6,7) by (simp add: wholeFiles_current goodLine_def)
  show "diskLedger d = apply_all es (ledger.truncate s)"
    using diskLedger_append [OF ev assms(4,5)] assms(2) sq l by simp
qed

lemma appendLine_good: "list_all (goodLine len) ls \<Longrightarrow> appendLine ls l = ls @ [l]"
  by (cases ls rule: rev_cases) (auto simp: appendLine_def goodLine_def)

lemma nextAll_nonempty: "nextAll es s = (es1, t) \<Longrightarrow> length es1 = length es"
  by (induction es arbitrary: s es1) (auto split: prod.splits)

lemma truncate_numbered: "nextAll es s = (es1, t) \<Longrightarrow> ledger.truncate t = (ledger.truncate s)\<lparr>sequence := sequence t\<rparr>"
  using nextAll_keeps [of es s es1 t] by (auto simp: keeps_def book_eq_iff ledger.truncate_def)

lemma apply_numbered:
  assumes "map eSequence es = [Suc n..<Suc (n + length es)]" and "sequence l = n" and "es \<noteq> []"
  shows "apply_all es (l\<lparr>sequence := n + length es\<rparr>) = (apply_all es l :: ledger)"
proof -
  have top: "fold max (map eSequence es) k = n + length es" if "k \<le> n + length es" for k
  proof -
    have "fold max (map eSequence es) k = Max (set (k # map eSequence es))" by (rule Max.set_eq_fold [symmetric])
    also have "set (map eSequence es) = set [Suc n..<Suc (n + length es)]" using assms(1) by simp
    then have "set (k # map eSequence es) = insert k {Suc n..<Suc (n + length es)}" unfolding list.set set_upt by simp
    also have "Max (insert k {Suc n..<Suc (n + length es)}) = n + length es"
      using that assms(3) by (intro Max_eqI) (auto simp: Suc_le_eq)
    finally show ?thesis .
  qed
  have b: "book (apply_all es (l\<lparr>sequence := n + length es\<rparr>)) = book (apply_all es l)"
    by (rule apply_all_book) (auto simp: book_eq_iff list_all2_refl)
  have q: "sequence (apply_all es (l\<lparr>sequence := n + length es\<rparr>)) = sequence (apply_all es l)"
    using top [of "n + length es"] top [of n] assms(2) by (simp add: sequence_apply_all)
  show ?thesis using b q by (auto simp: book_eq_iff)
qed

text \<open>The parts of a commit, with the files after the append.\<close>

lemma commit_parts:
  assumes "commitMany events s = (r, t)" and "failure s = None" and "nextAll events s = (es, s1)"
  obtains r2 s2 where "appendMany es s1 = (r2, s2)" "r2 \<noteq> None \<Longrightarrow> r \<noteq> None" "disk t = disk s2" "cfg t = cfg s2"
    "r = None \<Longrightarrow> ledger.truncate t = apply_all es (ledger.truncate s2)"
proof -
  obtain r2 s2 where a: "appendMany es s1 = (r2, s2)" by (rule prod.exhaust)
  obtain r3 s3 where p: "(case ProjectorOf (cfg s2) of None \<Rightarrow> (None, s2) | Some pr \<Rightarrow> project pr es s2) = (r3, s3)"
    by (rule prod.exhaust)
  have s3: "disk s3 = disk s2" "cfg s3 = cfg s2" "ledger.truncate s3 = ledger.truncate s2"
    using p by (auto simp: project_def split: option.splits prod.splits)
  show thesis
    using that [OF a] assms a p s3
    by (cases r2; cases r3) (auto simp: commitMany_def fail_def Let_def truncate_apply_all)
qed

lemma commit_durable:
  assumes "commitMany events s = (None, t)" and "durable s" and "events \<noteq> []" and "sequence s + length events < 2 ^ 64"
  shows "durable t" and "\<exists>es. logEvents (walCurrent (disk t)) = logEvents (walCurrent (disk s)) @ es"
    and "walPrevious (disk t) = walPrevious (disk s)" and "snapshotFile (disk t) = snapshotFile (disk s)"
proof -
  obtain es s1 where n: "nextAll events s = (es, s1)" by (rule prod.exhaust)
  note num = nextAll_numbers [OF n assms(4)]
  have len: "length es = length events" using nextAll_nonempty [OF n] .
  have num1: "map eSequence es = [Suc (sequence s)..<Suc (sequence s + length es)]" "es \<noteq> []"
    using num(1) len assms(3) by auto
  have k: "disk s1 = disk s" "cfg s1 = cfg s" using nextAll_keeps [OF n] by (simp_all add: keeps_def)
  obtain s2 where a: "appendMany es s1 = (None, s2)" "disk t = disk s2" "cfg t = cfg s2"
      "ledger.truncate t = apply_all es (ledger.truncate s2)"
    using commit_parts [OF assms(1) commitMany_ok(1) [OF assms(1)] n] by (metis option.exhaust)
  have w: "list_all (goodLine (recordLen (cfg s))) (currentLines (disk s))"
    using assms(2) by (simp add: durable_def wholeFiles_current)
  have f: "sameFiles s1 (currentLines (disk s) @ [Batch 1 es]) s2" "recordLen (cfg s) (Batch 1 es) + 1 < maxWALRecord"
    using sameFiles_appendMany(1) [OF a(1) sameFiles_refl] appendLine_good [OF w] k by simp_all
  then have f': "currentLines (disk t) = currentLines (disk s) @ [Batch 1 es]" "walPrevious (disk t) = walPrevious (disk s)"
      "snapshotFile (disk t) = snapshotFile (disk s)" "cfg t = cfg s" "ledger.truncate s2 = ledger.truncate s1"
    using a(2,3) k by (simp_all add: sameFiles_def)
  show "walPrevious (disk t) = walPrevious (disk s)" "snapshotFile (disk t) = snapshotFile (disk s)" by (rule f')+
  show "\<exists>es. logEvents (walCurrent (disk t)) = logEvents (walCurrent (disk s)) @ es"
    using f'(1) by (simp add: logEvents_current)
  have "ledger.truncate t = apply_all es ((ledger.truncate s)\<lparr>sequence := sequence s + length es\<rparr>)"
    using a(4) f'(5) truncate_numbered [OF n] num(2) len by simp
  also have "\<dots> = apply_all es (ledger.truncate s)" using num1 by (intro apply_numbered [of es "sequence s"]) simp_all
  also have "\<dots> = diskLedger (disk t)"
    using appended_files(2) [OF assms(2) num1 f'(2,3,1) f(2)] by simp
  finally show "durable t"
    using appended_files(1) [OF assms(2) num1 f'(2,3,1) f(2)] f'(4) by (simp add: durable_def)
qed

text \<open>
  A commit that fails: after a restart the batch is there as a whole or not at all, whatever the
  write left behind.
\<close>

lemma commit_failed_files:
  assumes "commitMany events s = (Some err, t)" and "durable s" and "failure s = None" and "events \<noteq> []"
    and "sequence s + length events < 2 ^ 64" and "recordLen (cfg s) Torn + 1 \<le> maxWALRecord"
    and n: "nextAll events s = (es, s1)"
  shows "goodFiles (recordLen (cfg s)) (disk t)"
    and "diskLedger (disk t) = ledger.truncate s \<or> diskLedger (disk t) = apply_all es (ledger.truncate s)"
proof -
  have len: "length es = length events" using nextAll_nonempty [OF n] .
  have num1: "map eSequence es = [Suc (sequence s)..<Suc (sequence s + length es)]" "es \<noteq> []"
    using nextAll_numbers(1) [OF n assms(5)] len assms(4) by auto
  have k: "disk s1 = disk s" "cfg s1 = cfg s" using nextAll_keeps [OF n] by (simp_all add: keeps_def)
  obtain r2 s2 where a: "appendMany es s1 = (r2, s2)" "disk t = disk s2" using commit_parts [OF assms(1,3) n] by metis
  have w: "wholeFiles (recordLen (cfg s)) (disk s)" and l: "ledger.truncate s = diskLedger (disk s)"
    using assms(2) by (simp_all add: durable_def)
  have ap: "appendLine (currentLines (disk s)) x = currentLines (disk s) @ [x]" for x
    using w appendLine_good [of "recordLen (cfg s)"] by (simp add: wholeFiles_current)
  consider (same) "sameFiles s1 (currentLines (disk s)) s2" | (torn) "sameFiles s1 (currentLines (disk s) @ [Torn]) s2"
    | (full) "sameFiles s1 (currentLines (disk s) @ [Batch 1 es]) s2" "recordLen (cfg s) (Batch 1 es) + 1 < maxWALRecord"
    using sameFiles_appendMany [OF a(1) sameFiles_refl] k ap by (metis (no_types, opaque_lifting))
  then have "goodFiles (recordLen (cfg s)) (disk t) \<and>
    (diskLedger (disk t) = ledger.truncate s \<or> diskLedger (disk t) = apply_all es (ledger.truncate s))"
  proof cases
    case same
    then have f: "currentLines (disk t) = currentLines (disk s)" "walPrevious (disk t) = walPrevious (disk s)"
        "snapshotFile (disk t) = snapshotFile (disk s)" using a(2) k by (simp_all add: sameFiles_def)
    then have "wholeFiles (recordLen (cfg s)) (disk t)" using w by (simp add: wholeFiles_current logEvents_current)
    moreover have "diskLedger (disk t) = diskLedger (disk s)" using f by (simp add: diskLedger_def logEvents_current baseLedger_def)
    ultimately show ?thesis using whole_good(2) l by metis
  next
    case torn
    then have f: "currentLines (disk t) = currentLines (disk s) @ [Torn]" "walPrevious (disk t) = walPrevious (disk s)"
        "snapshotFile (disk t) = snapshotFile (disk s)" using a(2) k by (simp_all add: sameFiles_def)
    obtain ls where c: "walCurrent (disk t) = Some ls" "ls = currentLines (disk s) @ [Torn]"
      using f(1) by (cases "walCurrent (disk t)") (auto simp: currentLines_def)
    have ev: "logEvents (walCurrent (disk t)) = logEvents (walCurrent (disk s))" using f(1) by (simp add: logEvents_current)
    have "goodLog (recordLen (cfg s)) (walPrevious (disk t))" using w f(2) whole_good(1) by (simp add: wholeFiles_current)
    moreover have "goodLog (recordLen (cfg s)) (walCurrent (disk t))"
      using w ev c assms(6) by (simp add: goodLog_def wholeFiles_current)
    ultimately have "goodFiles (recordLen (cfg s)) (disk t)" by (simp add: goodFiles_def)
    then show ?thesis using ev f l by (simp add: diskLedger_def baseLedger_def)
  next
    case full
    then have f: "walPrevious (disk t) = walPrevious (disk s)" "snapshotFile (disk t) = snapshotFile (disk s)"
        "currentLines (disk t) = currentLines (disk s) @ [Batch 1 es]" using a(2) k by (simp_all add: sameFiles_def)
    show ?thesis using appended_files [OF assms(2) num1 f full(2)] whole_good(2) by blast
  qed
  then show "goodFiles (recordLen (cfg s)) (disk t)"
    "diskLedger (disk t) = ledger.truncate s \<or> diskLedger (disk t) = apply_all es (ledger.truncate s)" by simp_all
qed

section \<open>The phases of a checkpoint\<close>

text \<open>Steps that leave the log, the snapshot and the accounting state alone.\<close>

definition inStep :: "('e, 'p) Service \<Rightarrow> ('e, 'p) Service \<Rightarrow> bool" where
  "inStep s t \<longleftrightarrow> cfg t = cfg s \<and> ledger.truncate t = ledger.truncate s \<and>
     (wholeFiles (recordLen (cfg s)) (disk s) \<longrightarrow> wholeFiles (recordLen (cfg s)) (disk t)) \<and>
     diskLedger (disk t) = diskLedger (disk s) \<and> snapshotFile (disk t) = snapshotFile (disk s)"

lemma inStep_refl [simp]: "inStep s s" by (simp add: inStep_def)

lemma inStep_trans: "inStep s t \<Longrightarrow> inStep t u \<Longrightarrow> inStep s u" by (simp add: inStep_def)

lemma inStep_durable: "inStep s t \<Longrightarrow> durable s \<Longrightarrow> durable t"
  by (simp add: inStep_def durable_def)

lemma inStep_os [simp]: "inStep s (snd (osTry t)) = inStep s t" "inStep s (t\<lparr>failure := f\<rparr>) = inStep s t"
  "inStep s (t\<lparr>walFile := w\<rparr>) = inStep s t"
  by (auto simp: inStep_def osTry_def osCall_def split: list.splits)

lemma inStep_andThen:
  assumes "inStep s (snd r)" and "\<And>t. inStep s t \<Longrightarrow> inStep s (snd (k t))"
  shows "inStep s (snd (andThen r k))"
  using assms by (auto simp: andThen_def split: prod.splits option.splits)

lemma inStep_sync: "inStep s t \<Longrightarrow> inStep s (snd (syncDirectory t))"
  by (simp add: syncDirectory_def inStep_andThen)

lemma inStep_failIf:
  assumes "inStep s (snd r)" and "\<And>t. inStep s t \<Longrightarrow> inStep s (snd (k t))"
  shows "inStep s (snd (failIf r k))"
  using assms by (auto simp: failIf_def fail_def Let_def split: prod.splits option.splits)

lemma inStep_closeWAL: "inStep s t \<Longrightarrow> inStep s (snd (closeWAL t))"
  by (auto simp: closeWAL_def intro!: inStep_failIf)

text \<open>The rename and the new empty segment; the chain keeps track of both names.\<close>

lemma rotate_files:
  assumes "walPrevious d = None"
  shows "diskLedger (rotate d) = diskLedger d" "wholeFiles len d \<Longrightarrow> wholeFiles len (rotate d)"
    "walCurrent (rotate d) = None" "snapshotFile (rotate d) = snapshotFile d"
  using assms by (auto simp: rotate_def diskLedger_def baseLedger_def logEvents_def wholeFiles_def wholeLog_def increasing_def
      split: option.splits)

definition noCurrent :: "('e, 'p) Service \<Rightarrow> ('e, 'p) Service \<Rightarrow> bool" where
  "noCurrent s t \<longleftrightarrow> inStep s t \<and> walCurrent (disk t) = None"

lemma noCurrent_inStep: "noCurrent s t \<Longrightarrow> inStep s t" by (simp add: noCurrent_def)

lemma noCurrent_os [simp]: "noCurrent s (snd (osTry t)) = noCurrent s t" "noCurrent s (t\<lparr>failure := f\<rparr>) = noCurrent s t"
  by (auto simp: noCurrent_def inStep_def osTry_def osCall_def split: list.splits)

lemma noCurrent_sync: "noCurrent s t \<Longrightarrow> noCurrent s (snd (syncDirectory t))"
  by (auto simp: syncDirectory_def andThen_def split: prod.splits option.splits) (metis noCurrent_os(1) snd_conv)+

lemma noCurrent_create:
  "noCurrent s t \<Longrightarrow> inStep s ((onDisk (\<lambda>d. d\<lparr>walCurrent := Some []\<rparr>) t)\<lparr>walFile := True\<rparr>)"
  by (auto simp: noCurrent_def inStep_def onDisk_def diskLedger_def baseLedger_def logEvents_def wholeFiles_def wholeLog_def)

lemma failIf_chain:
  assumes "P (snd r)" and "\<And>t. P t \<Longrightarrow> inStep s t" and "\<And>t. P t \<Longrightarrow> inStep s (snd (k t))"
  shows "inStep s (snd (failIf r k))"
  using assms(1) assms(2) [of "snd r"] assms(3) [of "snd r"]
  by (auto simp: failIf_def fail_def Let_def split: prod.splits option.splits)

lemma inStep_rotateWAL:
  assumes "inStep s t" and "walPrevious (disk t) = None"
  shows "inStep s (snd (rotateWAL t))"
proof -
  have created: "inStep s (snd (failIf (osTry u) (\<lambda>s. failIf (syncDirectory s) (\<lambda>s. (None, s)))))" if "inStep s u" for u
    using that by (auto intro!: inStep_failIf inStep_sync)
  have renamed: "noCurrent s (onDisk rotate u)" if "inStep s u" "walPrevious (disk u) = None" for u
    using that rotate_files [of "disk u"] by (auto simp: noCurrent_def inStep_def onDisk_def)
  have reopened: "inStep s (snd (failIf (osTry u) (\<lambda>s.
      let t = (onDisk (\<lambda>d. d\<lparr>walCurrent := Some []\<rparr>) s)\<lparr>walFile := True\<rparr>
      in failIf (osTry t) (\<lambda>s. failIf (syncDirectory s) (\<lambda>s. (None, s))))))" if "noCurrent s u" for u
    unfolding Let_def
    using that by (intro failIf_chain [where P = "noCurrent s"] created noCurrent_create) (simp_all add: noCurrent_inStep)
  have rest: "inStep s (snd (failIf (syncDirectory (onDisk rotate u)) (\<lambda>s. failIf (osTry s) (\<lambda>s.
      let t = (onDisk (\<lambda>d. d\<lparr>walCurrent := Some []\<rparr>) s)\<lparr>walFile := True\<rparr>
      in failIf (osTry t) (\<lambda>s. failIf (syncDirectory s) (\<lambda>s. (None, s)))))))"
    if "inStep s u" "walPrevious (disk u) = None" for u
    using noCurrent_sync [OF renamed [OF that]] noCurrent_inStep reopened by (rule failIf_chain [where P = "noCurrent s"])
  show ?thesis
    unfolding rotateWAL_def
  proof (rule failIf_chain [where P = "\<lambda>u. inStep s u \<and> walPrevious (disk u) = None"])
    show "inStep s (snd (osTry t)) \<and> walPrevious (disk (snd (osTry t))) = None"
      using assms by (auto simp: osTry_def osCall_def inStep_def split: list.splits)
  qed (use rest in \<open>blast+\<close>)
qed

lemma inStep_prev: "walPrevious (disk (snd (osTry t))) = walPrevious (disk t)"
  by (auto simp: osTry_def osCall_def split: list.splits)

lemma closeWAL_prev: "walPrevious (disk (snd (closeWAL t))) = walPrevious (disk t)"
proof -
  have f: "walPrevious (disk (snd (failIf r k))) = w"
    if "walPrevious (disk (snd r)) = w" "\<And>u. walPrevious (disk u) = w \<Longrightarrow> walPrevious (disk (snd (k u))) = w"
    for w r and k :: "('a, 'b) Service \<Rightarrow> ('a, 'b) outcome"
    using that by (auto simp: failIf_def fail_def Let_def split: prod.splits option.splits)
  show ?thesis unfolding closeWAL_def by (auto simp: inStep_prev intro!: f)
qed

text \<open>Freezing keeps the files in step on every outcome, and returns the state at that moment.\<close>

lemma freeze_inStep:
  assumes "freezeCheckpoint s = (x, t)"
  shows "inStep s t" and "x = Inr sn \<Longrightarrow> sn = frozen s"
proof -
  obtain r1 t1 where t1: "osTry s = (r1, t1)" by (rule prod.exhaust)
  obtain r2 t2 where t2: "osTry t1 = (r2, t2)" by (rule prod.exhaust)
  obtain r3 t3 where t3: "closeWAL t2 = (r3, t3)" by (rule prod.exhaust)
  obtain r4 t4 where t4: "rotateWAL t3 = (r4, t4)" by (rule prod.exhaust)
  have i1: "inStep s t1" using t1 by (metis inStep_os(1) inStep_refl snd_conv)
  have i2: "inStep s t2" using t2 i1 by (metis inStep_os(1) snd_conv)
  have i3: "inStep s t3" using t3 inStep_closeWAL [OF i2] by (metis snd_conv)
  have "walPrevious (disk t3) = walPrevious (disk t1)"
    using inStep_prev [of t1] closeWAL_prev [of t2] t2 t3 by simp
  then have i4: "inStep s t4" if "walPrevious (disk t1) = None" using inStep_rotateWAL [OF i3] that t4 by simp
  have t: "t = s \<or> t = t1 \<or> t = t2 \<or> t = t3 \<or> t = t4 \<and> walPrevious (disk t1) = None"
    using assms t1 t2 t3 t4 by (cases r3; cases r4) (auto simp: freezeCheckpoint_def split: option.splits if_splits)
  then show "inStep s t" using i1 i2 i3 i4 by auto
  show "x = Inr sn \<Longrightarrow> sn = frozen s"
    using assms by (auto simp: freezeCheckpoint_def split: option.splits if_splits prod.splits)
qed

text \<open>A snapshot that may replace the one on disk: the state after a prefix of the current segment.\<close>

definition covers :: "snapshot \<Rightarrow> disk \<Rightarrow> bool" where
  "covers sn d \<longleftrightarrow> (\<exists>es es'. logEvents (walCurrent d) = es @ es' \<and>
     loadLedger sn = catchUp es (catchUp (logEvents (walPrevious d)) (baseLedger d)))"

definition superseded :: "disk \<Rightarrow> bool" where
  "superseded d \<longleftrightarrow> (\<forall>e\<in>set (logEvents (walPrevious d)). eSequence e \<le> sequence (baseLedger d))"

lemma covers_replace:
  assumes "covers sn d" and "d' = d\<lparr>snapshotFile := Some sn, snapshotTmp := x\<rparr>"
  shows "diskLedger d' = diskLedger d" and "superseded d'"
proof -
  obtain es es' where es: "logEvents (walCurrent d) = es @ es'"
      "loadLedger sn = catchUp es (catchUp (logEvents (walPrevious d)) (baseLedger d))"
    using assms(1) by (auto simp: covers_def)
  let ?l = "loadLedger sn"
  have old: "eSequence e \<le> sequence ?l" if "e \<in> set (logEvents (walPrevious d))" for e
    unfolding es(2) using catchUp_covers [OF that] catchUp_mono order_trans by blast
  have old': "eSequence e \<le> sequence ?l" if "e \<in> set es" for e unfolding es(2) by (rule catchUp_covers [OF that])
  show "superseded d'" using old assms(2) by (simp add: superseded_def baseLedger_def)
  have "diskLedger d' = catchUp es' (catchUp es (catchUp (logEvents (walPrevious d)) ?l))"
    using assms(2) es(1) by (simp add: diskLedger_def baseLedger_def)
  also have "\<dots> = catchUp es' ?l" using catchUp_old [OF old] catchUp_old [OF old'] by simp
  also have "\<dots> = diskLedger d" using es by (simp add: diskLedger_def)
  finally show "diskLedger d' = diskLedger d" .
qed

text \<open>What the write of a snapshot can change: the temporary file, and at the end the snapshot.\<close>

definition erased :: "('e, 'p) Service \<Rightarrow> ('e, 'p) Service" where
  "erased t = t\<lparr>disk := (disk t)\<lparr>snapshotTmp := None, ioScript := []\<rparr>\<rparr>"

lemma erased_os [simp]: "erased (snd (osTry t)) = erased t" "snapshotTmp (disk (snd (osTry t))) = snapshotTmp (disk t)"
  by (auto simp: erased_def osTry_def osCall_def split: list.splits)

lemma erased_tmp [simp]: "erased (onDisk (\<lambda>d. d\<lparr>snapshotTmp := x\<rparr>) t) = erased t"
  by (simp add: erased_def onDisk_def)

lemma erased_sync [simp]: "erased (snd (syncDirectory t)) = erased t"
  by (auto simp: syncDirectory_def andThen_def split: prod.splits option.splits) (metis erased_os(1) snd_conv)+

lemma erased_rename:
  assumes "erased u = erased s"
  shows "erased (onDisk (\<lambda>d. d\<lparr>snapshotFile := x, snapshotTmp := y\<rparr>) u) = erased (s\<lparr>disk := (disk s)\<lparr>snapshotFile := x\<rparr>\<rparr>)"
proof -
  have e: "erased (w\<lparr>disk := (disk w)\<lparr>snapshotFile := x, snapshotTmp := z\<rparr>\<rparr>) =
      (erased w)\<lparr>disk := (disk (erased w))\<lparr>snapshotFile := x\<rparr>\<rparr>" for w :: "('a, 'b) Service" and z
    by (simp add: erased_def)
  have "erased (s\<lparr>disk := (disk s)\<lparr>snapshotFile := x\<rparr>\<rparr>) = (erased s)\<lparr>disk := (disk (erased s))\<lparr>snapshotFile := x\<rparr>\<rparr>"
    by (simp add: erased_def)
  then show ?thesis using e [of y u] assms by (simp add: onDisk_def)
qed

lemma osTry_chain:
  assumes "andThen (osTry u) k = (r, t)" and "erased u = erased s" and "snapshotTmp (disk u) = x"
    and "\<And>v. erased v = erased s \<Longrightarrow> snapshotTmp (disk v) = x \<Longrightarrow> k v = (r, t) \<Longrightarrow> Q r t"
    and "\<And>e t. erased t = erased s \<Longrightarrow> Q (Some e) t"
  shows "Q r t"
proof -
  obtain r1 v where v: "osTry u = (r1, v)" by (rule prod.exhaust)
  have "erased v = erased s" "snapshotTmp (disk v) = x" using assms(2,3) erased_os [of u] v by simp_all
  then show ?thesis using assms(1,4,5) v by (cases r1) auto
qed

lemma writeSnapshot_erased:
  assumes "writeSnapshot sn s = (r, t)"
  shows "erased t = erased s \<and> r \<noteq> None \<or> erased t = erased (s\<lparr>disk := (disk s)\<lparr>snapshotFile := Some sn\<rparr>\<rparr>)"
proof -
  define Q where "Q = (\<lambda>(r :: goerror option) t. erased t = erased s \<and> r \<noteq> None \<or>
    erased t = erased (s\<lparr>disk := (disk s)\<lparr>snapshotFile := Some sn\<rparr>\<rparr>))"
  have failed: "erased t = erased s \<Longrightarrow> Q (Some e) t" for e t by (simp add: Q_def)
  have renamed: "Q r t" if "erased u = erased s" "snapshotTmp (disk u) = Some sn"
      "syncDirectory (onDisk (\<lambda>d. d\<lparr>snapshotFile := snapshotTmp d, snapshotTmp := None\<rparr>) u) = (r, t)" for u
  proof -
    let ?v = "onDisk (\<lambda>d. d\<lparr>snapshotFile := snapshotTmp d, snapshotTmp := None\<rparr>) u"
    have "?v = onDisk (\<lambda>d. d\<lparr>snapshotFile := Some sn, snapshotTmp := None\<rparr>) u" using that(2) by (simp add: onDisk_def)
    moreover have "erased t = erased ?v" using erased_sync [of ?v] unfolding that(3) by simp
    ultimately have "erased t = erased (onDisk (\<lambda>d. d\<lparr>snapshotFile := Some sn, snapshotTmp := None\<rparr>) u)" by simp
    then show ?thesis using erased_rename [OF that(1)] by (simp add: Q_def)
  qed
  have written: "Q r t" if "erased u = erased s"
      "andThen (osTry u) (\<lambda>s. andThen (osTry s) (\<lambda>s. andThen (osTry s) (\<lambda>s.
        syncDirectory (onDisk (\<lambda>d. d\<lparr>snapshotFile := snapshotTmp d, snapshotTmp := None\<rparr>) s)))) = (r, t)"
      "snapshotTmp (disk u) = Some sn" for u
    using that(2,1,3)
    by (elim osTry_chain [where Q = Q and s = s]) (blast intro: failed renamed)+
  have "Q r t"
    using assms unfolding writeSnapshot_def Let_def
  proof (rule osTry_chain [where s = s, OF _ refl refl])
    fix v assume v: "erased v = erased s" "andThen (osTry v) (\<lambda>s. andThen (osTry (onDisk (snapshotTmp_update (\<lambda>_. None)) s)) (\<lambda>s.
        andThen (osTry (onDisk (snapshotTmp_update (\<lambda>_. Some sn)) s)) (\<lambda>s. andThen (osTry s) (\<lambda>s. andThen (osTry s) (\<lambda>s.
        syncDirectory (onDisk (\<lambda>d. d\<lparr>snapshotFile := snapshotTmp d, snapshotTmp := None\<rparr>) s)))))) = (r, t)"
    from v(2,1) refl show "Q r t"
    proof (rule osTry_chain)
      fix v assume v: "erased v = erased s" "andThen (osTry (onDisk (snapshotTmp_update (\<lambda>_. None)) v)) (\<lambda>s.
        andThen (osTry (onDisk (snapshotTmp_update (\<lambda>_. Some sn)) s)) (\<lambda>s. andThen (osTry s) (\<lambda>s. andThen (osTry s) (\<lambda>s.
        syncDirectory (onDisk (\<lambda>d. d\<lparr>snapshotFile := snapshotTmp d, snapshotTmp := None\<rparr>) s))))) = (r, t)"
      from v(2) show "Q r t"
      proof (rule osTry_chain [OF _ _ refl])
        fix v assume v: "erased v = erased s" "andThen (osTry (onDisk (snapshotTmp_update (\<lambda>_. Some sn)) v)) (\<lambda>s.
          andThen (osTry s) (\<lambda>s. andThen (osTry s) (\<lambda>s.
          syncDirectory (onDisk (\<lambda>d. d\<lparr>snapshotFile := snapshotTmp d, snapshotTmp := None\<rparr>) s)))) = (r, t)"
        have "erased (onDisk (snapshotTmp_update (\<lambda>_. Some sn)) v) = erased s" using v(1) by simp
        then show "Q r t" using v(2) by (rule written) (simp add: onDisk_def)
      qed (use v(1) failed in simp_all)
    qed (rule failed)
  qed (rule failed)
  then show ?thesis by (simp add: Q_def)
qed

lemma erased_files:
  assumes "erased t = erased s"
  shows "durable t = durable s" "superseded (disk t) = superseded (disk s)" "covers sn (disk t) = covers sn (disk s)"
    "logEvents (walCurrent (disk t)) = logEvents (walCurrent (disk s))"
proof -
  have f: "durable (erased u) = durable u" "superseded (disk (erased u)) = superseded (disk u)"
      "covers sn (disk (erased u)) = covers sn (disk u)" "walCurrent (disk (erased u)) = walCurrent (disk u)"
    for u :: "('a, 'b) Service"
    by (simp_all add: erased_def durable_def superseded_def covers_def baseLedger_def)
  show "durable t = durable s" "superseded (disk t) = superseded (disk s)" "covers sn (disk t) = covers sn (disk s)"
      "logEvents (walCurrent (disk t)) = logEvents (walCurrent (disk s))"
    using f assms by metis+
qed

text \<open>Writing a covering snapshot, whatever the outcome.\<close>

lemma writeSnapshot_durable:
  assumes "writeSnapshot sn s = (r, t)" and "durable s" and "covers sn (disk s)"
  shows "durable t" and "r = None \<Longrightarrow> superseded (disk t)"
proof -
  let ?u = "s\<lparr>disk := (disk s)\<lparr>snapshotFile := Some sn\<rparr>\<rparr>"
  have "diskLedger (disk ?u) = diskLedger (disk s)" "superseded (disk ?u)"
    using covers_replace [OF assms(3), where d' = "disk ?u" and x = "snapshotTmp (disk s)"] by simp_all
  then have u: "durable ?u" "superseded (disk ?u)" using assms(2) by (simp_all add: durable_def)
  show "durable t" "r = None \<Longrightarrow> superseded (disk t)"
    using writeSnapshot_erased [OF assms(1)] u assms(2) erased_files [of t s] erased_files [of t ?u] by blast+
qed

text \<open>Deleting the segment the snapshot covers, whatever the outcome.\<close>

lemma dropPrevious_durable:
  assumes "dropPrevious s = (r, t)" and "durable s" and "superseded (disk s)"
  shows "durable t"
proof -
  have os: "durable (snd (osTry u)) = durable u" "superseded (disk (snd (osTry u))) = superseded (disk u)"
    for u :: "('a, 'b) Service"
    using erased_files(1,2) [of "snd (osTry u)" u] by simp_all
  have drop: "durable (onDisk (\<lambda>d. d\<lparr>walPrevious := None\<rparr>) u)" if "durable u" "superseded (disk u)" for u :: "('a, 'b) Service"
  proof -
    have "catchUp (logEvents (walPrevious (disk u))) (baseLedger (disk u)) = baseLedger (disk u)"
      using that(2) by (intro catchUp_old) (simp add: superseded_def)
    then show ?thesis
      using that(1) by (simp add: durable_def onDisk_def diskLedger_def baseLedger_def logEvents_def wholeFiles_def wholeLog_def increasing_def)
  qed
  have sync: "durable (snd (syncDirectory u)) = durable u" for u :: "('a, 'b) Service" using erased_files(1) [OF erased_sync] .
  obtain r1 u where u: "osTry s = (r1, u)" by (rule prod.exhaust)
  have "durable u" "superseded (disk u)" using os [of s] assms(2,3) u by simp_all
  then have "durable (snd (syncDirectory (onDisk (\<lambda>d. d\<lparr>walPrevious := None\<rparr>) u)))" "durable u" using drop sync by simp_all
  then show ?thesis
    using assms(1,2) u by (cases r1) (auto simp: dropPrevious_def split: option.splits)
qed

section \<open>Commits between the phases of a checkpoint\<close>

text \<open>
  The lock is free while the snapshot is written, so commits run between the phases. The
  relation interleaves successful commits with the phases of one checkpoint at a time, which
  may be given up after any failed phase.
\<close>

datatype phase = Idle | Writing snapshot | Written

inductive storage_step :: "('e, 'p) Service \<times> phase \<Rightarrow> ('e, 'p) Service \<times> phase \<Rightarrow> bool" where
  committed: "commitMany es s = (None, t) \<Longrightarrow> es \<noteq> [] \<Longrightarrow> sequence s + length es < 2 ^ 64 \<Longrightarrow> storage_step (s, ph) (t, ph)"
| froze: "freezeCheckpoint s = (Inr sn, t) \<Longrightarrow> indexed s \<Longrightarrow> storage_step (s, Idle) (t, Writing sn)"
| freezeFailed: "freezeCheckpoint s = (Inl e, t) \<Longrightarrow> storage_step (s, Idle) (t, Idle)"
| wrote: "writeSnapshot sn s = (r, t) \<Longrightarrow> storage_step (s, Writing sn) (t, if r = None then Written else Idle)"
| dropped: "dropPrevious s = (r, t) \<Longrightarrow> storage_step (s, Written) (t, Idle)"

inductive_cases storage_stepE: "storage_step x y"

definition phaseOk :: "('e, 'p) Service \<times> phase \<Rightarrow> bool" where
  "phaseOk x \<longleftrightarrow> durable (fst x) \<and>
     (case snd x of Idle \<Rightarrow> True | Writing sn \<Rightarrow> covers sn (disk (fst x)) | Written \<Rightarrow> superseded (disk (fst x)))"

lemma storage_step_ok:
  assumes "storage_step x y" and "phaseOk x"
  shows "phaseOk y"
  using assms
proof (induction rule: storage_step.induct)
  case (committed es s t ph)
  have d: "durable s" using committed.prems by (simp add: phaseOk_def)
  note c = commit_durable [OF committed.hyps(1) d committed.hyps(2,3)]
  have "covers sn (disk s) \<Longrightarrow> covers sn (disk t)" for sn
    using c(2-4) unfolding covers_def baseLedger_def by (metis append.assoc)
  moreover have "superseded (disk s) \<Longrightarrow> superseded (disk t)" using c(3,4) by (simp add: superseded_def baseLedger_def)
  ultimately show ?case using c(1) committed.prems by (cases ph) (simp_all add: phaseOk_def)
next
  case (froze s sn t)
  have d: "durable s" using froze.prems by (simp add: phaseOk_def)
  note f = freeze_inStep [OF froze.hyps(1)]
  have "loadLedger sn = ledger.truncate s" using f(2) frozen_load [OF froze.hyps(2)] by simp
  also have "\<dots> = diskLedger (disk t)" using d f(1) by (simp add: durable_def inStep_def)
  finally have "covers sn (disk t)" by (auto simp: covers_def diskLedger_def)
  then show ?case using inStep_durable [OF f(1) d] by (simp add: phaseOk_def)
next
  case (freezeFailed s e t)
  then show ?case using inStep_durable [OF freeze_inStep(1)] by (auto simp: phaseOk_def)
next
  case (wrote sn s r t)
  then show ?case using writeSnapshot_durable by (auto simp: phaseOk_def)
next
  case (dropped s r t)
  then show ?case using dropPrevious_durable by (auto simp: phaseOk_def)
qed

lemma storage_run_ok: "storage_step\<^sup>*\<^sup>* x y \<Longrightarrow> phaseOk x \<Longrightarrow> phaseOk y"
  by (induction rule: rtranclp_induct) (auto intro: storage_step_ok)

text \<open>A checkpoint of the program is such a run.\<close>

lemma checkpoint_run:
  assumes "Snapshot s = (r, t)" and "indexed s"
  shows "\<exists>ph. storage_step\<^sup>*\<^sup>* (s, Idle) (t, ph)"
proof -
  obtain x u where x: "freezeCheckpoint s = (x, u)" by (rule prod.exhaust)
  show ?thesis
  proof (cases x)
    case (Inl e)
    then show ?thesis using assms(1) x freezeFailed [of s e u] by (auto simp: Snapshot_def checkpoint_def)
  next
    case (Inr sn)
    obtain r1 v where v: "writeSnapshot sn u = (r1, v)" by (rule prod.exhaust)
    have st: "storage_step\<^sup>*\<^sup>* (s, Idle) (v, if r1 = None then Written else Idle)"
      using froze [of s sn u] wrote [OF v] x Inr assms(2) by (meson converse_rtranclp_into_rtranclp r_into_rtranclp)
    show ?thesis
    proof (cases r1)
      case None
      then have "dropPrevious v = (r, t)" using assms(1) x Inr v by (simp add: Snapshot_def checkpoint_def)
      then show ?thesis using st None dropped [of v r t] by (auto intro: rtranclp.rtrancl_into_rtrancl)
    next
      case (Some e)
      then have "t = v" using assms(1) x Inr v by (simp add: Snapshot_def checkpoint_def)
      then show ?thesis using st by blast
    qed
  qed
qed

text \<open>
  The state recovered after a crash: a restart at any point of such a run starts with the
  accounting state of the moment of the crash.
\<close>

lemma crash_recovers:
  assumes "storage_step\<^sup>*\<^sup>* (s0, Idle) (s, ph)" and "durable s0"
    and "0 \<le> OrderBatchSize (cfg s)" "OrderBatchSize (cfg s) \<le> 32" "WALPath (cfg s) \<noteq> []" "SnapshotPath (cfg s) \<noteq> []"
    and "projectorOk (cfg s) p (loggedEvents (disk s))"
  obtains t where "NewWithConfig h (cfg s) ((disk s)\<lparr>ioScript := []\<rparr>) e p = Inr t"
    "ledger.truncate t = ledger.truncate s" "failure t = None"
proof -
  have d: "durable s" using storage_run_ok [OF assms(1)] assms(2) by (simp add: phaseOk_def)
  let ?d = "(disk s)\<lparr>ioScript := []\<rparr>"
  have g: "goodFiles (recordLen (cfg s)) ?d" using d whole_good(2) by (simp add: durable_def)
  show thesis
  proof (rule NewWithConfig_ok [OF assms(3-6) _ g, of p h e])
    fix t assume "NewWithConfig h (cfg s) ?d e p = Inr t" "ledger.truncate t = diskLedger ?d" "failure t = None"
    then show thesis using that d by (simp add: durable_def)
  qed (use assms(7) in simp_all)
qed

end
