(* ===== verification/Book_Representation.thy ===== *)
theory Book_Representation
  imports Order_Book
begin

text \<open>
  The representation invariant of the order book: the index points to exactly the orders that
  are alive. The resting orders of a book are read off the index; deletion, compaction and the
  erasing of dead levels change them as expected.
\<close>

section \<open>The invariant\<close>

definition bookInv :: "OrderBook \<Rightarrow> bool" where
  "bookInv ob \<longleftrightarrow>
    (\<forall>i loc. fmlookup (order_lookup ob) i = Some loc \<longrightarrow>
       (\<exists>b. orderAt ob loc = Some b \<and> \<not> bDeleted b \<and> bID b = i)) \<and>
    (\<forall>loc b. orderAt ob loc = Some b \<longrightarrow> bSide b = lSide loc \<and> bPrice b = lPrice loc \<and>
       (\<not> bDeleted b \<longrightarrow> 0 < bQuantity b \<and> fmlookup (order_lookup ob) (bID b) = Some loc))"

lemma bookInvD:
  assumes "bookInv ob"
  shows "fmlookup (order_lookup ob) i = Some loc \<Longrightarrow> \<exists>b. orderAt ob loc = Some b \<and> \<not> bDeleted b \<and> bID b = i"
    and "orderAt ob loc = Some b \<Longrightarrow> bSide b = lSide loc"
    and "orderAt ob loc = Some b \<Longrightarrow> bPrice b = lPrice loc"
    and "orderAt ob loc = Some b \<Longrightarrow> \<not> bDeleted b \<Longrightarrow> 0 < bQuantity b"
    and "orderAt ob loc = Some b \<Longrightarrow> \<not> bDeleted b \<Longrightarrow> fmlookup (order_lookup ob) (bID b) = Some loc"
  using assms unfolding bookInv_def by blast+

lemma bookInvI:
  assumes "\<And>i loc. fmlookup (order_lookup ob) i = Some loc \<Longrightarrow>
      \<exists>b. orderAt ob loc = Some b \<and> \<not> bDeleted b \<and> bID b = i"
    and "\<And>loc b. orderAt ob loc = Some b \<Longrightarrow> bSide b = lSide loc \<and> bPrice b = lPrice loc"
    and "\<And>loc b. orderAt ob loc = Some b \<Longrightarrow> \<not> bDeleted b \<Longrightarrow>
      0 < bQuantity b \<and> fmlookup (order_lookup ob) (bID b) = Some loc"
  shows "bookInv ob"
  using assms unfolding bookInv_def by blast

definition sideText :: "CSide \<Rightarrow> string" where
  "sideText side = (case side of Buy \<Rightarrow> ''buy'' | Sell \<Rightarrow> ''sell'')"

definition restB :: "BookOrder \<Rightarrow> rest" where
  "restB b = \<lparr>rSide = sideText (bSide b), rPrice = bPrice b, rQty = bQuantity b\<rparr>"

definition restsOf :: "OrderBook \<Rightarrow> restBook" where
  "restsOf ob = fmmap (\<lambda>loc. case orderAt ob loc of Some b \<Rightarrow> restB b | None \<Rightarrow> \<lparr>rSide = [], rPrice = 0, rQty = 0\<rparr>)
     (order_lookup ob)"

lemma restsOf_iff:
  assumes "bookInv ob"
  shows "fmlookup (restsOf ob) i = Some r \<longleftrightarrow>
    (\<exists>loc b. orderAt ob loc = Some b \<and> \<not> bDeleted b \<and> bID b = i \<and> r = restB b)"
proof -
  have "fmlookup (restsOf ob) i = Some r \<longleftrightarrow>
      (\<exists>loc b. fmlookup (order_lookup ob) i = Some loc \<and> orderAt ob loc = Some b \<and> r = restB b)"
    using bookInvD(1) [OF assms, of i] by (auto simp: restsOf_def split: option.splits)
  also have "\<dots> \<longleftrightarrow> (\<exists>loc b. orderAt ob loc = Some b \<and> \<not> bDeleted b \<and> bID b = i \<and> r = restB b)"
    using bookInvD(1,5) [OF assms] by (metis option.inject)
  finally show ?thesis .
qed

lemma restsOf_dom [simp]: "fmdom (restsOf ob) = fmdom (order_lookup ob)"
  by (simp add: restsOf_def)

lemma restsOf_eqI:
  assumes "bookInv ob" and "bookInv ob'"
    and "\<And>b. (\<exists>loc. orderAt ob' loc = Some b) \<and> \<not> bDeleted b \<longleftrightarrow> (\<exists>loc. orderAt ob loc = Some b) \<and> \<not> bDeleted b"
  shows "restsOf ob' = restsOf ob"
proof (rule fmap_ext)
  fix i
  have "fmlookup (restsOf ob') i = Some r \<longleftrightarrow> fmlookup (restsOf ob) i = Some r" for r
    unfolding restsOf_iff [OF assms(1)] restsOf_iff [OF assms(2)] using assms(3) by blast
  then show "fmlookup (restsOf ob') i = fmlookup (restsOf ob) i" by (metis option.exhaust)
qed

section \<open>Locations\<close>

lemma levelsOf_set [simp]:
  "levelsOf s (setLevels s' m ob) = (if s = s' then m else levelsOf s ob)"
  "order_lookup (setLevels s' m ob) = order_lookup ob"
  "total_orders_count (setLevels s' m ob) = total_orders_count ob"
  "deleted_orders_count (setLevels s' m ob) = deleted_orders_count ob"
  by (cases s; cases s'; simp add: levelsOf_def setLevels_def)+

lemma levelsOf_frame [simp]:
  "levelsOf s (ob\<lparr>order_lookup := x\<rparr>) = levelsOf s ob" "levelsOf s (ob\<lparr>deleted_orders_count := y\<rparr>) = levelsOf s ob"
  "levelsOf s (ob\<lparr>total_orders_count := y\<rparr>) = levelsOf s ob" "levelsOf s (ob\<lparr>bookTrades := z\<rparr>) = levelsOf s ob"
  "levelsOf s (ob\<lparr>orderbook_timestamp := y\<rparr>) = levelsOf s ob" "levelsOf s (ob\<lparr>nextBookID := y\<rparr>) = levelsOf s ob"
  by (cases s; simp add: levelsOf_def)+

lemma orderAt_frame [simp]:
  "orderAt (ob\<lparr>order_lookup := x\<rparr>) = orderAt ob" "orderAt (ob\<lparr>deleted_orders_count := y\<rparr>) = orderAt ob"
  "orderAt (ob\<lparr>total_orders_count := y\<rparr>) = orderAt ob" "orderAt (ob\<lparr>bookTrades := z\<rparr>) = orderAt ob"
  "orderAt (ob\<lparr>orderbook_timestamp := y\<rparr>) = orderAt ob" "orderAt (ob\<lparr>nextBookID := y\<rparr>) = orderAt ob"
  by (simp_all add: orderAt_def [abs_def] fun_eq_iff)

lemma book_frame [simp]:
  "bookInv (ob\<lparr>deleted_orders_count := y\<rparr>) = bookInv ob" "bookInv (ob\<lparr>total_orders_count := y\<rparr>) = bookInv ob"
  "bookInv (ob\<lparr>bookTrades := z\<rparr>) = bookInv ob" "bookInv (ob\<lparr>orderbook_timestamp := y\<rparr>) = bookInv ob"
  "bookInv (ob\<lparr>nextBookID := y\<rparr>) = bookInv ob"
  "restsOf (ob\<lparr>deleted_orders_count := y\<rparr>) = restsOf ob" "restsOf (ob\<lparr>total_orders_count := y\<rparr>) = restsOf ob"
  "restsOf (ob\<lparr>bookTrades := z\<rparr>) = restsOf ob" "restsOf (ob\<lparr>orderbook_timestamp := y\<rparr>) = restsOf ob"
  "restsOf (ob\<lparr>nextBookID := y\<rparr>) = restsOf ob"
  by (simp_all add: bookInv_def restsOf_def)

lemma setOrder_lookup [simp]: "order_lookup (setOrder loc b ob) = order_lookup ob"
  by (simp add: setOrder_def Let_def)

lemma orderAt_setOrder:
  assumes "orderAt ob loc \<noteq> None"
  shows "orderAt (setOrder loc b ob) loc' = (if loc' = loc then Some b else orderAt ob loc')"
proof -
  obtain bs where bs: "fmlookup (levelsOf (lSide loc) ob) (lPrice loc) = Some bs" "lIndex loc < length bs"
    using assms by (auto simp: orderAt_def split: option.splits if_splits)
  have "loc' = loc \<longleftrightarrow> lSide loc' = lSide loc \<and> lPrice loc' = lPrice loc \<and> lIndex loc' = lIndex loc"
    by (cases loc; cases loc') auto
  then show ?thesis using bs by (auto simp: orderAt_def setOrder_def Let_def fmget_def split: option.split)
qed

lemma setOrder_twice: "setOrder loc b (setOrder loc c ob) = setOrder loc b ob"
  by (cases "lSide loc") (simp_all add: setOrder_def Let_def levelsOf_def setLevels_def)

section \<open>Compaction\<close>

lemma distinct_map_filter_nth:
  assumes "\<And>i j. i < length bs \<Longrightarrow> j < length bs \<Longrightarrow> i \<noteq> j \<Longrightarrow> P (bs ! i) \<Longrightarrow> P (bs ! j) \<Longrightarrow> f (bs ! i) \<noteq> f (bs ! j)"
  shows "distinct (map f (filter P bs))"
  using assms
proof (induction bs)
  case (Cons b bs)
  have "distinct (map f (filter P bs))"
  proof (rule Cons.IH)
    fix i j assume "i < length bs" "j < length bs" "i \<noteq> j" "P (bs ! i)" "P (bs ! j)"
    then show "f (bs ! i) \<noteq> f (bs ! j)" using Cons.prems [of "Suc i" "Suc j"] by simp
  qed
  moreover have "f b \<notin> f ` set (filter P bs)" if "P b"
  proof
    assume "f b \<in> f ` set (filter P bs)"
    then obtain j where "j < length bs" "P (bs ! j)" "f b = f (bs ! j)" by (auto simp: in_set_conv_nth)
    then show False using Cons.prems [of 0 "Suc j"] that by simp
  qed
  ultimately show ?case by simp
qed simp

lemma reindex_other: "j \<notin> bID ` set bs \<Longrightarrow> fmlookup (reindex i bs look) j = fmlookup look j"
  by (induction bs arbitrary: i look) auto

lemma reindex_own:
  assumes "distinct (map bID bs)" and "k < length bs"
    and "fmlookup look (bID (bs ! k)) = Some loc"
  shows "fmlookup (reindex i bs look) (bID (bs ! k)) = Some (loc\<lparr>lIndex := i + k\<rparr>)"
  using assms
proof (induction bs arbitrary: i k look)
  case (Cons b bs)
  show ?case
  proof (cases k)
    case 0
    then show ?thesis using Cons.prems reindex_other [of "bID b" bs] by (simp add: fmget_def)
  next
    case (Suc k')
    then have "bID b \<noteq> bID (bs ! k')" using Cons.prems(1,2) by auto
    then show ?thesis using Cons.IH [of k'] Cons.prems Suc by simp
  qed
qed simp

text \<open>All levels, in the order of their prices.\<close>

lemma reindex_levels_other:
  assumes "\<And>p. p \<in> set ps \<Longrightarrow> j \<notin> bID ` set (f p)"
  shows "fmlookup (fold (\<lambda>p. reindex 0 (f p)) ps look) j = fmlookup look j"
  using assms by (induction ps arbitrary: look) (simp_all add: reindex_other)

lemma reindex_levels_own:
  assumes "distinct ps" and "p \<in> set ps" and "distinct (map bID (f p))" and "k < length (f p)"
    and "\<And>q. q \<in> set ps \<Longrightarrow> q \<noteq> p \<Longrightarrow> bID (f p ! k) \<notin> bID ` set (f q)"
    and "fmlookup look (bID (f p ! k)) = Some loc"
  shows "fmlookup (fold (\<lambda>p. reindex 0 (f p)) ps look) (bID (f p ! k)) = Some (loc\<lparr>lIndex := k\<rparr>)"
  using assms
proof (induction ps arbitrary: look)
  case (Cons q ps)
  show ?case
  proof (cases "q = p")
    case True
    have "fmlookup (fold (\<lambda>p. reindex 0 (f p)) ps (reindex 0 (f p) look)) (bID (f p ! k))
        = fmlookup (reindex 0 (f p) look) (bID (f p ! k))"
      using Cons.prems(1,5) True by (intro reindex_levels_other) auto
    then show ?thesis using True reindex_own [OF Cons.prems(3,4,6), of 0] by simp
  next
    case False
    then have "fmlookup (reindex 0 (f q) look) (bID (f p ! k)) = Some loc"
      using Cons.prems(5) [of q] Cons.prems(6) by (simp add: reindex_other)
    then show ?thesis using Cons.IH [of "reindex 0 (f q) look"] Cons.prems False by simp
  qed
qed simp

text \<open>Orders alive in one level, and their old locations.\<close>

lemma aliveIn_at:
  assumes "bookInv ob" and "fmlookup (levelsOf side ob) p = Some bs" and "b \<in> set (aliveIn bs)"
  obtains j where "orderAt ob \<lparr>lSide = side, lPrice = p, lIndex = j\<rparr> = Some b" "\<not> bDeleted b"
    "fmlookup (order_lookup ob) (bID b) = Some \<lparr>lSide = side, lPrice = p, lIndex = j\<rparr>"
proof -
  obtain j where j: "j < length bs" "bs ! j = b" "\<not> bDeleted b"
    using assms(3) by (auto simp: aliveIn_def in_set_conv_nth)
  then have at: "orderAt ob \<lparr>lSide = side, lPrice = p, lIndex = j\<rparr> = Some b"
    using assms(2) by (simp add: orderAt_def)
  show thesis using that [OF at j(3)] bookInvD(5) [OF assms(1) at j(3)] by simp
qed

lemma aliveIn_distinct:
  assumes "bookInv ob" and "fmlookup (levelsOf side ob) p = Some bs"
  shows "distinct (map bID (aliveIn bs))"
  unfolding aliveIn_def
proof (rule distinct_map_filter_nth)
  fix i j assume ij: "i < length bs" "j < length bs" "i \<noteq> j" "\<not> bDeleted (bs ! i)" "\<not> bDeleted (bs ! j)"
  have "orderAt ob \<lparr>lSide = side, lPrice = p, lIndex = i\<rparr> = Some (bs ! i)"
      "orderAt ob \<lparr>lSide = side, lPrice = p, lIndex = j\<rparr> = Some (bs ! j)"
    using assms(2) ij by (simp_all add: orderAt_def)
  then have "fmlookup (order_lookup ob) (bID (bs ! i)) = Some \<lparr>lSide = side, lPrice = p, lIndex = i\<rparr>"
      "fmlookup (order_lookup ob) (bID (bs ! j)) = Some \<lparr>lSide = side, lPrice = p, lIndex = j\<rparr>"
    using bookInvD(5) [OF assms(1)] ij(4,5) by blast+
  then show "bID (bs ! i) \<noteq> bID (bs ! j)" using ij(3) by auto
qed

lemma alive_member:
  assumes "b \<in> set (fmget [] (fmmap aliveIn m) p)"
  obtains bs where "fmlookup m p = Some bs" "b \<in> set (aliveIn bs)"
  using assms by (cases "fmlookup m p") (auto simp: fmget_def)

text \<open>The book after compaction of one side: levels filtered, indices renewed.\<close>

lemma compact_helper_at:
  "orderAt (compact_orderbook_helper side ob) loc =
    (if lSide loc \<noteq> side then orderAt ob loc
     else case fmlookup (levelsOf side ob) (lPrice loc) of
            None \<Rightarrow> None
          | Some bs \<Rightarrow> if lIndex loc < length (aliveIn bs) then Some (aliveIn bs ! lIndex loc) else None)"
  by (auto simp: compact_orderbook_helper_def Let_def orderAt_def fmget_def split: option.splits)

lemma compact_helper_lookup:
  assumes "bookInv ob" and "fmlookup (levelsOf side ob) p = Some bs" and "k < length (aliveIn bs)"
  shows "fmlookup (order_lookup (compact_orderbook_helper side ob)) (bID (aliveIn bs ! k)) =
    Some \<lparr>lSide = side, lPrice = p, lIndex = k\<rparr>"
proof -
  let ?f = "\<lambda>p. fmget [] (fmmap aliveIn (levelsOf side ob)) p"
  let ?ps = "sorted_list_of_fset (fmdom (levelsOf side ob))"
  have fp: "?f p = aliveIn bs" using assms(2) by (simp add: fmget_def)
  let ?b = "aliveIn bs ! k"
  have "?b \<in> set (aliveIn bs)" using assms(3) by simp
  then obtain j where j: "fmlookup (order_lookup ob) (bID ?b) = Some \<lparr>lSide = side, lPrice = p, lIndex = j\<rparr>"
    using aliveIn_at [OF assms(1,2)] by metis
  have other: "bID (?f p ! k) \<notin> bID ` set (?f q)" if "q \<noteq> p" for q
  proof
    assume "bID (?f p ! k) \<in> bID ` set (?f q)"
    then obtain b' where "bID b' = bID ?b" "b' \<in> set (?f q)" using fp by auto
    then obtain bs' where b': "bID b' = bID ?b" "fmlookup (levelsOf side ob) q = Some bs'" "b' \<in> set (aliveIn bs')"
      using alive_member by metis
    obtain j' where "fmlookup (order_lookup ob) (bID b') = Some \<lparr>lSide = side, lPrice = q, lIndex = j'\<rparr>"
      using aliveIn_at [OF assms(1) b'(2,3)] by metis
    then show False using b'(1) j that by simp
  qed
  have "fmlookup (fold (\<lambda>p. reindex 0 (?f p)) ?ps (order_lookup ob)) (bID (?f p ! k)) =
      Some (\<lparr>lSide = side, lPrice = p, lIndex = j\<rparr>\<lparr>lIndex := k\<rparr>)"
    using assms(3) fp j other aliveIn_distinct [OF assms(1,2)] fmdomI [OF assms(2)]
    by (intro reindex_levels_own) simp_all
  then show ?thesis using fp by (simp add: compact_orderbook_helper_def Let_def)
qed

lemma compact_helper_other:
  assumes "\<And>p bs. fmlookup (levelsOf side ob) p = Some bs \<Longrightarrow> i \<notin> bID ` set (aliveIn bs)"
  shows "fmlookup (order_lookup (compact_orderbook_helper side ob)) i = fmlookup (order_lookup ob) i"
proof -
  have "i \<notin> bID ` set (fmget [] (fmmap aliveIn (levelsOf side ob)) p)" for p
  proof
    assume "i \<in> bID ` set (fmget [] (fmmap aliveIn (levelsOf side ob)) p)"
    then obtain b where b: "i = bID b" "b \<in> set (fmget [] (fmmap aliveIn (levelsOf side ob)) p)" by blast
    obtain bs where "fmlookup (levelsOf side ob) p = Some bs" "b \<in> set (aliveIn bs)" by (rule alive_member [OF b(2)])
    then show False using assms b(1) by blast
  qed
  then show ?thesis unfolding compact_orderbook_helper_def Let_def by (simp add: reindex_levels_other)
qed

lemma aliveIn_index:
  assumes "orderAt ob loc = Some b" and "\<not> bDeleted b"
  obtains bs k where "fmlookup (levelsOf (lSide loc) ob) (lPrice loc) = Some bs" "k < length (aliveIn bs)"
    "b = aliveIn bs ! k"
proof -
  obtain bs where bs: "fmlookup (levelsOf (lSide loc) ob) (lPrice loc) = Some bs" "b \<in> set bs"
    using assms by (auto simp: orderAt_def split: option.splits if_splits)
  then have "b \<in> set (aliveIn bs)" using assms(2) by (simp add: aliveIn_def)
  then show thesis using that bs(1) by (metis in_set_conv_nth)
qed

text \<open>An order of the compacted side is alive and indexed at its new location.\<close>

lemma compact_own:
  assumes "bookInv ob" and "orderAt (compact_orderbook_helper side ob) loc = Some b" and "lSide loc = side"
  shows "\<not> bDeleted b \<and> bSide b = lSide loc \<and> bPrice b = lPrice loc \<and> 0 < bQuantity b"
    and "fmlookup (order_lookup (compact_orderbook_helper side ob)) (bID b) = Some loc"
    and "\<exists>loc'. orderAt ob loc' = Some b"
proof -
  obtain bs where bs: "fmlookup (levelsOf side ob) (lPrice loc) = Some bs" "lIndex loc < length (aliveIn bs)"
      "b = aliveIn bs ! lIndex loc"
    using assms(2,3) by (auto simp: compact_helper_at split: option.splits if_splits)
  then have "b \<in> set (aliveIn bs)" by simp
  then obtain j where j: "orderAt ob \<lparr>lSide = side, lPrice = lPrice loc, lIndex = j\<rparr> = Some b" "\<not> bDeleted b"
    using aliveIn_at [OF assms(1) bs(1)] by metis
  show "\<not> bDeleted b \<and> bSide b = lSide loc \<and> bPrice b = lPrice loc \<and> 0 < bQuantity b"
    using j bookInvD(2-4) [OF assms(1) j(1)] assms(3) by simp
  have "loc = \<lparr>lSide = side, lPrice = lPrice loc, lIndex = lIndex loc\<rparr>" using assms(3) by simp
  then show "fmlookup (order_lookup (compact_orderbook_helper side ob)) (bID b) = Some loc"
    using compact_helper_lookup [OF assms(1) bs(1,2)] bs(3) by metis
  show "\<exists>loc'. orderAt ob loc' = Some b" using j by blast
qed

text \<open>Orders of the other side keep their locations.\<close>

lemma compact_away:
  assumes "bookInv ob" and "orderAt ob loc = Some b" and "\<not> bDeleted b" and "lSide loc \<noteq> side"
  shows "fmlookup (order_lookup (compact_orderbook_helper side ob)) (bID b) = Some loc"
proof -
  have "bID b \<notin> bID ` set (aliveIn bs)" if lev: "fmlookup (levelsOf side ob) p = Some bs" for p bs
  proof
    assume "bID b \<in> bID ` set (aliveIn bs)"
    then obtain b' where b': "bID b = bID b'" "b' \<in> set (aliveIn bs)" by blast
    obtain j where "fmlookup (order_lookup ob) (bID b') = Some \<lparr>lSide = side, lPrice = p, lIndex = j\<rparr>"
      using aliveIn_at [OF assms(1) lev b'(2)] by metis
    then show False using b'(1) bookInvD(5) [OF assms(1-3)] assms(4) by auto
  qed
  then show ?thesis
    using compact_helper_other [of side ob "bID b"] bookInvD(5) [OF assms(1-3)] by simp
qed

text \<open>Every live order is still indexed, at a location that holds it.\<close>

lemma compact_moved:
  assumes "bookInv ob" and "orderAt ob loc0 = Some b" and "\<not> bDeleted b"
  obtains loc where "orderAt (compact_orderbook_helper side ob) loc = Some b"
    "fmlookup (order_lookup (compact_orderbook_helper side ob)) (bID b) = Some loc"
proof (cases "lSide loc0 = side")
  case True
  obtain bs k where k: "fmlookup (levelsOf (lSide loc0) ob) (lPrice loc0) = Some bs" "k < length (aliveIn bs)" "b = aliveIn bs ! k"
    by (rule aliveIn_index [OF assms(2,3)])
  have "orderAt (compact_orderbook_helper side ob) \<lparr>lSide = side, lPrice = lPrice loc0, lIndex = k\<rparr> = Some b"
    using k True by (simp add: compact_helper_at)
  moreover have "fmlookup (order_lookup (compact_orderbook_helper side ob)) (bID b) =
      Some \<lparr>lSide = side, lPrice = lPrice loc0, lIndex = k\<rparr>"
    using compact_helper_lookup [OF assms(1) k(1,2)] True k(3) by simp
  ultimately show thesis by (rule that)
next
  case False
  then have "orderAt (compact_orderbook_helper side ob) loc0 = Some b" using assms(2) by (simp add: compact_helper_at)
  then show thesis using that compact_away [OF assms False] by blast
qed

lemma compact_dom:
  assumes "bookInv ob"
  shows "fmdom (order_lookup (compact_orderbook_helper side ob)) = fmdom (order_lookup ob)"
proof -
  let ?c = "compact_orderbook_helper side ob"
  have "fmlookup (order_lookup ?c) i = None \<longleftrightarrow> fmlookup (order_lookup ob) i = None" for i
  proof (cases "\<exists>p bs. fmlookup (levelsOf side ob) p = Some bs \<and> i \<in> bID ` set (aliveIn bs)")
    case True
    then obtain p bs k where k: "fmlookup (levelsOf side ob) p = Some bs" "k < length (aliveIn bs)" "i = bID (aliveIn bs ! k)"
      by (metis imageE in_set_conv_nth)
    then show ?thesis
      using compact_helper_lookup [OF assms k(1,2)] aliveIn_at [OF assms k(1) nth_mem [OF k(2)]]
      by (metis option.distinct(1))
  next
    case False
    then have "fmlookup (order_lookup ?c) i = fmlookup (order_lookup ob) i" by (intro compact_helper_other) blast
    then show ?thesis by simp
  qed
  then show ?thesis by (metis fmlookup_dom_iff fset_eqI not_Some_eq)
qed

lemma compact_helper_inv:
  assumes "bookInv ob"
  shows "bookInv (compact_orderbook_helper side ob)"
proof (rule bookInvI)
  let ?c = "compact_orderbook_helper side ob"
  fix i loc assume l: "fmlookup (order_lookup ?c) i = Some loc"
  then have "i |\<in>| fmdom (order_lookup ob)" using compact_dom [OF assms] fmdomI by metis
  then obtain loc0 where "fmlookup (order_lookup ob) i = Some loc0" by (metis fmlookup_dom_iff)
  then obtain b where b: "orderAt ob loc0 = Some b" "\<not> bDeleted b" "bID b = i" using bookInvD(1) [OF assms] by blast
  obtain loc1 where "orderAt ?c loc1 = Some b" "fmlookup (order_lookup ?c) (bID b) = Some loc1"
    by (rule compact_moved [OF assms b(1,2)])
  then show "\<exists>b. orderAt ?c loc = Some b \<and> \<not> bDeleted b \<and> bID b = i" using b l by auto
next
  let ?c = "compact_orderbook_helper side ob"
  fix loc b assume b: "orderAt ?c loc = Some b"
  have same: "orderAt ob loc = Some b" if "lSide loc \<noteq> side" using b that by (simp add: compact_helper_at)
  show "bSide b = lSide loc \<and> bPrice b = lPrice loc"
    using compact_own(1) [OF assms b] same bookInvD(2,3) [OF assms, of loc b] by blast
  show "0 < bQuantity b \<and> fmlookup (order_lookup ?c) (bID b) = Some loc" if "\<not> bDeleted b"
    using compact_own(1,2) [OF assms b] same bookInvD(4) [OF assms, of loc b] compact_away [OF assms, of loc b side] that
    by blast
qed

lemma compact_helper_keeps:
  assumes "bookInv ob"
  shows "restsOf (compact_orderbook_helper side ob) = restsOf ob"
    and "fmdom (levelsOf s (compact_orderbook_helper side ob)) |\<subseteq>| fmdom (levelsOf s ob)"
proof -
  let ?c = "compact_orderbook_helper side ob"
  show "restsOf ?c = restsOf ob"
  proof (rule restsOf_eqI [OF assms compact_helper_inv [OF assms]])
    fix b
    have "\<exists>loc. orderAt ob loc = Some b" if "orderAt ?c loc = Some b" for loc
      using compact_own(3) [OF assms that] that by (cases "lSide loc = side") (auto simp: compact_helper_at)
    then show "(\<exists>loc. orderAt ?c loc = Some b) \<and> \<not> bDeleted b \<longleftrightarrow> (\<exists>loc. orderAt ob loc = Some b) \<and> \<not> bDeleted b"
      using compact_moved [OF assms] by metis
  qed
  show "fmdom (levelsOf s ?c) |\<subseteq>| fmdom (levelsOf s ob)"
    by (auto simp: compact_orderbook_helper_def Let_def)
qed

lemma compact_keeps:
  assumes "bookInv ob"
  shows "bookInv (compact_orderbook ob)" and "restsOf (compact_orderbook ob) = restsOf ob"
    and "fmdom (levelsOf s (compact_orderbook ob)) |\<subseteq>| fmdom (levelsOf s ob)"
proof -
  note b = compact_helper_inv [OF assms, of Buy]
  show "bookInv (compact_orderbook ob)" "restsOf (compact_orderbook ob) = restsOf ob"
    using compact_helper_inv [OF b, of Sell] compact_helper_keeps(1) [OF b, of Sell] compact_helper_keeps(1) [OF assms, of Buy]
    by (simp_all add: compact_orderbook_def Let_def)
  show "fmdom (levelsOf s (compact_orderbook ob)) |\<subseteq>| fmdom (levelsOf s ob)"
    using compact_helper_keeps(2) [OF b, of s Sell] compact_helper_keeps(2) [OF assms, of s Buy]
    by (auto simp: compact_orderbook_def Let_def)
qed

section \<open>Deletion and partial fills\<close>

lemma orderAt_id_unique:
  assumes "bookInv ob" and "orderAt ob loc = Some b" and "\<not> bDeleted b" and "orderAt ob loc' = Some b'"
    and "\<not> bDeleted b'" and "bID b' = bID b"
  shows "loc' = loc"
  using bookInvD(5) [OF assms(1-3)] bookInvD(5) [OF assms(1,4,5)] assms(6) by simp

lemma tombstone_keeps:
  assumes "bookInv ob" and "orderAt ob loc = Some e" and "\<not> bDeleted e"
    and "bID b = bID e" and "bSide b = bSide e" and "bPrice b = bPrice e" and "bDeleted b"
    and "ob' = (setOrder loc b ob)\<lparr>order_lookup := fmdrop (bID e) (order_lookup ob)\<rparr>"
  shows "bookInv ob'" and "restsOf ob' = fmdrop (bID e) (restsOf ob)"
proof -
  have at: "orderAt ob' loc' = (if loc' = loc then Some b else orderAt ob loc')" for loc'
    using orderAt_setOrder [of ob loc b loc'] assms(2,8) by simp
  have look: "order_lookup ob' = fmdrop (bID e) (order_lookup ob)" using assms(8) by simp
  have other: "bID b' \<noteq> bID e" if "orderAt ob loc' = Some b'" "\<not> bDeleted b'" "loc' \<noteq> loc" for loc' b'
    using orderAt_id_unique [OF assms(1-3) that(1,2)] that(3) by blast
  show inv: "bookInv ob'"
  proof (rule bookInvI)
    fix i loc' assume "fmlookup (order_lookup ob') i = Some loc'"
    then have i: "fmlookup (order_lookup ob) i = Some loc'" "i \<noteq> bID e" using look by (auto split: if_splits)
    obtain b' where b': "orderAt ob loc' = Some b'" "\<not> bDeleted b'" "bID b' = i"
      using bookInvD(1) [OF assms(1) i(1)] by blast
    then have "loc' \<noteq> loc" using assms(2) i(2) by auto
    then show "\<exists>b. orderAt ob' loc' = Some b \<and> \<not> bDeleted b \<and> bID b = i" using b' at by simp
  next
    fix loc' b' assume b': "orderAt ob' loc' = Some b'"
    show "bSide b' = lSide loc' \<and> bPrice b' = lPrice loc'"
      using b' at [of loc'] bookInvD(2,3) [OF assms(1)] assms(2,5,6) by (auto split: if_splits)
    show "0 < bQuantity b' \<and> fmlookup (order_lookup ob') (bID b') = Some loc'" if "\<not> bDeleted b'"
      using b' at [of loc'] that assms(7) other [of loc' b'] bookInvD(4,5) [OF assms(1), of loc' b'] look
      by (auto split: if_splits)
  qed
  show "restsOf ob' = fmdrop (bID e) (restsOf ob)"
  proof (rule fmap_ext)
    fix i
    have "fmlookup (restsOf ob') i = Some r \<longleftrightarrow> fmlookup (fmdrop (bID e) (restsOf ob)) i = Some r" for r
    proof (cases "i = bID e")
      case True
      have "fmlookup (order_lookup ob') i = None" using look True by simp
      then show ?thesis using True by (simp add: restsOf_def)
    next
      case False
      have "(\<exists>loc b'. orderAt ob' loc = Some b' \<and> \<not> bDeleted b' \<and> bID b' = i \<and> r = restB b') \<longleftrightarrow>
          (\<exists>loc b'. orderAt ob loc = Some b' \<and> \<not> bDeleted b' \<and> bID b' = i \<and> r = restB b')"
        using at False assms(2,4) by (metis option.inject)
      then show ?thesis using False restsOf_iff [OF inv] restsOf_iff [OF assms(1)] by simp
    qed
    then show "fmlookup (restsOf ob') i = fmlookup (fmdrop (bID e) (restsOf ob)) i" by (metis option.exhaust)
  qed
qed

lemma setOrder_dom:
  assumes "orderAt ob loc = Some e"
  shows "fmdom (levelsOf s (setOrder loc b ob)) = fmdom (levelsOf s ob)"
proof -
  have "lPrice loc |\<in>| fmdom (levelsOf (lSide loc) ob)"
    using assms by (auto simp: orderAt_def fmlookup_dom_iff split: option.splits)
  then show ?thesis by (auto simp: setOrder_def Let_def)
qed

lemma mark_order_deleted_keeps:
  assumes "bookInv ob" and "orderAt ob loc = Some e" and "\<not> bDeleted e"
    and "bID b = bID e" and "bSide b = bSide e" and "bPrice b = bPrice e"
    and "ob1 = ob \<or> ob1 = setOrder loc b ob"
  shows "bookInv (mark_order_deleted loc b ob1)"
    and "restsOf (mark_order_deleted loc b ob1) = fmdrop (bID e) (restsOf ob)"
    and "fmdom (levelsOf s (mark_order_deleted loc b ob1)) |\<subseteq>| fmdom (levelsOf s ob)"
proof -
  let ?b = "b\<lparr>bDeleted := True\<rparr>"
  let ?t = "(setOrder loc ?b ob)\<lparr>order_lookup := fmdrop (bID e) (order_lookup ob)\<rparr>"
  have set: "setOrder loc ?b ob1 = setOrder loc ?b ob" "order_lookup ob1 = order_lookup ob"
    using assms(7) by (auto simp: setOrder_twice)
  define u where "u = ?t\<lparr>deleted_orders_count := deleted_orders_count (setOrder loc ?b ob) + 1\<rparr>"
  have m: "mark_order_deleted loc b ob1 = compact_orderbook u \<or> mark_order_deleted loc b ob1 = u"
    by (simp add: mark_order_deleted_def Let_def set(1) assms(4) u_def)
  have t: "bookInv ?t" "restsOf ?t = fmdrop (bID e) (restsOf ob)"
    using tombstone_keeps [OF assms(1-3), of ?b ?t] assms(4-6) by simp_all
  have u: "bookInv u" "restsOf u = fmdrop (bID e) (restsOf ob)" "fmdom (levelsOf s u) = fmdom (levelsOf s ob)"
    using t setOrder_dom [OF assms(2)] by (simp_all add: u_def)
  show "bookInv (mark_order_deleted loc b ob1)" using m compact_keeps(1) [OF u(1)] u(1) by metis
  show "restsOf (mark_order_deleted loc b ob1) = fmdrop (bID e) (restsOf ob)"
    using m compact_keeps(2) [OF u(1)] u(2) by metis
  show "fmdom (levelsOf s (mark_order_deleted loc b ob1)) |\<subseteq>| fmdom (levelsOf s ob)"
    using m compact_keeps(3) [OF u(1), of s] u(3) by (metis fsubset_refl)
qed

lemma book_remove_order_spec:
  assumes "bookInv ob"
  shows "fst (book_remove_order i ob) = (fmlookup (restsOf ob) i \<noteq> None)"
    and "bookInv (snd (book_remove_order i ob))"
    and "restsOf (snd (book_remove_order i ob)) = fmdrop i (restsOf ob)"
proof -
  have "fst (book_remove_order i ob) = (fmlookup (restsOf ob) i \<noteq> None) \<and> bookInv (snd (book_remove_order i ob)) \<and>
      restsOf (snd (book_remove_order i ob)) = fmdrop i (restsOf ob)"
  proof (cases "fmlookup (order_lookup ob) i")
    case None
    then have "fmlookup (restsOf ob) i = None" by (simp add: restsOf_def)
    moreover from this have "fmdrop i (restsOf ob) = restsOf ob" by (intro fmap_ext) auto
    ultimately show ?thesis using None assms by (simp add: book_remove_order_def)
  next
    case (Some loc)
    obtain b where b: "orderAt ob loc = Some b" "\<not> bDeleted b" "bID b = i" using bookInvD(1) [OF assms Some] by blast
    show ?thesis
      using Some b mark_order_deleted_keeps(1,2) [OF assms b(1,2), of b ob]
      by (simp add: book_remove_order_def restsOf_def)
  qed
  then show "fst (book_remove_order i ob) = (fmlookup (restsOf ob) i \<noteq> None)"
    "bookInv (snd (book_remove_order i ob))" "restsOf (snd (book_remove_order i ob)) = fmdrop i (restsOf ob)"
    by simp_all
qed

text \<open>A fill of a resting order reduces it, or takes it out when nothing is left.\<close>

lemma setOrder_partial:
  assumes "bookInv ob" and "orderAt ob loc = Some e" and "\<not> bDeleted e" and "x < bQuantity e"
    and "ob' = setOrder loc (e\<lparr>bQuantity := bQuantity e - x\<rparr>) ob"
  shows "bookInv ob'" and "restsOf ob' = fmupd (bID e) ((restB e)\<lparr>rQty := bQuantity e - x\<rparr>) (restsOf ob)"
proof -
  let ?b = "e\<lparr>bQuantity := bQuantity e - x\<rparr>"
  have at: "orderAt ob' loc' = (if loc' = loc then Some ?b else orderAt ob loc')" for loc'
    using orderAt_setOrder [of ob loc ?b loc'] assms(2,5) by simp
  have look: "order_lookup ob' = order_lookup ob" using assms(5) by simp
  note e = bookInvD(2-5) [OF assms(1,2)]
  show inv: "bookInv ob'"
  proof (rule bookInvI)
    fix i loc' assume i: "fmlookup (order_lookup ob') i = Some loc'"
    show "\<exists>b. orderAt ob' loc' = Some b \<and> \<not> bDeleted b \<and> bID b = i"
      using bookInvD(1) [OF assms(1), of i loc'] i look at assms(2,3) by auto
  next
    fix loc' b' assume b': "orderAt ob' loc' = Some b'"
    show "bSide b' = lSide loc' \<and> bPrice b' = lPrice loc'"
      using b' at [of loc'] bookInvD(2,3) [OF assms(1)] e by (auto split: if_splits)
    show "0 < bQuantity b' \<and> fmlookup (order_lookup ob') (bID b') = Some loc'" if "\<not> bDeleted b'"
      using b' at [of loc'] that bookInvD(4,5) [OF assms(1)] e assms(3,4) look by (auto split: if_splits)
  qed
  show "restsOf ob' = fmupd (bID e) ((restB e)\<lparr>rQty := bQuantity e - x\<rparr>) (restsOf ob)"
  proof (rule fmap_ext)
    fix i
    show "fmlookup (restsOf ob') i = fmlookup (fmupd (bID e) ((restB e)\<lparr>rQty := bQuantity e - x\<rparr>) (restsOf ob)) i"
    proof (cases "i = bID e")
      case True
      then show ?thesis using look e(4) assms(3) at [of loc] by (simp add: restsOf_def restB_def)
    next
      case False
      have "loc' \<noteq> loc" if "fmlookup (order_lookup ob) i = Some loc'" for loc'
        using bookInvD(1) [OF assms(1) that] assms(2) False by auto
      then show ?thesis using False look at by (cases "fmlookup (order_lookup ob) i") (simp_all add: restsOf_def)
    qed
  qed
qed

lemma fillExisting_keeps:
  assumes "bookInv ob" and "orderAt ob loc = Some e" and "\<not> bDeleted e" and "x \<le> bQuantity e"
  shows "bookInv (fillExisting loc e x ob)"
    and "restsOf (fillExisting loc e x ob) = takeFrom (restsOf ob) (bID e) (restB e) x"
    and "fmdom (levelsOf s (fillExisting loc e x ob)) |\<subseteq>| fmdom (levelsOf s ob)"
proof -
  let ?b = "e\<lparr>bQuantity := bQuantity e - x\<rparr>"
  note p = setOrder_partial [OF assms(1-3) _ refl, of x]
  note d = mark_order_deleted_keeps [OF assms(1-3), of ?b "setOrder loc ?b ob"]
  show "bookInv (fillExisting loc e x ob)"
    using p(1) d(1) assms(4) by (auto simp: fillExisting_def Let_def)
  show "restsOf (fillExisting loc e x ob) = takeFrom (restsOf ob) (bID e) (restB e) x"
    using p(2) d(2) assms(4) by (auto simp: fillExisting_def Let_def takeFrom_def restB_def)
  show "fmdom (levelsOf s (fillExisting loc e x ob)) |\<subseteq>| fmdom (levelsOf s ob)"
    using setOrder_dom [OF assms(2), of s ?b] d(3) [of s] unfolding fillExisting_def Let_def
    by (cases "bQuantity ?b = 0") simp_all
qed

text \<open>A level of tombstones only can go.\<close>

lemma firstAlive_None: "firstAlive bs = None \<longleftrightarrow> (\<forall>b\<in>set bs. bDeleted b)"
  by (induction bs) auto

lemma firstAlive_Some:
  assumes "firstAlive bs = Some i"
  shows "i < length bs" and "\<not> bDeleted (bs ! i)" and "\<And>j. j < i \<Longrightarrow> bDeleted (bs ! j)"
proof -
  have "i < length bs \<and> \<not> bDeleted (bs ! i) \<and> (\<forall>j<i. bDeleted (bs ! j))"
    using assms by (induction bs arbitrary: i) (auto split: if_splits simp: less_Suc_eq_0_disj)
  then show "i < length bs" and "\<not> bDeleted (bs ! i)" and "\<And>j. j < i \<Longrightarrow> bDeleted (bs ! j)" by auto
qed

lemma drop_dead_level:
  assumes "bookInv ob" and "\<forall>b\<in>set (fmget [] (levelsOf side ob) p). bDeleted b"
    and "ob' = setLevels side (fmdrop p (levelsOf side ob)) ob"
  shows "bookInv ob'" and "restsOf ob' = restsOf ob"
proof -
  have at: "orderAt ob' loc = (if lSide loc = side \<and> lPrice loc = p then None else orderAt ob loc)" for loc
    using assms(3) by (auto simp: orderAt_def)
  have dead: "bDeleted b" if "orderAt ob loc = Some b" "lSide loc = side" "lPrice loc = p" for loc b
    using that assms(2) by (auto simp: orderAt_def fmget_def split: option.splits if_splits)
  have look: "order_lookup ob' = order_lookup ob" using assms(3) by simp
  have alive: "orderAt ob' loc = Some b \<longleftrightarrow> orderAt ob loc = Some b" if "\<not> bDeleted b" for loc b
    using at [of loc] dead [of loc b] that by (auto split: if_splits)
  show inv: "bookInv ob'"
  proof (rule bookInvI)
    fix i loc assume "fmlookup (order_lookup ob') i = Some loc"
    then show "\<exists>b. orderAt ob' loc = Some b \<and> \<not> bDeleted b \<and> bID b = i"
      using bookInvD(1) [OF assms(1)] look alive by metis
  next
    fix loc b assume "orderAt ob' loc = Some b"
    then have "orderAt ob loc = Some b" using at [of loc] by (auto split: if_splits)
    then show "bSide b = lSide loc \<and> bPrice b = lPrice loc"
      and "\<not> bDeleted b \<Longrightarrow> 0 < bQuantity b \<and> fmlookup (order_lookup ob') (bID b) = Some loc"
      using bookInvD(2-5) [OF assms(1)] look by auto
  qed
  show "restsOf ob' = restsOf ob" by (rule restsOf_eqI [OF assms(1) inv]) (use alive in blast)
qed

end
