(* ===== verification/Book_Matching.thy ===== *)
theory Book_Matching
  imports Book_Representation
begin

text \<open>
  Matching in the order book: price-time priority, termination of the matching loop within its
  fuel, and the law of the engine contract for a new order. The orders of one price level stand
  in the order of their IDs, which is the order of their arrival.
\<close>

section \<open>Priority\<close>

definition ahead :: "string \<Rightarrow> nat \<Rightarrow> rest \<Rightarrow> nat \<Rightarrow> rest \<Rightarrow> bool" where
  "ahead side i r j r' \<longleftrightarrow>
    (if side = ''buy'' then rPrice r < rPrice r' else rPrice r' < rPrice r) \<or> rPrice r = rPrice r' \<and> i \<le> j"

text \<open>Each fill meets the best resting order of the other side: first by price, then by arrival.\<close>

fun fairFills :: "string \<Rightarrow> restBook \<Rightarrow> EngineTrade list \<Rightarrow> bool" where
  "fairFills side b [] = True"
| "fairFills side b (f # fs) =
    (case fmlookup b (maker side f) of
       None \<Rightarrow> False
     | Some r \<Rightarrow> fmpred (\<lambda>j r'. rSide r' = rSide r \<longrightarrow> ahead side (maker side f) r j r') b \<and>
         fairFills side (takeFrom b (maker side f) r (etQuantity f)) fs)"

definition noCross :: "string \<Rightarrow> int \<Rightarrow> restBook \<Rightarrow> bool" where
  "noCross side p b \<longleftrightarrow> fmpred (\<lambda>_ r. \<not> crosses side p r) b"

definition bookOrdered :: "OrderBook \<Rightarrow> bool" where
  "bookOrdered ob \<longleftrightarrow>
    (\<forall>side p. sorted_wrt (<) (map bID (aliveIn (fmget [] (levelsOf side ob) p))))"

lemma bookOrderedD: "bookOrdered ob \<Longrightarrow> sorted_wrt (<) (map bID (aliveIn (fmget [] (levelsOf side ob) p)))"
  by (simp add: bookOrdered_def)

lemma bookOrdered_frame [simp]:
  "bookOrdered (ob\<lparr>order_lookup := w\<rparr>) = bookOrdered ob"
  "bookOrdered (ob\<lparr>deleted_orders_count := y\<rparr>) = bookOrdered ob" "bookOrdered (ob\<lparr>total_orders_count := y\<rparr>) = bookOrdered ob"
  "bookOrdered (ob\<lparr>bookTrades := z\<rparr>) = bookOrdered ob" "bookOrdered (ob\<lparr>orderbook_timestamp := y\<rparr>) = bookOrdered ob"
  "bookOrdered (ob\<lparr>nextBookID := y\<rparr>) = bookOrdered ob"
  by (simp_all add: bookOrdered_def)

lemma aliveIn_idem [simp]: "aliveIn (aliveIn bs) = aliveIn bs" "aliveIn [] = []"
  by (simp_all add: aliveIn_def)

lemma compact_helper_levels:
  "aliveIn (fmget [] (levelsOf s (compact_orderbook_helper side ob)) p) = aliveIn (fmget [] (levelsOf s ob) p)"
  by (cases "fmlookup (levelsOf s ob) p")
     (auto simp: compact_orderbook_helper_def Let_def fmget_def)

lemma compact_ordered: "bookOrdered ob \<Longrightarrow> bookOrdered (compact_orderbook ob)"
  by (simp add: compact_orderbook_def Let_def bookOrdered_def compact_helper_levels)

lemma aliveIn_update_ids:
  assumes "i < length bs" and "\<not> bDeleted (bs ! i)" and "bID b = bID (bs ! i)"
  shows "set (map bID (aliveIn (bs[i := b]))) \<subseteq> set (map bID (aliveIn bs))"
proof -
  have "\<exists>c\<in>set bs. \<not> bDeleted c \<and> bID c = bID d" if "d \<in> set (bs[i := b])" "\<not> bDeleted d" for d
    using that assms set_update_subset_insert [of bs i b] by (metis insertE nth_mem subsetD)
  then show ?thesis by (auto simp: aliveIn_def) (metis (mono_tags, lifting) image_eqI mem_Collect_eq)
qed

lemma aliveIn_update_sorted:
  assumes "sorted_wrt (<) (map bID (aliveIn bs))"
    and "i < length bs" and "\<not> bDeleted (bs ! i)" and "bID b = bID (bs ! i)"
  shows "sorted_wrt (<) (map bID (aliveIn (bs[i := b])))"
  using assms
proof (induction bs arbitrary: i)
  case (Cons c cs)
  have cs: "sorted_wrt (<) (map bID (aliveIn cs))" using Cons.prems(1) by (auto simp: aliveIn_def split: if_splits)
  show ?case
  proof (cases i)
    case 0
    then show ?thesis using Cons.prems cs by (auto simp: aliveIn_def)
  next
    case (Suc k)
    then have k: "k < length cs" "\<not> bDeleted (cs ! k)" "bID b = bID (cs ! k)" using Cons.prems by simp_all
    have sub: "set (map bID (aliveIn (cs[k := b]))) \<subseteq> set (map bID (aliveIn cs))" by (rule aliveIn_update_ids [OF k])
    have "\<forall>x\<in>set (map bID (aliveIn cs)). bID c < x" if "\<not> bDeleted c"
      using Cons.prems(1) that by (auto simp: aliveIn_def)
    then have "\<forall>x\<in>set (map bID (aliveIn (cs[k := b]))). bID c < x" if "\<not> bDeleted c" using sub that by blast
    then show ?thesis using Cons.IH [OF cs k] Suc by (auto simp: aliveIn_def)
  qed
qed simp

lemma setOrder_ordered:
  assumes "bookOrdered ob" and "orderAt ob loc = Some e" and "\<not> bDeleted e" and "bID b = bID e"
  shows "bookOrdered (setOrder loc b ob)"
proof -
  obtain bs where bs: "fmlookup (levelsOf (lSide loc) ob) (lPrice loc) = Some bs" "lIndex loc < length bs"
      "bs ! lIndex loc = e"
    using assms(2) by (auto simp: orderAt_def split: option.splits if_splits)
  have "sorted_wrt (<) (map bID (aliveIn (bs[lIndex loc := b])))"
    using aliveIn_update_sorted [of bs "lIndex loc" b] bookOrderedD [OF assms(1), of "lSide loc" "lPrice loc"] bs assms(3,4)
    by (simp add: fmget_def)
  then show ?thesis using assms(1) bs(1) by (auto simp: bookOrdered_def setOrder_def Let_def fmget_def)
qed

lemma mark_ordered:
  assumes "bookOrdered ob" and "orderAt ob loc = Some e" and "\<not> bDeleted e" and "bID b = bID e"
    and "ob1 = ob \<or> ob1 = setOrder loc b ob"
  shows "bookOrdered (mark_order_deleted loc b ob1)"
proof -
  have "setOrder loc (b\<lparr>bDeleted := True\<rparr>) ob1 = setOrder loc (b\<lparr>bDeleted := True\<rparr>) ob"
    using assms(5) by (auto simp: setOrder_twice)
  then show ?thesis
    using setOrder_ordered [OF assms(1-3), of "b\<lparr>bDeleted := True\<rparr>"] assms(4)
    by (simp add: mark_order_deleted_def Let_def compact_ordered)
qed

lemma fillExisting_ordered:
  assumes "bookOrdered ob" and "orderAt ob loc = Some e" and "\<not> bDeleted e"
  shows "bookOrdered (fillExisting loc e x ob)"
proof -
  let ?b = "e\<lparr>bQuantity := bQuantity e - x\<rparr>"
  have "bookOrdered (setOrder loc ?b ob)" "bookOrdered (mark_order_deleted loc ?b (setOrder loc ?b ob))"
    using setOrder_ordered [OF assms, of ?b] mark_ordered [OF assms, of ?b "setOrder loc ?b ob"] by simp_all
  then show ?thesis unfolding fillExisting_def Let_def by (cases "bQuantity ?b = 0") simp_all
qed

lemma drop_level_ordered: "bookOrdered ob \<Longrightarrow> bookOrdered (setLevels side (fmdrop p (levelsOf side ob)) ob)"
  by (simp add: bookOrdered_def fmget_def)

section \<open>The best level\<close>

lemma sorted_between: "sorted ps \<Longrightarrow> q \<in> set ps \<Longrightarrow> hd ps \<le> q \<and> q \<le> last ps" for q :: int
  by (induction ps) auto

lemma bestPrice_best:
  assumes "fmdom m \<noteq> {||}"
  shows "bestPrice side m |\<in>| fmdom m"
    and "q |\<in>| fmdom m \<Longrightarrow> case side of Buy \<Rightarrow> bestPrice side m \<le> q | Sell \<Rightarrow> q \<le> bestPrice side m"
proof -
  let ?ps = "sorted_list_of_fset (fmdom m)"
  have s: "sorted ?ps" by simp
  have in_ps: "q \<in> set ?ps \<longleftrightarrow> q |\<in>| fmdom m" for q by simp
  have ne: "?ps \<noteq> []" using assms in_ps by (metis all_not_fin_conv empty_iff empty_set)
  show "bestPrice side m |\<in>| fmdom m"
    using in_ps hd_in_set [OF ne] last_in_set [OF ne] by (cases side) (simp_all add: bestPrice_def Let_def)
  have "hd ?ps \<le> q \<and> q \<le> last ?ps" if "q \<in> set ?ps" for q
    using sorted_between [OF s that] .
  then show "q |\<in>| fmdom m \<Longrightarrow> case side of Buy \<Rightarrow> bestPrice side m \<le> q | Sell \<Rightarrow> q \<le> bestPrice side m"
    using in_ps by (cases side) (auto simp: bestPrice_def Let_def)
qed

section \<open>The matching loop\<close>

lemma sideText_simps [simp]:
  "sideText Buy = ''buy''" "sideText Sell = ''sell''" "sideText s = ''buy'' \<longleftrightarrow> s = Buy"
  "sideText s = ''sell'' \<longleftrightarrow> s = Sell" "sideText s = sideText s' \<longleftrightarrow> s = s'" "sideOk (sideText s)"
  by (cases s; cases s'; simp add: sideText_def sideOk_def)+

lemma opposite_simps [simp]: "opposite Buy = Sell" "opposite Sell = Buy" "opposite s \<noteq> s"
  by (cases s; simp add: opposite_def)+

lemma rest_location:
  assumes "bookInv ob" and "fmlookup (restsOf ob) j = Some r"
  obtains loc b where "orderAt ob loc = Some b" "\<not> bDeleted b" "bID b = j" "r = restB b"
    "rSide r = sideText (lSide loc)" "rPrice r = lPrice loc" "lPrice loc |\<in>| fmdom (levelsOf (lSide loc) ob)"
proof -
  obtain loc b where b: "orderAt ob loc = Some b" "\<not> bDeleted b" "bID b = j" "r = restB b"
    using assms(2) unfolding restsOf_iff [OF assms(1)] by blast
  have "lPrice loc |\<in>| fmdom (levelsOf (lSide loc) ob)"
    using b(1) by (auto simp: orderAt_def fmlookup_dom_iff split: option.splits)
  then show thesis using that [OF b] bookInvD(2,3) [OF assms(1) b(1)] b(4) by (simp add: restB_def)
qed

text \<open>The order the loop meets, and why it is the best of its side.\<close>

lemma best_existing:
  assumes "bookInv ob" and "bookOrdered ob" and "fmdom (levelsOf (opposite side) ob) \<noteq> {||}"
    and "p = bestPrice side (levelsOf (opposite side) ob)"
    and "firstAlive (fmget [] (levelsOf (opposite side) ob) p) = Some i"
    and "e = fmget [] (levelsOf (opposite side) ob) p ! i"
  shows "orderAt ob \<lparr>lSide = opposite side, lPrice = p, lIndex = i\<rparr> = Some e" and "\<not> bDeleted e"
    and "fmlookup (restsOf ob) (bID e) = Some (restB e)"
    and "fmpred (\<lambda>j r. rSide r = sideText (opposite side) \<longrightarrow> ahead (sideText side) (bID e) (restB e) j r) (restsOf ob)"
proof -
  let ?m = "levelsOf (opposite side) ob"
  obtain bs where bs: "fmlookup ?m p = Some bs" using assms(5) by (cases "fmlookup ?m p") (auto simp: fmget_def)
  have i: "i < length bs" "e = bs ! i" "\<not> bDeleted e" "\<And>j. j < i \<Longrightarrow> bDeleted (bs ! j)"
    using firstAlive_Some [OF assms(5)] assms(6) bs by (simp_all add: fmget_def)
  show at: "orderAt ob \<lparr>lSide = opposite side, lPrice = p, lIndex = i\<rparr> = Some e" and alive: "\<not> bDeleted e"
    using bs i by (simp_all add: orderAt_def)
  then show "fmlookup (restsOf ob) (bID e) = Some (restB e)" using restsOf_iff [OF assms(1)] by blast
  have "bs = take i bs @ e # drop (Suc i) bs" using i(1,2) by (simp add: id_take_nth_drop)
  moreover have "aliveIn (take i bs) = []" using i(1,4) by (auto simp: aliveIn_def filter_empty_conv in_set_conv_nth)
  ultimately have "aliveIn bs = e # aliveIn (drop (Suc i) bs)" using alive unfolding aliveIn_def
    by (metis append_Nil filter.simps(2) filter_append)
  then have least: "bID e \<le> bID b" if "b \<in> set (aliveIn bs)" for b
    using bookOrderedD [OF assms(2), of "opposite side" p] bs that by (auto simp: fmget_def)
  have pe: "rPrice (restB e) = p" using bookInvD(3) [OF assms(1) at] by (simp add: restB_def)
  have "ahead (sideText side) (bID e) (restB e) j r"
    if r: "fmlookup (restsOf ob) j = Some r" and opp: "rSide r = sideText (opposite side)" for j r
  proof -
    obtain loc b where b: "orderAt ob loc = Some b" "\<not> bDeleted b" "bID b = j" "r = restB b"
        "rSide r = sideText (lSide loc)" "rPrice r = lPrice loc" "lPrice loc |\<in>| fmdom (levelsOf (lSide loc) ob)"
      by (rule rest_location [OF assms(1) r])
    have l: "lSide loc = opposite side" using b(5) opp by simp
    have best: "case side of Buy \<Rightarrow> p \<le> rPrice r | Sell \<Rightarrow> rPrice r \<le> p"
      using bestPrice_best(2) [OF assms(3), of "lPrice loc" side] b(6,7) l assms(4)
      by (cases side) simp_all
    have "bID e \<le> j" if "rPrice r = p"
    proof -
      have "b \<in> set bs" using b(1) bs l that b(6) by (auto simp: orderAt_def split: if_splits)
      then show ?thesis using least [of b] b(2,3) by (simp add: aliveIn_def)
    qed
    then show ?thesis using best pe by (cases side) (auto simp: ahead_def)
  qed
  then show "fmpred (\<lambda>j r. rSide r = sideText (opposite side) \<longrightarrow> ahead (sideText side) (bID e) (restB e) j r) (restsOf ob)"
    by (simp add: fmpred_iff)
qed

lemma no_opposite_noCross:
  assumes "bookInv ob"
    and "\<And>q. q |\<in>| fmdom (levelsOf (opposite side) ob) \<Longrightarrow> \<not> tradePossible side p q"
  shows "noCross (sideText side) p (restsOf ob)"
proof -
  have "\<not> crosses (sideText side) p r" if r: "fmlookup (restsOf ob) j = Some r" for j r
  proof
    assume c: "crosses (sideText side) p r"
    obtain loc o' where b: "orderAt ob loc = Some o'" "\<not> bDeleted o'" "bID o' = j" "r = restB o'"
        "rSide r = sideText (lSide loc)" "rPrice r = lPrice loc" "lPrice loc |\<in>| fmdom (levelsOf (lSide loc) ob)"
      by (rule rest_location [OF assms(1) r])
    have l: "lSide loc = opposite side" "tradePossible side p (rPrice r)"
      using c b(5) by (cases side; simp add: crosses_def tradePossible_def)+
    then show False using assms(2) [of "rPrice r"] b(6,7) by simp
  qed
  then show ?thesis by (simp add: noCross_def fmpred_iff)
qed

text \<open>The result of the loop, as one relation.\<close>

definition matched :: "BookOrder \<Rightarrow> OrderBook \<Rightarrow> nat \<Rightarrow> OrderBook \<Rightarrow> EngineTrade list \<Rightarrow> bool" where
  "matched od ob q' ob' ts \<longleftrightarrow> bookInv ob' \<and> bookOrdered ob' \<and>
    replayFills (bID od) (sideText (bSide od)) (bPrice od) (bQuantity od) (restsOf ob) ts = Some (q', restsOf ob') \<and>
    fairFills (sideText (bSide od)) (restsOf ob) ts \<and>
    (q' = 0 \<or> noCross (sideText (bSide od)) (bPrice od) (restsOf ob'))"

lemma matched_start:
  assumes "bookInv ob" and "bookOrdered ob"
    and "bQuantity od = 0 \<or> noCross (sideText (bSide od)) (bPrice od) (restsOf ob)"
  shows "matched od ob (bQuantity od) ob []"
  using assms by (simp add: matched_def)

lemma fill_ids:
  assumes "t = newTrade od e p"
  shows "maker (sideText (bSide od)) t = bID e" and "taker (sideText (bSide od)) t = bID od"
    and "etPrice t = p" and "etQuantity t = min (bQuantity od) (bQuantity e)"
  using assms by (cases "bSide od"; simp add: newTrade_def maker_def taker_def)+

lemma matched_fill:
  assumes "bookInv ob" and "bookOrdered ob" and "0 < bQuantity od"
    and "fmdom (levelsOf (opposite (bSide od)) ob) \<noteq> {||}"
    and "p = bestPrice (bSide od) (levelsOf (opposite (bSide od)) ob)"
    and "firstAlive (fmget [] (levelsOf (opposite (bSide od)) ob) p) = Some i"
    and "tradePossible (bSide od) (bPrice od) p"
    and "e = fmget [] (levelsOf (opposite (bSide od)) ob) p ! i" and "t = newTrade od e p"
    and "ob1 = fillExisting \<lparr>lSide = opposite (bSide od), lPrice = p, lIndex = i\<rparr> e (etQuantity t) ob"
    and "matched (od\<lparr>bQuantity := bQuantity od - etQuantity t\<rparr>) ob1 q' ob' ts"
  shows "matched od ob q' ob' (t # ts)"
proof -
  note best = best_existing [OF assms(1,2,4-6,8)]
  note e = bookInvD(2-4) [OF assms(1) best(1)]
  note ids = fill_ids [OF assms(9)]
  have rests: "restsOf ob1 = takeFrom (restsOf ob) (bID e) (restB e) (etQuantity t)"
    using fillExisting_keeps(2) [OF assms(1) best(1,2), of "etQuantity t"] ids(4) assms(10) by simp
  have r: "rSide (restB e) = sideText (opposite (bSide od))" "rPrice (restB e) = p" "rQty (restB e) = bQuantity e"
    using e(1,2) by (simp_all add: restB_def)
  have "crosses (sideText (bSide od)) (bPrice od) (restB e)"
    using assms(7) r by (cases "bSide od") (simp_all add: crosses_def tradePossible_def)
  then have "replayFills (bID od) (sideText (bSide od)) (bPrice od) (bQuantity od) (restsOf ob) (t # ts) =
      replayFills (bID od) (sideText (bSide od)) (bPrice od) (bQuantity od - etQuantity t) (restsOf ob1) ts"
    using ids best(2,3) e(3) r rests assms(3) by simp
  moreover have "fairFills (sideText (bSide od)) (restsOf ob) (t # ts) = fairFills (sideText (bSide od)) (restsOf ob1) ts"
    using ids(1) best(3,4) r(1) rests by simp
  ultimately show ?thesis using assms(11) by (simp add: matched_def)
qed

text \<open>Each round makes this measure smaller.\<close>

definition matchMeasure :: "BookOrder \<Rightarrow> OrderBook \<Rightarrow> nat" where
  "matchMeasure od ob = fcard (fmdom (order_lookup ob)) + fcard (fmdom (levelsOf (opposite (bSide od)) ob)) +
     (if bQuantity od = 0 then 0 else 1)"

lemma measure_drop:
  assumes "p |\<in>| fmdom (levelsOf (opposite (bSide od)) ob)"
    and "ob' = setLevels (opposite (bSide od)) (fmdrop p (levelsOf (opposite (bSide od)) ob)) ob"
  shows "matchMeasure od ob' < matchMeasure od ob"
  using assms fcard_fminus1_less [OF assms(1)] by (simp add: matchMeasure_def)

lemma fcard_drop_less: "i |\<in>| fmdom m \<Longrightarrow> fcard (fmdom (fmdrop i m)) < fcard (fmdom m)"
  by (metis fcard_fminus1_less fmdom_drop)

lemma measure_fill:
  assumes "bookInv ob" and "orderAt ob loc = Some e" and "\<not> bDeleted e" and "0 < bQuantity od"
    and "x = min (bQuantity od) (bQuantity e)" and "ob' = fillExisting loc e x ob"
  shows "matchMeasure (od\<lparr>bQuantity := bQuantity od - x\<rparr>) (ob'\<lparr>bookTrades := z\<rparr>) < matchMeasure od ob"
proof -
  have x: "x \<le> bQuantity e" using assms(5) by simp
  have e: "bID e |\<in>| fmdom (order_lookup ob)" using bookInvD(5) [OF assms(1-3)] by (rule fmdomI)
  have look: "fmdom (order_lookup ob') = fmdom (takeFrom (restsOf ob) (bID e) (restB e) x)"
    using fillExisting_keeps(2) [OF assms(1-3) x] assms(6) by (metis restsOf_dom)
  have levels: "fcard (fmdom (levelsOf s ob')) \<le> fcard (fmdom (levelsOf s ob))" for s
    using fillExisting_keeps(3) [OF assms(1-3) x] assms(6) by (simp add: fcard_mono)
  show ?thesis
  proof (cases "x = bQuantity e")
    case True
    then have "fmdom (order_lookup ob') = fmdom (fmdrop (bID e) (order_lookup ob))"
      using look by (simp add: takeFrom_def restB_def)
    then have "fcard (fmdom (order_lookup ob')) < fcard (fmdom (order_lookup ob))" using fcard_drop_less [OF e] by simp
    then show ?thesis using levels [of "opposite (bSide od)"] assms(4) by (simp add: matchMeasure_def)
  next
    case False
    then have "x = bQuantity od" using assms(5) by linarith
    moreover have "fcard (fmdom (order_lookup ob')) = fcard (fmdom (order_lookup ob))"
      using look e False by (simp add: takeFrom_def restB_def finsert_absorb)
    ultimately show ?thesis using levels [of "opposite (bSide od)"] assms(4) by (simp add: matchMeasure_def)
  qed
qed

text \<open>With enough fuel the loop ends, and its trades are a fair matching.\<close>

lemma init_trades_result:
  assumes "bookInv ob" and "bookOrdered ob" and "matchMeasure od ob < n"
  shows "\<exists>q' ob' ts. init_trades_with_order n od ob ex = Some (od\<lparr>bQuantity := q'\<rparr>, ob', ex @ ts) \<and> matched od ob q' ob' ts"
  using assms
proof (induction n arbitrary: od ob ex)
  case (Suc n)
  let ?opp = "opposite (bSide od)"
  let ?m = "levelsOf ?opp ob"
  let ?p = "bestPrice (bSide od) ?m"
  have stop: ?case
    if "init_trades_with_order (Suc n) od ob ex = Some (od, ob, ex)"
      and "bQuantity od = 0 \<or> noCross (sideText (bSide od)) (bPrice od) (restsOf ob)"
    using matched_start [OF Suc.prems(1,2) that(2)] that(1)
    by (intro exI [of _ "bQuantity od"] exI [of _ ob] exI [of _ "[]"]) simp
  consider (zero) "bQuantity od = 0" | (empty) "0 < bQuantity od" "fmdom ?m = {||}"
    | (dead) "0 < bQuantity od" "fmdom ?m \<noteq> {||}" "firstAlive (fmget [] ?m ?p) = None"
    | (apart) i where "0 < bQuantity od" "fmdom ?m \<noteq> {||}" "firstAlive (fmget [] ?m ?p) = Some i"
        "\<not> tradePossible (bSide od) (bPrice od) ?p"
    | (trade) i where "0 < bQuantity od" "fmdom ?m \<noteq> {||}" "firstAlive (fmget [] ?m ?p) = Some i"
        "tradePossible (bSide od) (bPrice od) ?p"
    by fastforce
  then show ?case
  proof cases
    case zero
    then show ?thesis by (intro stop) simp_all
  next
    case empty
    then show ?thesis using no_opposite_noCross [OF Suc.prems(1), of "bSide od" "bPrice od"]
      by (intro stop) (simp_all add: Let_def)
  next
    case dead
    let ?ob1 = "setLevels ?opp (fmdrop ?p ?m) ob"
    have d: "bookInv ?ob1" "restsOf ?ob1 = restsOf ob"
      using drop_dead_level [OF Suc.prems(1) _ refl, of ?opp ?p] dead(3) firstAlive_None by blast+
    have "matchMeasure od ?ob1 < n"
      using measure_drop [OF bestPrice_best(1) [OF dead(2), of "bSide od"] refl] Suc.prems(3) by linarith
    then obtain q' ob' ts where "init_trades_with_order n od ?ob1 ex = Some (od\<lparr>bQuantity := q'\<rparr>, ob', ex @ ts)"
        "matched od ?ob1 q' ob' ts"
      using Suc.IH [OF d(1) drop_level_ordered [OF Suc.prems(2)]] by blast
    then show ?thesis using dead d(2) by (auto simp: Let_def matched_def)
  next
    case apart
    have "\<not> tradePossible (bSide od) (bPrice od) q" if "q |\<in>| fmdom ?m" for q
      using bestPrice_best(2) [OF apart(2) that, of "bSide od"] apart(4) by (cases "bSide od") (auto simp: tradePossible_def)
    then show ?thesis using apart no_opposite_noCross [OF Suc.prems(1), of "bSide od" "bPrice od"]
      by (intro stop) (simp_all add: Let_def)
  next
    case trade
    define e where "e = fmget [] ?m ?p ! i"
    define t where "t = newTrade od e ?p"
    define ob1 where "ob1 = fillExisting \<lparr>lSide = ?opp, lPrice = ?p, lIndex = i\<rparr> e (etQuantity t) ob"
    let ?ob2 = "ob1\<lparr>bookTrades := bookTrades ob1 @ [t]\<rparr>"
    let ?od1 = "od\<lparr>bQuantity := bQuantity od - etQuantity t\<rparr>"
    note best = best_existing [OF Suc.prems(1,2) trade(2) refl trade(3) e_def]
    have x: "etQuantity t = min (bQuantity od) (bQuantity e)" by (rule fill_ids(4) [OF t_def])
    have inv: "bookInv ?ob2" "bookOrdered ?ob2"
      using fillExisting_keeps(1) [OF Suc.prems(1) best(1,2)] fillExisting_ordered [OF Suc.prems(2) best(1,2)] x
      by (simp_all add: ob1_def)
    have "matchMeasure ?od1 ?ob2 < n"
      using measure_fill [OF Suc.prems(1) best(1,2) trade(1) x ob1_def, of "bookTrades ob1 @ [t]"] Suc.prems(3) by linarith
    then obtain q' ob' ts where r: "init_trades_with_order n ?od1 ?ob2 (ex @ [t]) =
        Some (?od1\<lparr>bQuantity := q'\<rparr>, ob', (ex @ [t]) @ ts)" "matched ?od1 ?ob2 q' ob' ts"
      using Suc.IH [OF inv] by blast
    have "matched ?od1 ob1 q' ob' ts" using r(2) by (simp add: matched_def)
    then have m: "matched od ob q' ob' (t # ts)"
      by (rule matched_fill [OF Suc.prems(1,2) trade(1,2) refl trade(3,4) e_def t_def ob1_def])
    have "init_trades_with_order (Suc n) od ob ex = Some (od\<lparr>bQuantity := q'\<rparr>, ob', ex @ t # ts)"
      using trade r(1) by (simp add: Let_def e_def t_def ob1_def)
    then show ?thesis using m by blast
  qed
qed simp

section \<open>A new order\<close>

lemma restIn_keeps:
  assumes "bookInv ob" and "\<not> bDeleted od" and "0 < bQuantity od" and "fmlookup (order_lookup ob) (bID od) = None"
  shows "bookInv (restIn od ob)" and "restsOf (restIn od ob) = fmupd (bID od) (restB od) (restsOf ob)"
proof -
  define bs where "bs = fmget [] (levelsOf (bSide od) ob) (bPrice od)"
  define new where "new = \<lparr>lSide = bSide od, lPrice = bPrice od, lIndex = length bs\<rparr>"
  have look: "order_lookup (restIn od ob) = fmupd (bID od) new (order_lookup ob)"
    by (simp add: restIn_def Let_def new_def bs_def)
  have fresh: "orderAt ob new = None"
    by (cases "fmlookup (levelsOf (bSide od) ob) (bPrice od)") (simp_all add: orderAt_def new_def bs_def fmget_def)
  have at: "orderAt (restIn od ob) loc = (if loc = new then Some od else orderAt ob loc)" for loc
  proof -
    have "loc = new \<longleftrightarrow> lSide loc = bSide od \<and> lPrice loc = bPrice od \<and> lIndex loc = length bs"
      by (cases loc) (simp add: new_def)
    then show ?thesis
      by (auto simp: orderAt_def restIn_def Let_def bs_def fmget_def nth_append split: option.splits)
  qed
  show inv: "bookInv (restIn od ob)"
  proof (rule bookInvI)
    fix i loc assume "fmlookup (order_lookup (restIn od ob)) i = Some loc"
    then have "fmlookup (fmupd (bID od) new (order_lookup ob)) i = Some loc" by (simp only: look)
    then consider "i = bID od" "loc = new" | "fmlookup (order_lookup ob) i = Some loc"
      by (cases "bID od = i") simp_all
    then show "\<exists>b. orderAt (restIn od ob) loc = Some b \<and> \<not> bDeleted b \<and> bID b = i"
      using at assms(2) bookInvD(1) [OF assms(1), of i loc] fresh by cases auto
  next
    fix loc b assume b: "orderAt (restIn od ob) loc = Some b"
    show "bSide b = lSide loc \<and> bPrice b = lPrice loc"
      using b at [of loc] bookInvD(2,3) [OF assms(1)] by (auto simp: new_def split: if_splits)
    show "0 < bQuantity b \<and> fmlookup (order_lookup (restIn od ob)) (bID b) = Some loc" if "\<not> bDeleted b"
      using b that at [of loc] bookInvD(4,5) [OF assms(1), of loc b] look assms(3,4) by (auto split: if_splits)
  qed
  show "restsOf (restIn od ob) = fmupd (bID od) (restB od) (restsOf ob)"
  proof (rule fmap_ext)
    fix i
    have "loc \<noteq> new" if "fmlookup (order_lookup ob) i = Some loc" for loc
      using bookInvD(1) [OF assms(1) that] fresh by auto
    then show "fmlookup (restsOf (restIn od ob)) i = fmlookup (fmupd (bID od) (restB od) (restsOf ob)) i"
      using look at assms(4) by (cases "fmlookup (order_lookup ob) i") (auto simp: restsOf_def)
  qed
qed

lemma restIn_ordered:
  assumes "bookInv ob" and "bookOrdered ob" and "\<And>j. j |\<in>| fmdom (order_lookup ob) \<Longrightarrow> j < bID od"
  shows "bookOrdered (restIn od ob)"
proof -
  let ?bs = "fmget [] (levelsOf (bSide od) ob) (bPrice od)"
  have "bID b < bID od" if "b \<in> set (aliveIn ?bs)" for b
  proof -
    obtain bs where bs: "fmlookup (levelsOf (bSide od) ob) (bPrice od) = Some bs" "b \<in> set (aliveIn bs)"
      using \<open>b \<in> set (aliveIn ?bs)\<close> by (cases "fmlookup (levelsOf (bSide od) ob) (bPrice od)") (auto simp: fmget_def)
    then obtain j where "fmlookup (order_lookup ob) (bID b) = Some \<lparr>lSide = bSide od, lPrice = bPrice od, lIndex = j\<rparr>"
      by (rule aliveIn_at [OF assms(1)])
    then show ?thesis using assms(3) fmdomI by metis
  qed
  then have "sorted_wrt (<) (map bID (aliveIn (?bs @ [od])))"
    using bookOrderedD [OF assms(2)] by (auto simp: aliveIn_def sorted_wrt_append)
  then show ?thesis using assms(2) by (auto simp: bookOrdered_def restIn_def Let_def fmget_def)
qed

text \<open>Replaying fills never adds an order to the book, nor changes a side or a price.\<close>

lemma replayFills_shrinks:
  assumes "replayFills i side p q b fs = Some (q', b')"
  shows "q' \<le> q" and "fmlookup b' j = Some r \<Longrightarrow> \<exists>r0. fmlookup b j = Some r0 \<and> rSide r0 = rSide r \<and> rPrice r0 = rPrice r"
proof -
  have "q' \<le> q \<and> (\<forall>j r. fmlookup b' j = Some r \<longrightarrow>
      (\<exists>r0. fmlookup b j = Some r0 \<and> rSide r0 = rSide r \<and> rPrice r0 = rPrice r))"
    using assms
  proof (induction fs arbitrary: q b)
    case (Cons f fs)
    obtain m where m: "fmlookup b (maker side f) = Some m" "etQuantity f \<le> q"
        "replayFills i side p (q - etQuantity f) (takeFrom b (maker side f) m (etQuantity f)) fs = Some (q', b')"
      using Cons.prems by (auto split: option.splits if_splits)
    have before: "\<exists>r0. fmlookup b j = Some r0 \<and> rSide r0 = rSide r \<and> rPrice r0 = rPrice r"
      if "fmlookup (takeFrom b (maker side f) m (etQuantity f)) j = Some r" for j r
      using that m(1) by (auto simp: takeFrom_def split: if_splits)
    show ?case
    proof (intro conjI allI impI)
      show "q' \<le> q" using Cons.IH [OF m(3)] by linarith
      fix j r assume "fmlookup b' j = Some r"
      then obtain r1 where "fmlookup (takeFrom b (maker side f) m (etQuantity f)) j = Some r1"
          "rSide r1 = rSide r" "rPrice r1 = rPrice r"
        using Cons.IH [OF m(3)] by blast
      then show "\<exists>r0. fmlookup b j = Some r0 \<and> rSide r0 = rSide r \<and> rPrice r0 = rPrice r"
        using before [of j r1] by simp
    qed
  qed simp
  then show "q' \<le> q"
    and "fmlookup b' j = Some r \<Longrightarrow> \<exists>r0. fmlookup b j = Some r0 \<and> rSide r0 = rSide r \<and> rPrice r0 = rPrice r" by blast+
qed

definition bookUncrossed :: "restBook \<Rightarrow> bool" where
  "bookUncrossed b \<longleftrightarrow> fmpred (\<lambda>_ r. rSide r = ''buy'' \<longrightarrow> noCross ''buy'' (rPrice r) b) b"

lemma bookUncrossed_iff:
  "bookUncrossed b \<longleftrightarrow> (\<forall>i j r s. fmlookup b i = Some r \<longrightarrow> rSide r = ''buy'' \<longrightarrow>
     fmlookup b j = Some s \<longrightarrow> rSide s = ''sell'' \<longrightarrow> rPrice r < rPrice s)"
  by (force simp: bookUncrossed_def noCross_def fmpred_iff crosses_def not_le)

lemma uncrossed_drop: "bookUncrossed b \<Longrightarrow> bookUncrossed (fmdrop i b)"
  by (simp add: bookUncrossed_iff)

lemma uncrossed_after:
  assumes "bookUncrossed b" and "replayFills i (sideText side) p q b fs = Some (q', b')"
    and "q' = 0 \<or> noCross (sideText side) p b'"
  shows "bookUncrossed (bookAfter i (sideText side) p (q', b'))"
proof -
  have old: "\<exists>r0. fmlookup b j = Some r0 \<and> rSide r0 = rSide r \<and> rPrice r0 = rPrice r" if "fmlookup b' j = Some r" for j r
    using replayFills_shrinks(2) [OF assms(2) that] .
  have b': "bookUncrossed b'"
    unfolding bookUncrossed_iff
  proof (intro allI impI)
    fix j k r s
    assume "fmlookup b' j = Some r" "rSide r = ''buy''" "fmlookup b' k = Some s" "rSide s = ''sell''"
    then show "rPrice r < rPrice s" using old [of j r] old [of k s] assms(1) unfolding bookUncrossed_iff by metis
  qed
  show ?thesis
  proof (cases "q' = 0")
    case False
    then have n: "\<not> crosses (sideText side) p r" if "fmlookup b' j = Some r" for j r
      using assms(3) that by (auto simp: noCross_def fmpred_iff)
    show ?thesis
      using b' n False unfolding bookUncrossed_iff bookAfter_def
      by (cases side) (auto simp: crosses_def not_le split: if_splits)
  qed (use b' in \<open>simp add: bookAfter_def\<close>)
qed

text \<open>All that holds of a book between operations; its IDs stay below the next one.\<close>

definition bookGood :: "nat \<Rightarrow> OrderBook \<Rightarrow> bool" where
  "bookGood lim ob \<longleftrightarrow> bookInv ob \<and> bookOrdered ob \<and> bookUncrossed (restsOf ob) \<and>
     (\<forall>j. j |\<in>| fmdom (order_lookup ob) \<longrightarrow> 0 < j \<and> j < lim)"

lemma bookGoodD:
  assumes "bookGood lim ob"
  shows "bookInv ob" and "bookOrdered ob" and "bookUncrossed (restsOf ob)"
    and "j |\<in>| fmdom (order_lookup ob) \<Longrightarrow> 0 < j" and "j |\<in>| fmdom (order_lookup ob) \<Longrightarrow> j < lim"
  using assms by (auto simp: bookGood_def)

lemma bookGood_mono: "bookGood lim ob \<Longrightarrow> lim \<le> lim' \<Longrightarrow> bookGood lim' ob"
  unfolding bookGood_def by (meson order.strict_trans2)

lemma emptyBook_good: "bookGood lim emptyBook" "restsOf emptyBook = fmempty"
  by (simp_all add: bookGood_def bookInv_def bookOrdered_def emptyBook_def orderAt_def levelsOf_def restsOf_def
      bookUncrossed_def fmget_def split: CSide.splits)

lemma book_remove_order_good:
  assumes "bookGood lim ob"
  shows "bookGood lim (snd (book_remove_order i ob))"
proof -
  note s = book_remove_order_spec [OF bookGoodD(1) [OF assms], of i]
  have ord: "bookOrdered (snd (book_remove_order i ob))"
  proof (cases "fmlookup (order_lookup ob) i")
    case (Some loc)
    then obtain b where b: "orderAt ob loc = Some b" "\<not> bDeleted b" using bookInvD(1) [OF bookGoodD(1) [OF assms]] by blast
    then show ?thesis using Some mark_ordered [OF bookGoodD(2) [OF assms] b, of b ob] by (simp add: book_remove_order_def)
  qed (use assms in \<open>simp add: book_remove_order_def bookGoodD(2)\<close>)
  have "fmdom (order_lookup (snd (book_remove_order i ob))) = fmdom (order_lookup ob) |-| {|i|}"
    using s(3) by (metis fmdom_drop restsOf_dom)
  then show ?thesis
    using s(2,3) ord bookGoodD(3-5) [OF assms] unfolding bookGood_def by (simp add: uncrossed_drop)
qed

lemma matchFuel_enough: "matchMeasure od ob < matchFuel ob"
  by (cases "bSide od") (simp_all add: matchMeasure_def matchFuel_def levelsOf_def)

lemma book_add_order_result:
  assumes "bookInv ob" and "bookOrdered ob" and "bID new \<noteq> 0"
  obtains q ob3 ts where "matched new ob q ob3 ts"
    "book_add_order new ob = ((new\<lparr>bTimestamp := orderbook_timestamp ob, bQuantity := q\<rparr>, ts),
       if 0 < q then restIn (new\<lparr>bTimestamp := orderbook_timestamp ob, bQuantity := q\<rparr>) ob3 else ob3)"
proof -
  let ?od = "new\<lparr>bTimestamp := orderbook_timestamp ob\<rparr>"
  let ?ob = "ob\<lparr>orderbook_timestamp := orderbook_timestamp ob + 1\<rparr>"
  obtain q ob3 ts where
      r: "init_trades_with_order (matchFuel ?ob) ?od ?ob [] = Some (?od\<lparr>bQuantity := q\<rparr>, ob3, [] @ ts)" "matched ?od ?ob q ob3 ts"
    using init_trades_result [of ?ob ?od "matchFuel ?ob" "[]"] matchFuel_enough assms by auto
  have "matched new ob q ob3 ts" using r(2) by (simp add: matched_def)
  then show thesis using r(1) assms(3) by (intro that [of q ob3 ts]) (simp_all add: book_add_order_def Let_def)
qed

lemma book_add_order_spec:
  assumes good: "bookGood lim ob" and new: "lim \<le> bID new" "0 < bID new" "\<not> bDeleted new" "0 < bQuantity new"
    and res: "book_add_order new ob = ((od, ts), ob')"
  shows "bookGood (Suc (bID new)) ob'" and "bID od = bID new"
    and "matchBook (restsOf ob) (sideText (bSide new)) (bPrice new) (bQuantity new)
      \<lparr>erOrderID = bID new, erTrades = ts\<rparr> = Some (restsOf ob')"
    and "fairFills (sideText (bSide new)) (restsOf ob) ts"
proof -
  obtain q ob3 where m: "matched new ob q ob3 ts" and od: "od = new\<lparr>bTimestamp := orderbook_timestamp ob, bQuantity := q\<rparr>"
      and ob': "ob' = (if 0 < q then restIn od ob3 else ob3)"
    by (rule book_add_order_result [OF bookGoodD(1,2) [OF good], of new]) (use res new(2) in auto)
  have rep: "replayFills (bID new) (sideText (bSide new)) (bPrice new) (bQuantity new) (restsOf ob) ts = Some (q, restsOf ob3)"
    and fair: "fairFills (sideText (bSide new)) (restsOf ob) ts" and inv3: "bookInv ob3" "bookOrdered ob3"
    and cross: "q = 0 \<or> noCross (sideText (bSide new)) (bPrice new) (restsOf ob3)"
    using m by (simp_all add: matched_def)
  have ids: "0 < j \<and> j < bID new" if "j |\<in>| fmdom (order_lookup ob3)" for j
  proof -
    have "j |\<in>| fmdom (restsOf ob3)" using that by simp
    then obtain r where "fmlookup (restsOf ob3) j = Some r" unfolding fmlookup_dom_iff by blast
    then obtain r0 where "fmlookup (restsOf ob) j = Some r0" using replayFills_shrinks(2) [OF rep] by blast
    then have "j |\<in>| fmdom (order_lookup ob)" using fmdomI by fastforce
    then show ?thesis using bookGoodD(4,5) [OF good] new(1) by (metis order.strict_trans2)
  qed
  have fresh3: "fmlookup (order_lookup ob3) (bID new) = None" using ids fmdomI by fastforce
  have fresh: "fmlookup (restsOf ob) (bID new) = None"
    using bookGoodD(5) [OF good, of "bID new"] new(1) fmdomI [of "restsOf ob" "bID new"]
    by (cases "fmlookup (restsOf ob) (bID new)") auto
  have rests: "restsOf ob' = bookAfter (bID new) (sideText (bSide new)) (bPrice new) (q, restsOf ob3)"
    using ob' od restIn_keeps(2) [OF inv3(1), of od] fresh3 new(3) by (simp add: bookAfter_def restB_def)
  have inv: "bookInv ob'" "bookOrdered ob'"
    using ob' od inv3 restIn_keeps(1) [OF inv3(1), of od] restIn_ordered [OF inv3, of od] fresh3 new(3) ids by auto
  have "0 < j \<and> j < Suc (bID new)" if "j |\<in>| fmdom (order_lookup ob')" for j
    using that ids [of j] ob' od new(2) by (auto simp: restIn_def Let_def split: if_splits)
  then show "bookGood (Suc (bID new)) ob'"
    using inv rests uncrossed_after [OF bookGoodD(3) [OF good] rep cross] by (simp add: bookGood_def)
  show "bID od = bID new" using od by simp
  show "matchBook (restsOf ob) (sideText (bSide new)) (bPrice new) (bQuantity new)
      \<lparr>erOrderID = bID new, erTrades = ts\<rparr> = Some (restsOf ob')"
    using rep fresh rests new(2) by (simp add: matchBook_def)
  show "fairFills (sideText (bSide new)) (restsOf ob) ts" by (rule fair)
qed

end
