(* ===== verification/Matching_Server.thy ===== *)
theory Matching_Server
  imports Book_Matching
begin

text \<open>
  The exchange of the C++ engine (src/engine/src/exchange.cpp), one book per symbol and one
  counter for the order IDs, and the gRPC service over it (src/engine/src/grpc_server.cpp). The
  counter has 64 bits and an order ID 32; the theory proves the laws of the engine contract for
  the exchange as long as the counter fits in 32 bits, and that afterwards an ID can come back.
\<close>

section \<open>The exchange\<close>

record Exchange =
  symbol_map :: "(string, OrderBook) fmap"
  next_order_id :: nat

definition emptyExchange :: Exchange where
  "emptyExchange = \<lparr>symbol_map = fmempty, next_order_id = 1\<rparr>"

record Submission =
  subSymbol :: string
  subPrice :: int
  subQuantity :: nat
  subSide :: CSide

datatype exchangeError = SYMBOL_NOT_FOUND | InvalidArgument string

definition exch_add_book :: "string \<Rightarrow> Exchange \<Rightarrow> Exchange" where
  "exch_add_book symbol x =
    (if fmlookup (symbol_map x) symbol \<noteq> None then x
     else x\<lparr>symbol_map := fmupd symbol emptyBook (symbol_map x)\<rparr>)"

definition exch_remove_book :: "string \<Rightarrow> Exchange \<Rightarrow> Exchange" where
  "exch_remove_book symbol x = x\<lparr>symbol_map := fmdrop symbol (symbol_map x)\<rparr>"

definition newOrder :: "int \<Rightarrow> nat \<Rightarrow> CSide \<Rightarrow> BookOrder" where
  "newOrder price quantity side =
    \<lparr>bTimestamp = 0, bID = 0, bDeleted = False, bPrice = price, bQuantity = quantity, bSide = side\<rparr>"

text \<open>Drawing an ID: \<^verbatim>\<open>order.order_id = next_order_id++\<close>, 64 bits narrowed to 32.\<close>

definition drawID :: "Exchange \<Rightarrow> nat \<times> Exchange" where
  "drawID x = (next_order_id x mod 2 ^ 32, x\<lparr>next_order_id := (next_order_id x + 1) mod 2 ^ 64\<rparr>)"

definition exch_add_order :: "string \<Rightarrow> BookOrder \<Rightarrow> Exchange \<Rightarrow> (nat \<times> EngineTrade list) \<times> Exchange" where
  "exch_add_order symbol order0 x0 =
    (let (i, x) = drawID x0; od = order0\<lparr>bID := i\<rparr>
     in case fmlookup (symbol_map x) symbol of
          None \<Rightarrow> ((0, []), x)
        | Some ob \<Rightarrow>
           (let ((od1, ts), ob1) = book_add_order od ob
            in ((bID od1, ts), x\<lparr>symbol_map := fmupd symbol ob1 (symbol_map x)\<rparr>)))"

definition exch_remove_order :: "string \<Rightarrow> nat \<Rightarrow> Exchange \<Rightarrow> bool \<times> Exchange" where
  "exch_remove_order symbol i x =
    (case fmlookup (symbol_map x) symbol of
       None \<Rightarrow> (False, x)
     | Some ob \<Rightarrow>
        (let (removed, ob1) = book_remove_order i ob
         in (removed, x\<lparr>symbol_map := fmupd symbol ob1 (symbol_map x)\<rparr>)))"

definition exch_query :: "(OrderBook \<Rightarrow> int) \<Rightarrow> string \<Rightarrow> Exchange \<Rightarrow> exchangeError + int" where
  "exch_query q symbol x = (case fmlookup (symbol_map x) symbol of None \<Rightarrow> Inl SYMBOL_NOT_FOUND | Some ob \<Rightarrow> Inr (q ob))"

definition exch_get_quote :: "string \<Rightarrow> Exchange \<Rightarrow> exchangeError + EngineQuote" where
  "exch_get_quote symbol x =
    (case fmlookup (symbol_map x) symbol of
       None \<Rightarrow> Inl SYMBOL_NOT_FOUND
     | Some ob \<Rightarrow> Inr \<lparr>qSymbol = symbol, qBid = get_best_bid ob, qAsk = get_best_ask ob\<rparr>)"

text \<open>The validation pass of \<^verbatim>\<open>add_orders\<close>: the first bad command decides.\<close>

fun checkSubmissions :: "Submission list \<Rightarrow> Exchange \<Rightarrow> exchangeError option" where
  "checkSubmissions [] x = None"
| "checkSubmissions (s # ss) x =
    (if fmlookup (symbol_map x) (subSymbol s) = None then Some SYMBOL_NOT_FOUND
     else if subQuantity s = 0 \<or> subPrice s \<le> 0 \<or> subPrice s \<ge> 100 then Some (InvalidArgument ''invalid prediction-market order'')
     else checkSubmissions ss x)"

text \<open>The second pass: every command in turn, with the symbols in the order they first occur.\<close>

fun runSubmissions :: "Submission list \<Rightarrow> string list \<Rightarrow> Exchange \<Rightarrow> (EngineResult list \<times> string list) \<times> Exchange" where
  "runSubmissions [] seen x = (([], seen), x)"
| "runSubmissions (s # ss) seen x0 =
    (let ((i, ts), x) = exch_add_order (subSymbol s) (newOrder (subPrice s) (subQuantity s) (subSide s)) x0;
         ((rs, seen'), x') = runSubmissions ss (if subSymbol s \<in> set seen then seen else seen @ [subSymbol s]) x
     in ((\<lparr>erOrderID = fst (drawID x0), erTrades = ts\<rparr> # rs, seen'), x'))"

definition exch_add_orders :: "Submission list \<Rightarrow> Exchange \<Rightarrow> (exchangeError + EngineBatch) \<times> Exchange" where
  "exch_add_orders ss x =
    (if ss = [] \<or> length ss > 32 then (Inl (InvalidArgument ''batch size must be 1-32''), x)
     else case checkSubmissions ss x of
            Some err \<Rightarrow> (Inl err, x)
          | None \<Rightarrow>
             (let ((rs, seen), x') = runSubmissions ss [] x;
                  quote = (\<lambda>symbol. let ob = fmget emptyBook (symbol_map x') symbol
                            in \<lparr>qSymbol = symbol, qBid = get_best_bid ob, qAsk = get_best_ask ob\<rparr>)
              in (Inr \<lparr>ebResults = rs, ebQuotes = map quote seen\<rparr>, x')))"

section \<open>The gRPC service\<close>

datatype statusCode = NOT_FOUND | INVALID_ARGUMENT | UNAVAILABLE

type_synonym rpcStatus = "statusCode \<times> string"

datatype pbSide = SIDE_BUY | SIDE_SELL

record OrderSubmission =
  osSymbol :: string
  osPrice :: int
  osQuantity :: nat
  osSide :: pbSide

definition toSide :: "pbSide \<Rightarrow> CSide" where
  "toSide s = (if s = SIDE_BUY then Buy else Sell)"

definition statusOf :: "exchangeError \<Rightarrow> rpcStatus" where
  "statusOf err = (case err of SYMBOL_NOT_FOUND \<Rightarrow> (NOT_FOUND, ''symbol not found'') | InvalidArgument t \<Rightarrow> (INVALID_ARGUMENT, t))"

definition srvAddBook :: "string \<Rightarrow> Exchange \<Rightarrow> (rpcStatus + unit) \<times> Exchange" where
  "srvAddBook symbol x = (Inr (), exch_add_book symbol x)"

definition srvRemoveBook :: "string \<Rightarrow> Exchange \<Rightarrow> (rpcStatus + unit) \<times> Exchange" where
  "srvRemoveBook symbol x = (Inr (), exch_remove_book symbol x)"

definition srvAddOrder :: "OrderSubmission \<Rightarrow> Exchange \<Rightarrow> (rpcStatus + EngineResult) \<times> Exchange" where
  "srvAddOrder sub x =
    (let ((i, ts), x') = exch_add_order (osSymbol sub) (newOrder (osPrice sub) (osQuantity sub) (toSide (osSide sub))) x
     in if i = 0 then (Inl (NOT_FOUND, ''symbol not found''), x')
        else (Inr \<lparr>erOrderID = i, erTrades = ts\<rparr>, x'))"

definition srvAddOrders :: "OrderSubmission list \<Rightarrow> Exchange \<Rightarrow> (rpcStatus + EngineBatch) \<times> Exchange" where
  "srvAddOrders subs x =
    (if length subs < 1 \<or> length subs > 32 then (Inl (INVALID_ARGUMENT, ''batch size must be 1-32''), x)
     else case exch_add_orders (map (\<lambda>s. \<lparr>subSymbol = osSymbol s, subPrice = osPrice s, subQuantity = osQuantity s,
                 subSide = toSide (osSide s)\<rparr>) subs) x of
            (Inl err, x') \<Rightarrow> (Inl (statusOf err), x')
          | (Inr batch, x') \<Rightarrow> (Inr batch, x'))"

definition srvGetQuote :: "string \<Rightarrow> Exchange \<Rightarrow> (rpcStatus + EngineQuote) \<times> Exchange" where
  "srvGetQuote symbol x = (case exch_get_quote symbol x of Inl err \<Rightarrow> Inl (statusOf err) | Inr q \<Rightarrow> Inr q, x)"

definition srvRemoveOrder :: "string \<Rightarrow> nat \<Rightarrow> Exchange \<Rightarrow> (rpcStatus + bool) \<times> Exchange" where
  "srvRemoveOrder symbol i x = (let (removed, x') = exch_remove_order symbol i x in (Inr removed, x'))"

definition srvPrice :: "(OrderBook \<Rightarrow> int) \<Rightarrow> string \<Rightarrow> Exchange \<Rightarrow> (rpcStatus + int) \<times> Exchange" where
  "srvPrice q symbol x = (case exch_query q symbol x of Inl err \<Rightarrow> Inl (statusOf err) | Inr p \<Rightarrow> Inr p, x)"

section \<open>Books of an exchange\<close>

definition exchangeBook :: "Exchange \<Rightarrow> string \<Rightarrow> restBook" where
  "exchangeBook x symbol = (case fmlookup (symbol_map x) symbol of None \<Rightarrow> fmempty | Some ob \<Rightarrow> restsOf ob)"

definition exchangeGood :: "Exchange \<Rightarrow> bool" where
  "exchangeGood x \<longleftrightarrow> 0 < next_order_id x \<and>
    (\<forall>symbol ob. fmlookup (symbol_map x) symbol = Some ob \<longrightarrow> bookGood (next_order_id x) ob)"

lemma exchangeGoodD: "exchangeGood x \<Longrightarrow> fmlookup (symbol_map x) symbol = Some ob \<Longrightarrow> bookGood (next_order_id x) ob"
  by (simp add: exchangeGood_def)

lemma emptyExchange_good: "exchangeGood emptyExchange" "exchangeBook emptyExchange symbol = fmempty"
  by (simp_all add: exchangeGood_def emptyExchange_def exchangeBook_def)

lemma exch_add_book_good:
  assumes "exchangeGood x"
  shows "exchangeGood (exch_add_book symbol x)" and "exchangeBook (exch_add_book symbol x) = exchangeBook x"
    and "next_order_id (exch_add_book symbol x) = next_order_id x"
  using assms by (auto simp: exch_add_book_def exchangeGood_def exchangeBook_def fun_eq_iff emptyBook_good)

lemma drawID_small:
  assumes "next_order_id x < 2 ^ 32"
  shows "drawID x = (next_order_id x, x\<lparr>next_order_id := next_order_id x + 1\<rparr>)"
  using assms by (simp add: drawID_def)

lemma exch_add_order_good:
  assumes "exchangeGood x" and "next_order_id x < 2 ^ 32" and "0 < quantity"
    and res: "exch_add_order symbol (newOrder price quantity side) x = ((i, ts), x')"
  shows "exchangeGood x'" and "next_order_id x' = next_order_id x + 1"
    and "fmlookup (symbol_map x) symbol \<noteq> None \<Longrightarrow> i = fst (drawID x) \<and>
      matchBook (exchangeBook x symbol) (sideText side) price quantity \<lparr>erOrderID = i, erTrades = ts\<rparr> = Some (exchangeBook x' symbol)"
    and "fmlookup (symbol_map x) symbol = None \<Longrightarrow> i = 0"
    and "other \<noteq> symbol \<Longrightarrow> exchangeBook x' other = exchangeBook x other"
    and "fmdom (symbol_map x') = fmdom (symbol_map x)"
proof -
  let ?n = "next_order_id x"
  have n: "0 < ?n" using assms(1) by (simp add: exchangeGood_def)
  have all: "exchangeGood x' \<and> next_order_id x' = ?n + 1 \<and>
      (fmlookup (symbol_map x) symbol \<noteq> None \<longrightarrow> i = fst (drawID x) \<and>
        matchBook (exchangeBook x symbol) (sideText side) price quantity \<lparr>erOrderID = i, erTrades = ts\<rparr> = Some (exchangeBook x' symbol)) \<and>
      (fmlookup (symbol_map x) symbol = None \<longrightarrow> i = 0) \<and>
      (other \<noteq> symbol \<longrightarrow> exchangeBook x' other = exchangeBook x other) \<and> fmdom (symbol_map x') = fmdom (symbol_map x)"
  proof (cases "fmlookup (symbol_map x) symbol")
    case None
    then have "i = 0" "x' = x\<lparr>next_order_id := ?n + 1\<rparr>"
      using res by (auto simp: exch_add_order_def drawID_small [OF assms(2)])
    then show ?thesis using None assms(1) bookGood_mono [of ?n _ "?n + 1"]
      by (simp add: exchangeGood_def exchangeBook_def)
  next
    case (Some ob)
    obtain od1 ob1 where ob1: "book_add_order ((newOrder price quantity side)\<lparr>bID := ?n\<rparr>) ob = ((od1, ts), ob1)"
        "i = bID od1" "x' = x\<lparr>next_order_id := ?n + 1, symbol_map := fmupd symbol ob1 (symbol_map x)\<rparr>"
      using res Some by (auto simp: exch_add_order_def drawID_small [OF assms(2)] Let_def split: prod.splits)
    have s: "bookGood (Suc ?n) ob1" "i = ?n"
        "matchBook (restsOf ob) (sideText side) price quantity \<lparr>erOrderID = ?n, erTrades = ts\<rparr> = Some (restsOf ob1)"
      using book_add_order_spec(1-3) [OF exchangeGoodD [OF assms(1) Some] _ _ _ _ ob1(1)] n assms(3) ob1(2)
      by (simp_all add: newOrder_def)
    have "exchangeGood x'" using ob1(3) s(1) assms(1) bookGood_mono [of ?n _ "Suc ?n"] by (auto simp: exchangeGood_def)
    moreover have "fmdom (symbol_map x') = fmdom (symbol_map x)" using ob1(3) fmdomI [OF Some] by auto
    ultimately show ?thesis using Some ob1(3) s(2,3) by (simp add: exchangeBook_def drawID_small [OF assms(2)])
  qed
  then show "exchangeGood x'" "next_order_id x' = next_order_id x + 1"
    "fmlookup (symbol_map x) symbol \<noteq> None \<Longrightarrow> i = fst (drawID x) \<and>
      matchBook (exchangeBook x symbol) (sideText side) price quantity \<lparr>erOrderID = i, erTrades = ts\<rparr> = Some (exchangeBook x' symbol)"
    "fmlookup (symbol_map x) symbol = None \<Longrightarrow> i = 0"
    "other \<noteq> symbol \<Longrightarrow> exchangeBook x' other = exchangeBook x other"
    "fmdom (symbol_map x') = fmdom (symbol_map x)" by blast+
qed

lemma exch_remove_order_good:
  assumes "exchangeGood x" and "exch_remove_order symbol i x = (removed, x')"
  shows "exchangeGood x'" and "next_order_id x' = next_order_id x"
    and "removed = (fmlookup (exchangeBook x symbol) i \<noteq> None)"
    and "exchangeBook x' = (exchangeBook x)(symbol := fmdrop i (exchangeBook x symbol))"
proof -
  have "exchangeGood x' \<and> next_order_id x' = next_order_id x \<and> removed = (fmlookup (exchangeBook x symbol) i \<noteq> None) \<and>
      exchangeBook x' = (exchangeBook x)(symbol := fmdrop i (exchangeBook x symbol))"
  proof (cases "fmlookup (symbol_map x) symbol")
    case None
    then show ?thesis using assms by (auto simp: exch_remove_order_def exchangeBook_def)
  next
    case (Some ob)
    note g = exchangeGoodD [OF assms(1) Some]
    have x': "removed = fst (book_remove_order i ob)"
        "x' = x\<lparr>symbol_map := fmupd symbol (snd (book_remove_order i ob)) (symbol_map x)\<rparr>"
      using assms(2) Some by (auto simp: exch_remove_order_def Let_def split: prod.splits)
    show ?thesis
      using x' Some assms(1) book_remove_order_spec(1,3) [OF bookGoodD(1) [OF g], of i] book_remove_order_good [OF g, of i]
      by (auto simp: exchangeGood_def exchangeBook_def fun_eq_iff)
  qed
  then show "exchangeGood x'" "next_order_id x' = next_order_id x"
    "removed = (fmlookup (exchangeBook x symbol) i \<noteq> None)"
    "exchangeBook x' = (exchangeBook x)(symbol := fmdrop i (exchangeBook x symbol))" by blast+
qed

definition subOrder :: "Submission \<Rightarrow> EngineOrder" where
  "subOrder s = \<lparr>eoSymbol = subSymbol s, eoPrice = subPrice s, eoQuantity = subQuantity s, eoSide = sideText (subSide s)\<rparr>"

lemma checkSubmissions_None:
  "checkSubmissions ss x = None \<longleftrightarrow> (\<forall>s\<in>set ss. fmlookup (symbol_map x) (subSymbol s) \<noteq> None \<and>
     0 < subQuantity s \<and> 0 < subPrice s \<and> subPrice s < 100)"
  by (induction ss) auto

lemma runSubmissions_good:
  assumes "exchangeGood x" and "next_order_id x + length ss \<le> 2 ^ 32"
    and "\<forall>s\<in>set ss. subSymbol s |\<in>| fmdom (symbol_map x) \<and> 0 < subQuantity s"
    and "runSubmissions ss seen x = ((rs, seen'), x')"
  shows "exchangeGood x' \<and> next_order_id x' = next_order_id x + length ss \<and> length rs = length ss \<and>
    (\<forall>symbol. matchAll symbol (exchangeBook x symbol) (zip (map subOrder ss) rs) = Some (exchangeBook x' symbol))"
  using assms
proof (induction ss arbitrary: x seen rs)
  case (Cons s ss)
  let ?seen = "if subSymbol s \<in> set seen then seen else seen @ [subSymbol s]"
  obtain i ts x1 where r1: "exch_add_order (subSymbol s) (newOrder (subPrice s) (subQuantity s) (subSide s)) x = ((i, ts), x1)"
    by (metis prod.exhaust)
  obtain rs1 where rs: "runSubmissions ss ?seen x1 = ((rs1, seen'), x')" "rs = \<lparr>erOrderID = fst (drawID x), erTrades = ts\<rparr> # rs1"
    using Cons.prems(4) r1 by (auto simp: Let_def split: prod.splits)
  have n: "next_order_id x < 2 ^ 32" "0 < subQuantity s" "fmlookup (symbol_map x) (subSymbol s) \<noteq> None"
    using Cons.prems(2,3) by (auto simp: fmlookup_dom_iff)
  note g = exch_add_order_good [OF Cons.prems(1) n(1,2) r1]
  have IH: "exchangeGood x' \<and> next_order_id x' = next_order_id x1 + length ss \<and> length rs1 = length ss \<and>
      (\<forall>symbol. matchAll symbol (exchangeBook x1 symbol) (zip (map subOrder ss) rs1) = Some (exchangeBook x' symbol))"
    using Cons.IH [OF g(1) _ _ rs(1)] Cons.prems(2,3) g(2) g(6) by auto
  have "matchAll symbol (exchangeBook x symbol) (zip (map subOrder (s # ss)) rs) = Some (exchangeBook x' symbol)" for symbol
  proof (cases "symbol = subSymbol s")
    case True
    then show ?thesis using g(3) [OF n(3)] rs(2) IH by (auto simp: subOrder_def)
  next
    case False
    have "matchAll symbol (exchangeBook x1 symbol) (zip (map subOrder ss) rs1) = Some (exchangeBook x' symbol)"
      using IH by blast
    then show ?thesis using g(5) [OF False] rs(2) False by (simp add: subOrder_def)
  qed
  then show ?case using IH g(2) rs(2) by simp
qed simp

lemma exch_add_orders_good:
  assumes "exchangeGood x" and "next_order_id x + length ss \<le> 2 ^ 32" and "exch_add_orders ss x = (r, x')"
  shows "exchangeGood x'" and "next_order_id x' \<le> next_order_id x + length ss" and "next_order_id x \<le> next_order_id x'"
    and "r = Inr batch \<Longrightarrow> matchAll symbol (exchangeBook x symbol) (zip (map subOrder ss) (ebResults batch)) = Some (exchangeBook x' symbol)"
    and "r = Inr batch \<Longrightarrow> length (ebResults batch) = length ss"
    and "r = Inl err \<Longrightarrow> x' = x"
proof -
  have "exchangeGood x' \<and> next_order_id x' \<le> next_order_id x + length ss \<and> next_order_id x \<le> next_order_id x' \<and>
      (r = Inr batch \<longrightarrow> matchAll symbol (exchangeBook x symbol) (zip (map subOrder ss) (ebResults batch)) = Some (exchangeBook x' symbol) \<and>
        length (ebResults batch) = length ss) \<and> (r = Inl err \<longrightarrow> x' = x)"
  proof (cases "ss = [] \<or> length ss > 32 \<or> checkSubmissions ss x \<noteq> None")
    case True
    then show ?thesis using assms(1,3) by (auto simp: exch_add_orders_def split: if_splits option.splits)
  next
    case False
    obtain rs seen x1 where run: "runSubmissions ss [] x = ((rs, seen), x1)" by (metis prod.exhaust)
    have r: "x' = x1" "r = Inl err \<Longrightarrow> False" "r = Inr batch \<Longrightarrow> ebResults batch = rs"
      using assms(3) run False by (auto simp: exch_add_orders_def Let_def)
    have "\<forall>s\<in>set ss. subSymbol s |\<in>| fmdom (symbol_map x) \<and> 0 < subQuantity s"
      using False by (auto simp: checkSubmissions_None fmlookup_dom_iff)
    then show ?thesis using runSubmissions_good [OF assms(1,2) _ run] r by auto
  qed
  then show "exchangeGood x'" "next_order_id x' \<le> next_order_id x + length ss" "next_order_id x \<le> next_order_id x'"
    "r = Inr batch \<Longrightarrow> matchAll symbol (exchangeBook x symbol) (zip (map subOrder ss) (ebResults batch)) = Some (exchangeBook x' symbol)"
    "r = Inr batch \<Longrightarrow> length (ebResults batch) = length ss" "r = Inl err \<Longrightarrow> x' = x" by blast+
qed

section \<open>The IDs of a history\<close>

text \<open>
  A history of an engine, with the IDs it draws: single orders, batches, cancellations and changes of the
  set of books, in any order. A single order draws an ID even when its book does not exist.
\<close>

inductive engine_history :: "Exchange \<Rightarrow> nat list \<Rightarrow> Exchange \<Rightarrow> bool" where
  start: "engine_history x [] x"
| order: "engine_history x ids y \<Longrightarrow> exch_add_order symbol od y = (r, z) \<Longrightarrow> engine_history x (ids @ [fst (drawID y)]) z"
| batch: "engine_history x ids y \<Longrightarrow> exch_add_orders ss y = (Inr b, z) \<Longrightarrow> engine_history x (ids @ map erOrderID (ebResults b)) z"
| refused: "engine_history x ids y \<Longrightarrow> exch_add_orders ss y = (Inl e, z) \<Longrightarrow> engine_history x ids z"
| remove: "engine_history x ids y \<Longrightarrow> exch_remove_order symbol i y = (removed, z) \<Longrightarrow> engine_history x ids z"
| open_book: "engine_history x ids y \<Longrightarrow> engine_history x ids (exch_add_book symbol y)"
| close_book: "engine_history x ids y \<Longrightarrow> engine_history x ids (exch_remove_book symbol y)"

abbreviation idsFrom :: "nat \<Rightarrow> nat \<Rightarrow> nat list" where
  "idsFrom n k \<equiv> map (\<lambda>i. (n + i) mod 2 ^ 32) [0..<k]"

lemma idsFrom_append: "idsFrom n (j + k) = idsFrom n j @ idsFrom (n + j) k"
  by (induction k) (simp_all add: add.assoc)

lemma narrow: "(n::nat) mod 2 ^ 64 mod 2 ^ 32 = n mod 2 ^ 32"
  by (rule mod_mod_cancel) (simp add: le_imp_power_dvd)

lemma idsFrom_mod: "idsFrom (n mod 2 ^ 64) k = idsFrom n k"
proof (rule map_cong [OF refl])
  fix i
  show "(n mod 2 ^ 64 + i) mod 2 ^ 32 = (n + i) mod 2 ^ 32" using mod_add_left_eq [of n "2 ^ 64" i] narrow [of n] narrow [of "n + i"]
    by (metis mod_add_left_eq)
qed

lemma add_order_draws: "exch_add_order symbol od x = (r, x') \<Longrightarrow> next_order_id x' = (next_order_id x + 1) mod 2 ^ 64"
  by (auto simp: exch_add_order_def drawID_def Let_def split: option.splits prod.splits)

lemma submissions_draw:
  assumes "runSubmissions ss seen x = ((rs, seen'), x')" and "next_order_id x < 2 ^ 64"
  shows "map erOrderID rs = idsFrom (next_order_id x) (length ss) \<and> next_order_id x' = (next_order_id x + length ss) mod 2 ^ 64"
  using assms
proof (induction ss arbitrary: seen x rs)
  case (Cons s ss)
  obtain r x1 where r1: "exch_add_order (subSymbol s) (newOrder (subPrice s) (subQuantity s) (subSide s)) x = (r, x1)" by (rule prod.exhaust)
  obtain rs1 seen1 ts where rs: "runSubmissions ss seen1 x1 = ((rs1, seen'), x')" "rs = \<lparr>erOrderID = fst (drawID x), erTrades = ts\<rparr> # rs1"
    using Cons.prems(1) r1 by (auto simp: Let_def split: prod.splits)
  have n1: "next_order_id x1 = (next_order_id x + 1) mod 2 ^ 64" by (rule add_order_draws [OF r1])
  then have "map erOrderID rs1 = idsFrom (next_order_id x + 1) (length ss)" "next_order_id x' = (next_order_id x + Suc (length ss)) mod 2 ^ 64"
    using Cons.IH [OF rs(1)] idsFrom_mod [of "next_order_id x + 1"] by (simp_all add: mod_simps)
  then show ?case using rs(2) idsFrom_append [of "next_order_id x" 1 "length ss"] by (simp add: drawID_def)
qed simp

lemma history_draws:
  assumes "engine_history x ids x'" and "next_order_id x < 2 ^ 64"
  shows "ids = idsFrom (next_order_id x) (length ids) \<and> next_order_id x' = (next_order_id x + length ids) mod 2 ^ 64"
  using assms
proof (induction rule: engine_history.induct)
  case (order x ids y symbol od r z)
  then have "fst (drawID y) = (next_order_id x + length ids) mod 2 ^ 32" using narrow by (simp add: drawID_def)
  then show ?case using order add_order_draws [OF order.hyps(2)] by (simp add: mod_simps)
next
  case (batch x ids y ss b z)
  obtain rs seen x1 where run: "runSubmissions ss [] y = ((rs, seen), x1)" by (metis prod.exhaust)
  have b: "ebResults b = rs" "z = x1" using batch.hyps(2) run by (auto simp: exch_add_orders_def Let_def split: if_splits option.splits)
  have y: "next_order_id y = (next_order_id x + length ids) mod 2 ^ 64" using batch.IH batch.prems by simp
  note d = submissions_draw [OF run]
  have m: "map erOrderID rs = idsFrom (next_order_id x + length ids) (length ss)"
    using d y idsFrom_mod [of "next_order_id x + length ids"] by simp
  then have len: "length rs = length ss" by (metis length_map length_upt diff_zero)
  show ?case
    using batch.IH batch.prems b m len d y idsFrom_append [of "next_order_id x" "length ids" "length ss"] by (simp add: mod_simps add.assoc)
qed (auto simp: exch_add_orders_def exch_remove_order_def exch_add_book_def exch_remove_book_def Let_def
    split: if_splits option.splits prod.splits)

lemma idsFrom_nth: "ids = idsFrom n (length ids) \<Longrightarrow> \<forall>k<length ids. ids ! k = (n + k) mod 2 ^ 32"
  by (metis (no_types, lifting) add_0 length_map length_upt diff_zero nth_map nth_upt)

lemma mod_shift: "(n + j) mod m = (n + k) mod m \<longleftrightarrow> j mod m = k mod m" for m n :: nat
proof -
  have "(n + a) mod m = (n + b) mod m \<longleftrightarrow> a mod m = b mod m" if "b \<le> a" for a b
    using that mod_eq_dvd_iff_nat [of b a m] mod_eq_dvd_iff_nat [of "n + b" "n + a" m] by simp
  then show ?thesis using le_cases [of j k] by metis
qed

end
