(* ===== verification/Engine_Client.thy ===== *)
theory Engine_Client
  imports Matching_Server Engine_Recovery "HOL-Library.Word"
begin

text \<open>
  The Go side of the matching engine (package \<^verbatim>\<open>engine\<close>: client.go, adapter.go, batch.go,
  trading_adapter.go, router.go): the client of one engine, the adapter to the interfaces of the
  trading service, and the router that assigns every symbol to one of the engines. The theory
  proves that the routed engines satisfy the contract of a matching engine, so everything the
  trading service proves from the contract holds of this system.
\<close>

unbundle bit_operations_syntax

section \<open>Remote calls\<close>

text \<open>
  A call over the network (the gRPC library is not part of the program) either completes, is
  lost before the engine sees it, or is executed while its answer is lost; in the last two cases
  the client gets an error. Which of these happens to the \<open>n\<close>-th call of a client is the
  parameter \<open>net\<close> of the model, by client and number of the call.
\<close>

datatype Delivery = Delivered | RequestLost | ReplyLost

type_synonym network = "nat \<Rightarrow> nat \<Rightarrow> Delivery"

record Client =
  peer :: Exchange
  calls :: nat

definition rpc :: "Delivery \<Rightarrow> (Exchange \<Rightarrow> (rpcStatus + 'a) \<times> Exchange) \<Rightarrow> Client \<Rightarrow> (rpcStatus + 'a) \<times> Client" where
  "rpc d handler c =
    (let (r, x) = handler (peer c)
     in case d of
          Delivered \<Rightarrow> (r, c\<lparr>peer := x, calls := calls c + 1\<rparr>)
        | RequestLost \<Rightarrow> (Inl (UNAVAILABLE, ''request lost''), c\<lparr>calls := calls c + 1\<rparr>)
        | ReplyLost \<Rightarrow> (Inl (UNAVAILABLE, ''reply lost''), c\<lparr>peer := x, calls := calls c + 1\<rparr>))"

definition rpcError :: "rpcStatus \<Rightarrow> goerror" where
  "rpcError st = External (snd st)"

text \<open>\<^verbatim>\<open>fmt.Errorf("text: %w", err)\<close> around the error of a call, and its value otherwise.\<close>

definition wrapRpc :: "string \<Rightarrow> rpcStatus + 'a \<Rightarrow> goerror + 'a" where
  "wrapRpc text r = (case r of Inl st \<Rightarrow> Inl (Wrap text (rpcError st)) | Inr v \<Rightarrow> Inr v)"

definition plainRpc :: "rpcStatus + 'a \<Rightarrow> goerror + 'a" where
  "plainRpc r = (case r of Inl st \<Rightarrow> Inl (rpcError st) | Inr v \<Rightarrow> Inr v)"

section \<open>The client\<close>

definition clientAddOrder :: "Delivery \<Rightarrow> Client \<Rightarrow> string \<Rightarrow> int \<Rightarrow> nat \<Rightarrow> pbSide \<Rightarrow> (goerror + nat) \<times> Client" where
  "clientAddOrder d c symbol price quantity side =
    (let (r, c') = rpc d (srvAddOrder \<lparr>osSymbol = symbol, osPrice = price, osQuantity = quantity, osSide = side\<rparr>) c
     in (map_sum id erOrderID (wrapRpc ''submit order'' r), c'))"

definition clientAddBook :: "Delivery \<Rightarrow> Client \<Rightarrow> string \<Rightarrow> goerror option \<times> Client" where
  "clientAddBook d c symbol =
    (let (r, c') = rpc d (srvAddBook symbol) c
     in (case wrapRpc ''add book'' r of Inl err \<Rightarrow> Some err | Inr _ \<Rightarrow> None, c'))"

definition BestBid :: "Delivery \<Rightarrow> Client \<Rightarrow> string \<Rightarrow> (goerror + int) \<times> Client" where
  "BestBid d c symbol = (let (r, c') = rpc d (srvPrice get_best_bid symbol) c in (wrapRpc ''get best bid'' r, c'))"

definition BestAsk :: "Delivery \<Rightarrow> Client \<Rightarrow> string \<Rightarrow> (goerror + int) \<times> Client" where
  "BestAsk d c symbol = (let (r, c') = rpc d (srvPrice get_best_ask symbol) c in (wrapRpc ''get best ask'' r, c'))"

definition RemoveOrderText :: "Delivery \<Rightarrow> Client \<Rightarrow> string \<Rightarrow> nat \<Rightarrow> (goerror + bool) \<times> Client" where
  "RemoveOrderText d c symbol i =
    (let (r, c') = rpc d (srvRemoveOrder symbol i) c in (wrapRpc ''cancel order'' r, c'))"

definition Ready :: "Delivery \<Rightarrow> Client \<Rightarrow> goerror option \<times> Client" where
  "Ready d c =
    (let (r, c') = rpc d (srvPrice get_best_bid ''__health_probe__'') c
     in case r of
          Inl st \<Rightarrow> (if fst st = NOT_FOUND then None else Some (rpcError st), c')
        | Inr _ \<Rightarrow> (None, c'))"

definition sideOf :: "string \<Rightarrow> pbSide" where
  "sideOf side = (if side = ''sell'' then SIDE_SELL else SIDE_BUY)"

definition AddOrderText :: "Delivery \<Rightarrow> Client \<Rightarrow> string \<Rightarrow> int \<Rightarrow> nat \<Rightarrow> string \<Rightarrow> (goerror + nat) \<times> Client" where
  "AddOrderText d c symbol price quantity side = clientAddOrder d c symbol price quantity (sideOf side)"

section \<open>The adapter\<close>

definition adapterAddOrder :: "Delivery \<Rightarrow> Client \<Rightarrow> string \<Rightarrow> int \<Rightarrow> nat \<Rightarrow> string \<Rightarrow> (goerror + EngineResult) \<times> Client" where
  "adapterAddOrder d c symbol price quantity side =
    (let (r, c') = rpc d (srvAddOrder \<lparr>osSymbol = symbol, osPrice = price, osQuantity = quantity, osSide = sideOf side\<rparr>) c
     in (plainRpc r, c'))"

definition submissionOf :: "EngineOrder \<Rightarrow> OrderSubmission" where
  "submissionOf od = \<lparr>osSymbol = eoSymbol od, osPrice = eoPrice od, osQuantity = eoQuantity od, osSide = sideOf (eoSide od)\<rparr>"

definition adapterAddOrders :: "Delivery \<Rightarrow> Client \<Rightarrow> EngineOrder list \<Rightarrow> (goerror + EngineBatch) \<times> Client" where
  "adapterAddOrders d c ods =
    (if ods = [] \<or> length ods > 32 then (Inl (New ''batch size must be 1-32''), c)
     else if \<exists>od\<in>set ods. eoSide od \<noteq> ''sell'' \<and> eoSide od \<noteq> ''buy'' then (Inl (New ''invalid engine side''), c)
     else
       let (r, c') = rpc d (srvAddOrders (map submissionOf ods)) c
       in case plainRpc r of
            Inl err \<Rightarrow> (Inl err, c')
          | Inr batch \<Rightarrow>
             (if length (ebResults batch) \<noteq> length ods then (Inl (New ''invalid engine batch result count''), c')
              else if \<exists>res\<in>set (ebResults batch). erOrderID res = 0 then (Inl (New ''invalid engine order ID''), c')
              else (Inr batch, c')))"

definition adapterQuote :: "Delivery \<Rightarrow> Client \<Rightarrow> string \<Rightarrow> (goerror + EngineQuote) \<times> Client" where
  "adapterQuote d c symbol = (let (r, c') = rpc d (srvGetQuote symbol) c in (plainRpc r, c'))"

section \<open>The router\<close>

type_synonym router = "Client list"

text \<open>\<^verbatim>\<open>strings.Split(addresses, ",")\<close> and \<^verbatim>\<open>strings.TrimSpace\<close> on ASCII text.\<close>

fun splitComma :: "string \<Rightarrow> string list" where
  "splitComma [] = [[]]"
| "splitComma (ch # cs) =
    (if ch = CHR '','' then [] # splitComma cs
     else case splitComma cs of [] \<Rightarrow> [[ch]] | p # ps \<Rightarrow> (ch # p) # ps)"

definition isSpace :: "char \<Rightarrow> bool" where
  "isSpace ch \<longleftrightarrow> ch \<in> {CHR '' '', CHR 0x09, CHR 0x0A, CHR 0x0B, CHR 0x0C, CHR 0x0D}"

definition TrimSpace :: "string \<Rightarrow> string" where
  "TrimSpace s = rev (dropWhile isSpace (rev (dropWhile isSpace s)))"

text \<open>
  \<open>connect\<close> stands for \<^verbatim>\<open>grpc.NewClient\<close>: the engine behind an address, or an error.
\<close>

definition NewClient :: "(string \<Rightarrow> goerror + Exchange) \<Rightarrow> string \<Rightarrow> goerror + Client" where
  "NewClient connect address =
    (if address = [] then Inl (New ''matching engine address is required'')
     else case connect address of
            Inl err \<Rightarrow> Inl (Wrap ''connect to matching engine'' err)
          | Inr x \<Rightarrow> Inr \<lparr>peer = x, calls = 0\<rparr>)"

fun connectAll :: "(string \<Rightarrow> goerror + Exchange) \<Rightarrow> string list \<Rightarrow> string list \<Rightarrow> goerror + router" where
  "connectAll connect seen [] = Inr []"
| "connectAll connect seen (a # as) =
    (let address = TrimSpace a
     in if address = [] \<or> address \<in> set seen then Inl (New ''engine addresses must be nonempty and distinct'')
        else case NewClient connect address of
               Inl err \<Rightarrow> Inl err
             | Inr c \<Rightarrow> map_sum id (Cons c) (connectAll connect (address # seen) as))"

definition NewRouter :: "(string \<Rightarrow> goerror + Exchange) \<Rightarrow> string \<Rightarrow> goerror + router" where
  "NewRouter connect addresses =
    (let parts = splitComma addresses
     in if length parts > 2 then Inl (New ''support one or two engine addresses'')
        else connectAll connect [] parts)"

text \<open>The hash FNV-1a of 32 bits from \<^verbatim>\<open>hash/fnv\<close>.\<close>

definition fnv32a :: "string \<Rightarrow> 32 word" where
  "fnv32a s = fold (\<lambda>ch h. (h XOR of_nat (of_char ch)) * 16777619) s 2166136261"

definition partitionOf :: "string \<Rightarrow> nat \<Rightarrow> nat" where
  "partitionOf symbol count = unat (fnv32a symbol) mod count"

text \<open>A call on the owner of a symbol.\<close>

definition atClient :: "network \<Rightarrow> nat \<Rightarrow> (Delivery \<Rightarrow> Client \<Rightarrow> 'a \<times> Client) \<Rightarrow> router \<Rightarrow> 'a \<times> router" where
  "atClient net p call cs =
    (let (r, c') = call (net p (calls (cs ! p))) (cs ! p) in (r, cs[p := c']))"

definition pick :: "network \<Rightarrow> string \<Rightarrow> (Delivery \<Rightarrow> Client \<Rightarrow> 'a \<times> Client) \<Rightarrow> router \<Rightarrow> 'a \<times> router" where
  "pick net symbol call cs = atClient net (partitionOf symbol (length cs)) call cs"

definition routerAddOrder :: "network \<Rightarrow> router \<Rightarrow> string \<Rightarrow> int \<Rightarrow> nat \<Rightarrow> pbSide \<Rightarrow> (goerror + nat) \<times> router" where
  "routerAddOrder net cs s p q side = pick net s (\<lambda>d c. clientAddOrder d c s p q side) cs"

definition routerBestBid :: "network \<Rightarrow> router \<Rightarrow> string \<Rightarrow> (goerror + int) \<times> router" where
  "routerBestBid net cs s = pick net s (\<lambda>d c. BestBid d c s) cs"

definition routerBestAsk :: "network \<Rightarrow> router \<Rightarrow> string \<Rightarrow> (goerror + int) \<times> router" where
  "routerBestAsk net cs s = pick net s (\<lambda>d c. BestAsk d c s) cs"

fun readyFrom :: "network \<Rightarrow> nat list \<Rightarrow> router \<Rightarrow> goerror option \<times> router" where
  "readyFrom net [] cs = (None, cs)"
| "readyFrom net (p # ps) cs =
    (case atClient net p Ready cs of
       (Some err, cs') \<Rightarrow> (Some err, cs')
     | (None, cs') \<Rightarrow> readyFrom net ps cs')"

definition routerReady :: "network \<Rightarrow> router \<Rightarrow> goerror option \<times> router" where
  "routerReady net cs = readyFrom net [0..<length cs] cs"

text \<open>
  A batch over two engines: the orders of each owner in the order of the batch, with their
  places, one call per owner that has any, and the answers put back in their places. The calls
  run concurrently in Go; they touch different clients, so their order does not show.
\<close>

definition indicesOf :: "nat \<Rightarrow> nat \<Rightarrow> EngineOrder list \<Rightarrow> nat list" where
  "indicesOf count p ods = filter (\<lambda>i. partitionOf (eoSymbol (ods ! i)) count = p) [0..<length ods]"

definition groupOf :: "nat \<Rightarrow> nat \<Rightarrow> EngineOrder list \<Rightarrow> EngineOrder list" where
  "groupOf count p ods = filter (\<lambda>od. partitionOf (eoSymbol od) count = p) ods"

fun scatter :: "network \<Rightarrow> nat \<Rightarrow> EngineOrder list \<Rightarrow> nat list \<Rightarrow> router \<Rightarrow> (goerror + EngineBatch) list \<times> router" where
  "scatter net count ods [] cs = ([], cs)"
| "scatter net count ods (p # ps) cs =
    (let group = groupOf count p ods;
         (b, cs1) = (if group = [] then (Inr \<lparr>ebResults = [], ebQuotes = []\<rparr>, cs)
                     else atClient net p (\<lambda>d c. adapterAddOrders d c group) cs);
         (bs, cs2) = scatter net count ods ps cs1
     in (b # bs, cs2))"

definition placeResults :: "nat list \<Rightarrow> EngineResult list \<Rightarrow> EngineResult list \<Rightarrow> EngineResult list" where
  "placeResults is rs acc = fold (\<lambda>(i, r) acc. acc[i := r]) (zip is rs) acc"

fun gather :: "nat \<Rightarrow> EngineOrder list \<Rightarrow> (nat \<times> (goerror + EngineBatch)) list \<Rightarrow> EngineBatch \<Rightarrow> goerror + EngineBatch" where
  "gather count ods [] result = Inr result"
| "gather count ods ((p, b) # bs) result =
    (case b of
       Inl err \<Rightarrow> Inl (Wrap ''engine partition'' err)
     | Inr batch \<Rightarrow>
        gather count ods bs
          (result\<lparr>ebResults := placeResults (indicesOf count p ods) (ebResults batch) (ebResults result),
                  ebQuotes := ebQuotes result @ ebQuotes batch\<rparr>))"

definition EngineResult0 :: EngineResult where [zero_defs]:
  "EngineResult0 = \<lparr>erOrderID = 0, erTrades = []\<rparr>"

definition routedAddOrders :: "network \<Rightarrow> router \<Rightarrow> EngineOrder list \<Rightarrow> (goerror + EngineBatch) \<times> router" where
  "routedAddOrders net cs ods =
    (if ods = [] \<or> length ods > 32 then (Inl (New ''batch size must be 1-32''), cs)
     else if length cs = 1 then atClient net 0 (\<lambda>d c. adapterAddOrders d c ods) cs
     else
       let count = length cs;
           (batches, cs') = scatter net count ods [0..<count] cs
       in (gather count ods (zip [0..<count] batches)
             \<lparr>ebResults = replicate (length ods) EngineResult0, ebQuotes = []\<rparr>, cs'))"

definition routedTrading :: "network \<Rightarrow> router Engine" where
  "routedTrading net =
    \<lparr>AddBook = (\<lambda>cs s. pick net s (\<lambda>d c. clientAddBook d c s) cs),
     AddOrder = (\<lambda>cs s p q side. pick net s (\<lambda>d c. adapterAddOrder d c s p q side) cs),
     RemoveOrder = (\<lambda>cs s i. pick net s (\<lambda>d c. RemoveOrderText d c s i) cs),
     AddOrders = Some (routedAddOrders net),
     EngineQuoteOf = Some (\<lambda>cs s. pick net s (\<lambda>d c. adapterQuote d c s) cs)\<rparr>"

section \<open>Healthy routers\<close>

text \<open>
  An order ID has 32 bits, so an engine that is never restarted runs out of them. A batch draws
  at most 32 IDs; the bound on the calls an engine executes keeps the counter below \<open>2 ^ 32\<close>.
\<close>

abbreviation maxCalls :: nat where
  "maxCalls \<equiv> 134217727"

definition budget :: "network \<Rightarrow> bool" where
  "budget net \<longleftrightarrow> (\<forall>p n. maxCalls \<le> n \<longrightarrow> net p n = RequestLost)"

definition clientGood :: "Client \<Rightarrow> bool" where
  "clientGood c \<longleftrightarrow> exchangeGood (peer c) \<and> next_order_id (peer c) \<le> 1 + 32 * min (calls c) maxCalls"

definition healthyRouter :: "network \<Rightarrow> router \<Rightarrow> bool" where
  "healthyRouter net cs \<longleftrightarrow> budget net \<and> cs \<noteq> [] \<and> (\<forall>c\<in>set cs. clientGood c)"

definition routerBook :: "router \<Rightarrow> string \<Rightarrow> restBook" where
  "routerBook cs symbol = exchangeBook (peer (cs ! partitionOf symbol (length cs))) symbol"

text \<open>What a handler of the service may do to its exchange.\<close>

definition handlerOk :: "(Exchange \<Rightarrow> (rpcStatus + 'a) \<times> Exchange) \<Rightarrow> bool" where
  "handlerOk h \<longleftrightarrow> (\<forall>x. exchangeGood x \<longrightarrow> next_order_id x + 32 \<le> 2 ^ 32 \<longrightarrow>
     exchangeGood (snd (h x)) \<and> next_order_id (snd (h x)) \<le> next_order_id x + 32)"

lemma handlerOkI:
  assumes "\<And>x r x'. exchangeGood x \<Longrightarrow> next_order_id x + 32 \<le> 2 ^ 32 \<Longrightarrow> h x = (r, x') \<Longrightarrow>
    exchangeGood x' \<and> next_order_id x' \<le> next_order_id x + 32"
  shows "handlerOk h"
  using assms unfolding handlerOk_def by (metis prod.collapse)

lemma rpc_good:
  assumes "clientGood c" and "maxCalls \<le> calls c \<longrightarrow> d = RequestLost" and "handlerOk h" and "rpc d h c = (r, c')"
  shows "clientGood c'" and "calls c' = calls c + 1"
    and "r = Inr v \<Longrightarrow> h (peer c) = (Inr v, peer c') \<and> exchangeGood (peer c) \<and> next_order_id (peer c) + 32 \<le> 2 ^ 32"
    and "peer c' = peer c \<or> peer c' = snd (h (peer c)) \<and> exchangeGood (peer c) \<and> next_order_id (peer c) + 32 \<le> 2 ^ 32"
proof -
  let ?x = "peer c"
  obtain r1 x1 where h: "h ?x = (r1, x1)" by (metis prod.exhaust)
  have g: "exchangeGood ?x" "next_order_id ?x \<le> 1 + 32 * min (calls c) maxCalls" using assms(1) by (simp_all add: clientGood_def)
  have room: "next_order_id ?x + 32 \<le> 2 ^ 32 \<and> calls c < maxCalls" if "d \<noteq> RequestLost"
    using that assms(2) g(2) by (auto simp: min_def split: if_splits)
  then have run: "exchangeGood x1 \<and> next_order_id x1 \<le> next_order_id ?x + 32" if "d \<noteq> RequestLost"
    using assms(3) g(1) h that by (metis handlerOk_def snd_conv)
  show "calls c' = calls c + 1" using assms(4) h by (cases d) (auto simp: rpc_def)
  have split: "peer c' = ?x \<and> d = RequestLost \<or> peer c' = x1 \<and> d \<noteq> RequestLost"
    using assms(4) h by (cases d) (auto simp: rpc_def)
  show "clientGood c'"
  proof (cases "d = RequestLost")
    case True
    then show ?thesis using split g \<open>calls c' = calls c + 1\<close> by (auto simp: clientGood_def min_def split: if_splits)
  next
    case False
    then show ?thesis using split run room g(2) \<open>calls c' = calls c + 1\<close> by (auto simp: clientGood_def)
  qed
  show "r = Inr v \<Longrightarrow> h ?x = (Inr v, peer c') \<and> exchangeGood (peer c) \<and> next_order_id (peer c) + 32 \<le> 2 ^ 32"
    using assms(4) h room g(1) by (cases d) (auto simp: rpc_def)
  show "peer c' = ?x \<or> peer c' = snd (h ?x) \<and> exchangeGood (peer c) \<and> next_order_id (peer c) + 32 \<le> 2 ^ 32"
    using split h room g(1) by auto
qed

section \<open>Handlers\<close>

lemma handler_AddBook: "handlerOk (srvAddBook symbol)"
  by (rule handlerOkI) (auto simp: srvAddBook_def exch_add_book_good)

lemma handler_read: "(\<And>x. snd (h x) = x) \<Longrightarrow> handlerOk h"
  by (simp add: handlerOk_def)

lemma srv_reads: "snd (srvGetQuote symbol x) = x" "snd (srvPrice q symbol x) = x"
  by (simp_all add: srvGetQuote_def srvPrice_def)

lemma handler_RemoveOrder: "handlerOk (srvRemoveOrder symbol i)"
proof (rule handlerOkI)
  fix x r x' assume "exchangeGood x" "srvRemoveOrder symbol i x = (r, x')"
  then show "exchangeGood x' \<and> next_order_id x' \<le> next_order_id x + 32"
    using exch_remove_order_good(1,2) [of x symbol i] by (auto simp: srvRemoveOrder_def split: prod.splits)
qed

lemma srvAddOrder_result:
  assumes "exchangeGood x" and "next_order_id x < 2 ^ 32" and "0 < osQuantity sub" and "srvAddOrder sub x = (r, x')"
  shows "exchangeGood x'" and "next_order_id x' = next_order_id x + 1"
    and "r = Inr res \<Longrightarrow> matchBook (exchangeBook x (osSymbol sub)) (sideText (toSide (osSide sub))) (osPrice sub) (osQuantity sub) res
      = Some (exchangeBook x' (osSymbol sub))"
    and "other \<noteq> osSymbol sub \<Longrightarrow> exchangeBook x' other = exchangeBook x other"
proof -
  obtain i ts where e: "exch_add_order (osSymbol sub) (newOrder (osPrice sub) (osQuantity sub) (toSide (osSide sub))) x = ((i, ts), x')"
      "r = (if i = 0 then Inl (NOT_FOUND, ''symbol not found'') else Inr \<lparr>erOrderID = i, erTrades = ts\<rparr>)"
    using assms(4) by (auto simp: srvAddOrder_def split: prod.splits if_splits)
  note g = exch_add_order_good [OF assms(1-3) e(1)]
  show "exchangeGood x'" "next_order_id x' = next_order_id x + 1" by (fact g(1), fact g(2))
  show "other \<noteq> osSymbol sub \<Longrightarrow> exchangeBook x' other = exchangeBook x other" by (rule g(5))
  show "matchBook (exchangeBook x (osSymbol sub)) (sideText (toSide (osSide sub))) (osPrice sub) (osQuantity sub) res
      = Some (exchangeBook x' (osSymbol sub))" if "r = Inr res"
    using that e(2) g(3,4) by (auto split: if_splits)
qed

lemma handler_AddOrder: "0 < osQuantity sub \<Longrightarrow> handlerOk (srvAddOrder sub)"
proof (rule handlerOkI)
  fix x r x' assume "0 < osQuantity sub" "exchangeGood x" "next_order_id x + 32 \<le> 2 ^ 32" "srvAddOrder sub x = (r, x')"
  then show "exchangeGood x' \<and> next_order_id x' \<le> next_order_id x + 32"
    using srvAddOrder_result(1,2) [of x sub r x'] by simp
qed

definition submissionIn :: "OrderSubmission \<Rightarrow> Submission" where
  "submissionIn s = \<lparr>subSymbol = osSymbol s, subPrice = osPrice s, subQuantity = osQuantity s, subSide = toSide (osSide s)\<rparr>"

lemma submission_roundtrip: "sideOk (eoSide od) \<Longrightarrow> subOrder (submissionIn (submissionOf od)) = od"
  by (cases od) (auto simp: sideOk_def subOrder_def submissionIn_def submissionOf_def sideOf_def toSide_def)

lemma srvAddOrders_result:
  assumes "exchangeGood x" and "next_order_id x + 32 \<le> 2 ^ 32" and "srvAddOrders subs x = (r, x')"
  shows "exchangeGood x'" and "next_order_id x' \<le> next_order_id x + 32"
    and "r = Inr batch \<Longrightarrow> matchAll symbol (exchangeBook x symbol) (zip (map (subOrder \<circ> submissionIn) subs) (ebResults batch))
      = Some (exchangeBook x' symbol)"
    and "r = Inr batch \<Longrightarrow> length (ebResults batch) = length subs"
proof -
  let ?ss = "map submissionIn subs"
  have all: "exchangeGood x' \<and> next_order_id x' \<le> next_order_id x + 32 \<and>
      (r = Inr batch \<longrightarrow> matchAll symbol (exchangeBook x symbol) (zip (map (subOrder \<circ> submissionIn) subs) (ebResults batch))
        = Some (exchangeBook x' symbol) \<and> length (ebResults batch) = length subs)"
  proof (cases "length subs < 1 \<or> length subs > 32")
    case True
    then show ?thesis using assms(1,3) by (auto simp: srvAddOrders_def)
  next
    case False
    obtain r1 where r1: "exch_add_orders ?ss x = (r1, x')" "r = Inr batch \<Longrightarrow> r1 = Inr batch"
      using assms(3) False by (auto simp: srvAddOrders_def submissionIn_def [abs_def] split: prod.splits sum.splits)
    have "next_order_id x + length ?ss \<le> 2 ^ 32" using assms(2) False by simp
    note g = exch_add_orders_good [OF assms(1) this r1(1)]
    have "next_order_id x' \<le> next_order_id x + 32" using g(2) False by simp
    then show ?thesis using g(1) g(4) [of batch symbol] g(5) [of batch] r1(2) by auto
  qed
  then show "exchangeGood x'" "next_order_id x' \<le> next_order_id x + 32"
    "r = Inr batch \<Longrightarrow> matchAll symbol (exchangeBook x symbol) (zip (map (subOrder \<circ> submissionIn) subs) (ebResults batch))
      = Some (exchangeBook x' symbol)"
    "r = Inr batch \<Longrightarrow> length (ebResults batch) = length subs" by blast+
qed

lemma handler_AddOrders: "handlerOk (srvAddOrders subs)"
  using srvAddOrders_result(1,2) by (intro handlerOkI) blast

text \<open>A batch at one client.\<close>

lemma adapterAddOrders_good:
  assumes "clientGood c" and "maxCalls \<le> calls c \<longrightarrow> d = RequestLost" and "adapterAddOrders d c ods = (r, c')"
  shows "clientGood c'"
    and "r = Inr batch \<Longrightarrow> length (ebResults batch) = length ods"
    and "r = Inr batch \<Longrightarrow> matchAll symbol (exchangeBook (peer c) symbol) (zip ods (ebResults batch)) = Some (exchangeBook (peer c') symbol)"
proof -
  have all: "clientGood c' \<and> (r = Inr batch \<longrightarrow> length (ebResults batch) = length ods \<and>
      matchAll symbol (exchangeBook (peer c) symbol) (zip ods (ebResults batch)) = Some (exchangeBook (peer c') symbol))"
  proof (cases "ods = [] \<or> length ods > 32 \<or> (\<exists>od\<in>set ods. eoSide od \<noteq> ''sell'' \<and> eoSide od \<noteq> ''buy'')")
    case True
    then show ?thesis using assms(1,3) by (auto simp: adapterAddOrders_def split: if_splits)
  next
    case False
    obtain r1 c1 where rpc: "rpc d (srvAddOrders (map submissionOf ods)) c = (r1, c1)" by (metis prod.exhaust)
    note g = rpc_good [OF assms(1,2) handler_AddOrders rpc]
    have c1: "c' = c1" "r = Inr batch \<Longrightarrow> r1 = Inr batch" "r = Inr batch \<Longrightarrow> length (ebResults batch) = length ods"
      using assms(3) False rpc by (auto simp: adapterAddOrders_def plainRpc_def split: sum.splits if_splits)
    have ods: "map (subOrder \<circ> submissionIn) (map submissionOf ods) = ods"
      using False by (auto simp: sideOk_def submission_roundtrip intro!: map_idI)
    have "matchAll symbol (exchangeBook (peer c) symbol) (zip ods (ebResults batch)) = Some (exchangeBook (peer c') symbol)"
      if "r = Inr batch"
    proof -
      have h: "srvAddOrders (map submissionOf ods) (peer c) = (Inr batch, peer c1)" "exchangeGood (peer c)"
          "next_order_id (peer c) + 32 \<le> 2 ^ 32"
        using g(3) [OF c1(2) [OF that]] by simp_all
      show ?thesis using srvAddOrders_result(3) [OF h(2,3,1), of batch symbol] ods c1(1) by simp
    qed
    then show ?thesis using g(1) c1 by blast
  qed
  then show "clientGood c'" "r = Inr batch \<Longrightarrow> length (ebResults batch) = length ods"
    "r = Inr batch \<Longrightarrow> matchAll symbol (exchangeBook (peer c) symbol) (zip ods (ebResults batch)) = Some (exchangeBook (peer c') symbol)"
    by blast+
qed

section \<open>Calls through the router\<close>

lemma partitionOf_less: "0 < count \<Longrightarrow> partitionOf symbol count < count"
  by (simp add: partitionOf_def)

lemma healthy_update:
  assumes "healthyRouter net cs" and "clientGood c'"
  shows "healthyRouter net (cs[p := c'])"
  using assms set_update_subset_insert [of cs p c'] by (auto simp: healthyRouter_def)

lemma routerBook_update:
  assumes "p < length cs"
  shows "routerBook (cs[p := c']) symbol =
    (if partitionOf symbol (length cs) = p then exchangeBook (peer c') symbol else routerBook cs symbol)"
  using assms by (simp add: routerBook_def)

lemma healthy_client:
  assumes "healthyRouter net cs" and "p < length cs"
  shows "clientGood (cs ! p)" and "maxCalls \<le> calls (cs ! p) \<longrightarrow> net p (calls (cs ! p)) = RequestLost"
  using assms by (auto simp: healthyRouter_def budget_def)

lemma pick_owner:
  assumes "healthyRouter net cs" and "pick net symbol call cs = (r, cs')"
  obtains p c' where "p < length cs" "p = partitionOf symbol (length cs)" "call (net p (calls (cs ! p))) (cs ! p) = (r, c')"
    "cs' = cs[p := c']" "routerBook cs symbol = exchangeBook (peer (cs ! p)) symbol"
proof -
  define p where "p = partitionOf symbol (length cs)"
  have p: "p < length cs" using assms(1) partitionOf_less by (auto simp: healthyRouter_def p_def)
  obtain c' where c': "call (net p (calls (cs ! p))) (cs ! p) = (r, c')" "cs' = cs[p := c']"
    using assms(2) by (auto simp: pick_def atClient_def p_def Let_def split: prod.splits)
  show thesis by (rule that [OF p p_def c']) (simp add: routerBook_def p_def)
qed

text \<open>Calls that only read leave every book as it is.\<close>

lemma pick_reads:
  assumes "healthyRouter net cs" and "pick net symbol call cs = (r, cs')" and "handlerOk h"
    and "\<And>x. exchangeGood x \<Longrightarrow> exchangeBook (snd (h x)) = exchangeBook x"
    and "\<And>d c. snd (call d c) = snd (rpc d h c)"
  shows "healthyRouter net cs' \<and> routerBook cs' = routerBook cs"
proof -
  obtain p c' where p: "p < length cs" "p = partitionOf symbol (length cs)" "call (net p (calls (cs ! p))) (cs ! p) = (r, c')"
      "cs' = cs[p := c']" "routerBook cs symbol = exchangeBook (peer (cs ! p)) symbol"
    by (rule pick_owner [OF assms(1,2)])
  obtain r1 where "rpc (net p (calls (cs ! p))) h (cs ! p) = (r1, c')"
    using p(3) assms(5) by (metis prod.collapse snd_conv)
  note g = rpc_good [OF healthy_client [OF assms(1) p(1)] assms(3) this]
  have "exchangeBook (peer c') = exchangeBook (peer (cs ! p))" using g(4) assms(4) by metis
  then show ?thesis
    using healthy_update [OF assms(1) g(1), of p] p by (auto simp: routerBook_update fun_eq_iff) (simp add: routerBook_def)
qed

section \<open>Scatter and gather\<close>

lemma indicesOf_facts:
  "distinct (indicesOf count p ods)" "set (indicesOf count p ods) \<subseteq> {..<length ods}"
  "i \<in> set (indicesOf count p ods) \<Longrightarrow> partitionOf (eoSymbol (ods ! i)) count = p"
  by (auto simp: indicesOf_def)

lemma groupOf_indices: "groupOf count p ods = map (nth ods) (indicesOf count p ods)"
proof -
  have "groupOf count p ods = filter (\<lambda>od. partitionOf (eoSymbol od) count = p) (map (nth ods) [0..<length ods])"
    by (simp add: groupOf_def map_nth)
  then show ?thesis by (simp add: indicesOf_def filter_map o_def)
qed

lemma placeResults_nth:
  assumes "distinct is" and "length rs = length is" and "set is \<subseteq> {..<length acc}"
  shows "length (placeResults is rs acc) = length acc"
    and "map (nth (placeResults is rs acc)) is = rs"
    and "k \<notin> set is \<Longrightarrow> placeResults is rs acc ! k = acc ! k"
proof -
  have "length (placeResults is rs acc) = length acc \<and> map (nth (placeResults is rs acc)) is = rs \<and>
      (\<forall>k. k \<notin> set is \<longrightarrow> placeResults is rs acc ! k = acc ! k)"
    using assms
  proof (induction "is" arbitrary: rs acc)
    case (Cons i "is")
    then obtain r rs' where rs: "rs = r # rs'" by (cases rs) auto
    have p: "placeResults (i # is) (r # rs') acc = placeResults is rs' (acc[i := r])" by (simp add: placeResults_def)
    have IH: "length (placeResults is rs' (acc[i := r])) = length acc \<and> map (nth (placeResults is rs' (acc[i := r]))) is = rs' \<and>
        (\<forall>k. k \<notin> set is \<longrightarrow> placeResults is rs' (acc[i := r]) ! k = acc[i := r] ! k)"
      using Cons.IH [of rs' "acc[i := r]"] Cons.prems rs by auto
    show ?case using IH Cons.prems(1,3) unfolding rs p by auto
  qed (simp add: placeResults_def)
  then show "length (placeResults is rs acc) = length acc" "map (nth (placeResults is rs acc)) is = rs"
    "k \<notin> set is \<Longrightarrow> placeResults is rs acc ! k = acc ! k" by blast+
qed

lemma gather_results:
  assumes "gather count ods pbs result = Inr final" and "distinct (map fst pbs)" and "length (ebResults result) = length ods"
    and "\<And>p batch. (p, Inr batch) \<in> set pbs \<Longrightarrow> length (ebResults batch) = length (indicesOf count p ods)"
  shows "length (ebResults final) = length ods"
    and "(p, b) \<in> set pbs \<Longrightarrow> \<exists>batch. b = Inr batch \<and> map (nth (ebResults final)) (indicesOf count p ods) = ebResults batch"
proof -
  have "length (ebResults final) = length ods \<and>
      (\<forall>k<length ods. partitionOf (eoSymbol (ods ! k)) count \<notin> fst ` set pbs \<longrightarrow> ebResults final ! k = ebResults result ! k) \<and>
      (\<forall>p b. (p, b) \<in> set pbs \<longrightarrow>
        (\<exists>batch. b = Inr batch \<and> map (nth (ebResults final)) (indicesOf count p ods) = ebResults batch))"
    using assms
  proof (induction pbs arbitrary: result)
    case (Cons pb pbs)
    obtain p1 b1 where pb: "pb = (p1, b1)" by (cases pb)
    obtain batch where b1: "b1 = Inr batch" using Cons.prems(1) pb by (cases b1) auto
    let ?rs = "placeResults (indicesOf count p1 ods) (ebResults batch) (ebResults result)"
    let ?next = "result\<lparr>ebResults := ?rs, ebQuotes := ebQuotes result @ ebQuotes batch\<rparr>"
    have g: "gather count ods pbs ?next = Inr final" using Cons.prems(1) pb b1 by simp
    have sub: "set (indicesOf count p1 ods) \<subseteq> {..<length (ebResults result)}"
      using indicesOf_facts(2) Cons.prems(3) by metis
    have "length (ebResults batch) = length (indicesOf count p1 ods)" by (rule Cons.prems(4)) (simp add: pb b1)
    note pl = placeResults_nth [OF indicesOf_facts(1) this sub]
    have d: "distinct (map fst pbs)" "p1 \<notin> fst ` set pbs" using Cons.prems(2) pb by simp_all
    have IH: "length (ebResults final) = length ods"
        "\<And>k. k < length ods \<Longrightarrow> partitionOf (eoSymbol (ods ! k)) count \<notin> fst ` set pbs \<Longrightarrow> ebResults final ! k = ?rs ! k"
        "\<And>p b. (p, b) \<in> set pbs \<Longrightarrow> \<exists>batch. b = Inr batch \<and> map (nth (ebResults final)) (indicesOf count p ods) = ebResults batch"
      using Cons.IH [OF g d(1)] pl(1) Cons.prems(3,4) by auto
    have here: "map (nth (ebResults final)) (indicesOf count p1 ods) = ebResults batch"
    proof -
      have "ebResults final ! i = ?rs ! i" if "i \<in> set (indicesOf count p1 ods)" for i
        using IH(2) [of i] d(2) indicesOf_facts(2,3) that by (metis lessThan_iff subsetD)
      then show ?thesis using pl(2) by (metis map_cong)
    qed
    have away: "ebResults final ! k = ebResults result ! k"
      if "k < length ods" "partitionOf (eoSymbol (ods ! k)) count \<notin> fst ` set (pb # pbs)" for k
      using IH(2) [of k] pl(3) [of k] that pb indicesOf_facts(3) [of k count p1 ods] by auto
    show ?case using IH(1,3) here away pb b1 by auto
  qed simp
  then show "length (ebResults final) = length ods"
    "(p, b) \<in> set pbs \<Longrightarrow> \<exists>batch. b = Inr batch \<and> map (nth (ebResults final)) (indicesOf count p ods) = ebResults batch"
    by blast+
qed

text \<open>One call per owner; the owners that come later are not touched.\<close>

lemma scatter_good:
  assumes "healthyRouter net cs" and "count = length cs" and "distinct ps" and "set ps \<subseteq> {..<count}"
    and "scatter net count ods ps cs = (bs, cs')"
  shows "healthyRouter net cs'" and "length bs = length ps" and "length cs' = length cs"
    and "p \<notin> set ps \<Longrightarrow> cs' ! p = cs ! p"
    and "(p, Inr batch) \<in> set (zip ps bs) \<Longrightarrow> length (ebResults batch) = length (groupOf count p ods) \<and>
      matchAll symbol (exchangeBook (peer (cs ! p)) symbol) (zip (groupOf count p ods) (ebResults batch))
        = Some (exchangeBook (peer (cs' ! p)) symbol)"
proof -
  have "healthyRouter net cs' \<and> length bs = length ps \<and> length cs' = length cs \<and> (\<forall>p. p \<notin> set ps \<longrightarrow> cs' ! p = cs ! p) \<and>
      (\<forall>p batch. (p, Inr batch) \<in> set (zip ps bs) \<longrightarrow> length (ebResults batch) = length (groupOf count p ods) \<and>
        matchAll symbol (exchangeBook (peer (cs ! p)) symbol) (zip (groupOf count p ods) (ebResults batch))
          = Some (exchangeBook (peer (cs' ! p)) symbol))"
    using assms
  proof (induction ps arbitrary: cs bs)
    case (Cons q ps)
    let ?group = "groupOf count q ods"
    obtain b cs1 bs1 where step: "(if ?group = [] then (Inr \<lparr>ebResults = [], ebQuotes = []\<rparr>, cs)
          else atClient net q (\<lambda>d c. adapterAddOrders d c ?group) cs) = (b, cs1)"
        "scatter net count ods ps cs1 = (bs1, cs')" "bs = b # bs1"
      using Cons.prems(5) by (auto simp: Let_def split: prod.splits)
    have q: "q < length cs" "q \<notin> set ps" using Cons.prems(2-4) by auto
    have first: "healthyRouter net cs1 \<and> length cs1 = length cs \<and> (\<forall>p. p \<noteq> q \<longrightarrow> cs1 ! p = cs ! p) \<and>
        (\<forall>batch. b = Inr batch \<longrightarrow> length (ebResults batch) = length ?group \<and>
          matchAll symbol (exchangeBook (peer (cs ! q)) symbol) (zip ?group (ebResults batch)) = Some (exchangeBook (peer (cs1 ! q)) symbol))"
    proof (cases "?group = []")
      case True
      then show ?thesis using step(1) Cons.prems(1) by auto
    next
      case False
      then obtain c' where c': "adapterAddOrders (net q (calls (cs ! q))) (cs ! q) ?group = (b, c')" "cs1 = cs[q := c']"
        using step(1) by (auto simp: atClient_def Let_def split: prod.splits)
      note g = adapterAddOrders_good [OF healthy_client [OF Cons.prems(1) q(1)] c'(1)]
      show ?thesis using g healthy_update [OF Cons.prems(1) g(1), of q] c'(2) q(1) by auto
    qed
    have "count = length cs1" "distinct ps" "set ps \<subseteq> {..<count}" using first Cons.prems(2-4) by auto
    note IH = Cons.IH [OF _ this step(2)]
    have "cs1 ! p = cs ! p" if "(p, b') \<in> set (zip ps bs1)" for p b'
      using first q(2) set_zip_leftD [OF that] by metis
    then show ?case using IH first q step(3) by auto
  qed simp
  then show "healthyRouter net cs'" "length bs = length ps" "length cs' = length cs" "p \<notin> set ps \<Longrightarrow> cs' ! p = cs ! p"
    "(p, Inr batch) \<in> set (zip ps bs) \<Longrightarrow> length (ebResults batch) = length (groupOf count p ods) \<and>
      matchAll symbol (exchangeBook (peer (cs ! p)) symbol) (zip (groupOf count p ods) (ebResults batch))
        = Some (exchangeBook (peer (cs' ! p)) symbol)" by blast+
qed

text \<open>The orders of one symbol all go to its owner, so the rest of the batch does not matter to its book.\<close>

lemma matchAll_filter:
  assumes "P symbol"
  shows "matchAll symbol b (filter (\<lambda>x. P (eoSymbol (fst x))) xs) = matchAll symbol b xs"
proof (induction xs arbitrary: b)
  case (Cons x xs)
  show ?case using assms Cons.IH by (cases x) (auto split: option.split)
qed simp

lemma zip_owner:
  assumes "length rs = length ods"
  shows "filter (\<lambda>x. partitionOf (eoSymbol (fst x)) count = p) (zip ods rs) =
    zip (groupOf count p ods) (map (nth rs) (indicesOf count p ods))"
proof -
  have "zip ods rs = map (\<lambda>i. (ods ! i, rs ! i)) [0..<length ods]"
    using assms by (intro nth_equalityI) simp_all
  then have "filter (\<lambda>x. partitionOf (eoSymbol (fst x)) count = p) (zip ods rs) =
      map (\<lambda>i. (ods ! i, rs ! i)) (indicesOf count p ods)"
    by (simp add: filter_map o_def indicesOf_def)
  then show ?thesis by (simp add: groupOf_indices zip_map_map zip_same_conv_map)
qed

lemma routedAddOrders_good:
  assumes "healthyRouter net cs" and "routedAddOrders net cs ods = (Inr batch, cs')"
  shows "healthyRouter net cs'"
    and "matchAll symbol (routerBook cs symbol) (zip ods (ebResults batch)) = Some (routerBook cs' symbol)"
    and "length (ebResults batch) = length ods"
proof -
  let ?n = "length cs"
  let ?p = "partitionOf symbol ?n"
  have n: "0 < ?n" using assms(1) by (simp add: healthyRouter_def)
  have "healthyRouter net cs' \<and> matchAll symbol (routerBook cs symbol) (zip ods (ebResults batch)) = Some (routerBook cs' symbol) \<and>
      length (ebResults batch) = length ods"
  proof (cases "?n = 1")
    case True
    then obtain c' where c': "adapterAddOrders (net 0 (calls (cs ! 0))) (cs ! 0) ods = (Inr batch, c')" "cs' = cs[0 := c']"
      using assms(2) by (auto simp: routedAddOrders_def atClient_def Let_def split: if_splits prod.splits)
    note g = adapterAddOrders_good [OF healthy_client [OF assms(1) n] c'(1)]
    show ?thesis using g(2) [of batch] g(3) [of batch symbol] healthy_update [OF assms(1) g(1), of 0] c'(2) True by (simp add: routerBook_def partitionOf_def)
  next
    case False
    obtain bs where sc: "scatter net ?n ods [0..<?n] cs = (bs, cs')"
        "gather ?n ods (zip [0..<?n] bs) \<lparr>ebResults = replicate (length ods) EngineResult0, ebQuotes = []\<rparr> = Inr batch"
      using assms(2) False by (auto simp: routedAddOrders_def Let_def split: if_splits prod.splits)
    have ps: "distinct [0..<?n]" "set [0..<?n] \<subseteq> {..<?n}" by auto
    note s = scatter_good [OF assms(1) refl ps sc(1)]
    have d: "distinct (map fst (zip [0..<?n] bs))" using s(2) by simp
    have len: "length (ebResults b) = length (indicesOf ?n p ods)" if "(p, Inr b) \<in> set (zip [0..<?n] bs)" for p b
      using s(5) [OF that] groupOf_indices [of ?n p ods] by simp
    note g = gather_results [OF sc(2) d _ len]
    have "(?p, bs ! ?p) \<in> set (zip [0..<?n] bs)"
      using s(2) partitionOf_less [OF n, of symbol] by (auto simp: set_zip intro!: exI [of _ ?p])
    moreover from this obtain b where b: "bs ! ?p = Inr b" "map (nth (ebResults batch)) (indicesOf ?n ?p ods) = ebResults b"
      using g(2) [of ?p "bs ! ?p"] by auto
    ultimately have "matchAll symbol (exchangeBook (peer (cs ! ?p)) symbol) (zip (groupOf ?n ?p ods) (ebResults b))
        = Some (exchangeBook (peer (cs' ! ?p)) symbol)"
      using s(5) [of ?p b symbol] by simp
    then have "matchAll symbol (routerBook cs symbol) (filter (\<lambda>x. partitionOf (eoSymbol (fst x)) ?n = ?p) (zip ods (ebResults batch)))
        = Some (routerBook cs' symbol)"
      using zip_owner [of "ebResults batch" ods ?n ?p] g(1) b(2) s(3) by (simp add: routerBook_def)
    then show ?thesis using s(1) g(1) matchAll_filter [of "\<lambda>sy. partitionOf sy ?n = ?p" symbol] by simp
  qed
  then show "healthyRouter net cs'" "length (ebResults batch) = length ods"
    "matchAll symbol (routerBook cs symbol) (zip ods (ebResults batch)) = Some (routerBook cs' symbol)" by blast+
qed

section \<open>The contract holds\<close>

lemma sideText_of: "sideOk side \<Longrightarrow> sideText (toSide (sideOf side)) = side"
  by (auto simp: sideOk_def sideOf_def toSide_def)

lemma routed_AddOrder:
  assumes "healthyRouter net cs" and "AddOrder (routedTrading net) cs symbol p q side = (Inr res, cs')"
    and "sideOk side" and "0 < q"
  shows "healthyRouter net cs' \<and> matchBook (routerBook cs symbol) side p q res = Some (routerBook cs' symbol) \<and>
    (\<forall>other. other \<noteq> symbol \<longrightarrow> routerBook cs' other = routerBook cs other)"
proof -
  let ?sub = "\<lparr>osSymbol = symbol, osPrice = p, osQuantity = q, osSide = sideOf side\<rparr>"
  have pk: "pick net symbol (\<lambda>d c. adapterAddOrder d c symbol p q side) cs = (Inr res, cs')"
    using assms(2) by (simp add: routedTrading_def)
  obtain k c' where k: "k < length cs" "k = partitionOf symbol (length cs)"
      "adapterAddOrder (net k (calls (cs ! k))) (cs ! k) symbol p q side = (Inr res, c')"
      "cs' = cs[k := c']" "routerBook cs symbol = exchangeBook (peer (cs ! k)) symbol"
    by (rule pick_owner [OF assms(1) pk])
  have rpc: "rpc (net k (calls (cs ! k))) (srvAddOrder ?sub) (cs ! k) = (Inr res, c')"
    using k(3) by (auto simp: adapterAddOrder_def plainRpc_def split: prod.splits sum.splits)
  note g = rpc_good [OF healthy_client [OF assms(1) k(1)] handler_AddOrder rpc, simplified, OF assms(4)]
  have x: "exchangeGood (peer (cs ! k))" "next_order_id (peer (cs ! k)) < 2 ^ 32" "0 < osQuantity ?sub"
      "srvAddOrder ?sub (peer (cs ! k)) = (Inr res, peer c')"
    using g(3) assms(4) by auto
  note r = srvAddOrder_result [OF x]
  have "matchBook (routerBook cs symbol) side p q res = Some (routerBook cs' symbol)"
    using r(3) [of res] sideText_of [OF assms(3)] k by (simp add: routerBook_update)
  moreover have "routerBook cs' other = routerBook cs other" if "other \<noteq> symbol" for other
    using r(4) [of other] that k(1,4) by (simp add: routerBook_update) (simp add: routerBook_def)
  ultimately show ?thesis using healthy_update [OF assms(1) g(1), of k] k(4) by blast
qed

lemma routed_RemoveOrder:
  assumes "healthyRouter net cs" and "RemoveOrder (routedTrading net) cs symbol i = (Inr removed, cs')"
  shows "healthyRouter net cs' \<and> removed = (fmlookup (routerBook cs symbol) i \<noteq> None) \<and>
    routerBook cs' = (routerBook cs)(symbol := fmdrop i (routerBook cs symbol))"
proof -
  have pk: "pick net symbol (\<lambda>d c. RemoveOrderText d c symbol i) cs = (Inr removed, cs')"
    using assms(2) by (simp add: routedTrading_def)
  obtain k c' where k: "k < length cs" "k = partitionOf symbol (length cs)"
      "RemoveOrderText (net k (calls (cs ! k))) (cs ! k) symbol i = (Inr removed, c')"
      "cs' = cs[k := c']" "routerBook cs symbol = exchangeBook (peer (cs ! k)) symbol"
    by (rule pick_owner [OF assms(1) pk])
  have rpc: "rpc (net k (calls (cs ! k))) (srvRemoveOrder symbol i) (cs ! k) = (Inr removed, c')"
    using k(3) by (auto simp: RemoveOrderText_def wrapRpc_def split: prod.splits sum.splits)
  note g = rpc_good [OF healthy_client [OF assms(1) k(1)] handler_RemoveOrder rpc]
  have x: "exchangeGood (peer (cs ! k))" "exch_remove_order symbol i (peer (cs ! k)) = (removed, peer c')"
    using g(3) [of removed] by (auto simp: srvRemoveOrder_def split: prod.splits)
  note r = exch_remove_order_good [OF x]
  have "routerBook cs' other = ((routerBook cs)(symbol := fmdrop i (routerBook cs symbol))) other" for other
    using r(4) k by (auto simp: routerBook_update) (simp add: routerBook_def)
  then show ?thesis using healthy_update [OF assms(1) g(1), of k] r(3) k(4,5) by auto
qed

interpretation routed: matching_engine "routedTrading net" routerBook "healthyRouter net" for net
proof
  fix e e' symbol r
  assume "healthyRouter net e" "AddBook (routedTrading net) e symbol = (r, e')"
  then show "healthyRouter net e' \<and> routerBook e' = routerBook e"
    by (intro pick_reads [where h = "srvAddBook symbol" and call = "\<lambda>d c. clientAddBook d c symbol"])
       (auto simp: routedTrading_def handler_AddBook srvAddBook_def exch_add_book_good clientAddBook_def split: prod.splits)
next
  fix e e' symbol p q side res
  assume "healthyRouter net e" "AddOrder (routedTrading net) e symbol p q side = (Inr res, e')" "sideOk side" "0 < q"
  then show "healthyRouter net e' \<and> matchBook (routerBook e symbol) side p q res = Some (routerBook e' symbol) \<and>
      (\<forall>other. other \<noteq> symbol \<longrightarrow> routerBook e' other = routerBook e other)" by (rule routed_AddOrder)
next
  fix e e' symbol i removed
  assume "healthyRouter net e" "RemoveOrder (routedTrading net) e symbol i = (Inr removed, e')"
  then show "healthyRouter net e' \<and> removed = (fmlookup (routerBook e symbol) i \<noteq> None) \<and>
      routerBook e' = (routerBook e)(symbol := fmdrop i (routerBook e symbol))" by (rule routed_RemoveOrder)
next
  fix e e' call ods batch
  assume "healthyRouter net e" "AddOrders (routedTrading net) = Some call" "call e ods = (Inr batch, e')"
  then show "healthyRouter net e' \<and>
      (\<forall>symbol. matchAll symbol (routerBook e symbol) (zip ods (ebResults batch)) = Some (routerBook e' symbol))"
    using routedAddOrders_good [of net e ods batch e'] by (auto simp: routedTrading_def)
next
  fix e e' quote symbol ans
  assume "healthyRouter net e" "EngineQuoteOf (routedTrading net) = Some quote" "quote e symbol = (ans, e')"
  then show "healthyRouter net e' \<and> routerBook e' = routerBook e"
    by (intro pick_reads [where h = "srvGetQuote symbol" and call = "\<lambda>d c. adapterQuote d c symbol"])
       (auto simp: routedTrading_def handler_read srv_reads adapterQuote_def split: prod.splits)
qed

text \<open>Fresh engines: empty books, as at the start of the program.\<close>

lemma fresh_router:
  assumes "budget net" and "0 < n" and "cs = replicate n \<lparr>peer = emptyExchange, calls = 0\<rparr>"
  shows "healthyRouter net cs" and "routerBook cs symbol = fmempty"
  using assms emptyExchange_good partitionOf_less [of n symbol]
  by (simp_all add: healthyRouter_def clientGood_def routerBook_def emptyExchange_def)

end
