(* ===== verification/Exchange_Steps.thy ===== *)
theory Exchange_Steps
  imports Durability Engine_Client
begin

text \<open>
  The exchange as a transition system: requests of clients, rounds of the order worker, quote
  reads and the phases of checkpoints, in any order. The ghost component of a state is the
  money that entered. Every reachable state keeps the invariant of the service with its
  engines, by rule induction over the runs.
\<close>

section \<open>Storage steps keep the service\<close>

lemma keeps_failIf:
  assumes "keeps s (snd r)" and "\<And>t. keeps s t \<Longrightarrow> keeps s (snd (k t))"
  shows "keeps s (snd (failIf r k))"
  using assms by (auto simp: failIf_def fail_def Let_def split: prod.splits option.splits)

lemma keeps_sync: "keeps s t \<Longrightarrow> keeps s (snd (syncDirectory t))"
  by (simp add: syncDirectory_def keeps_andThen)

lemma keeps_onDisk [simp]: "keeps s (onDisk f t) = keeps s t"
  by (simp add: onDisk_def)

lemma keeps_rotateWAL: "keeps s t \<Longrightarrow> keeps s (snd (rotateWAL t))"
  unfolding rotateWAL_def Let_def by (intro keeps_failIf keeps_sync) simp_all

lemma keeps_closeWAL: "keeps s t \<Longrightarrow> keeps s (snd (closeWAL t))"
  by (auto simp: closeWAL_def intro!: keeps_failIf)

lemma freeze_keeps:
  assumes "freezeCheckpoint s = (x, t)"
  shows "keeps s t" and "failure s \<noteq> None \<Longrightarrow> t = s"
proof -
  obtain r1 t1 where t1: "osTry s = (r1, t1)" by (rule prod.exhaust)
  obtain r2 t2 where t2: "osTry t1 = (r2, t2)" by (rule prod.exhaust)
  obtain r3 t3 where t3: "andThen (closeWAL t2) rotateWAL = (r3, t3)" by (rule prod.exhaust)
  have k1: "keeps s t1" using t1 by (metis osTry_keeps(1) keeps_refl snd_conv)
  have k2: "keeps s t2" using t2 k1 by (metis osTry_keeps(1) snd_conv)
  have k3: "keeps s t3" using keeps_andThen [OF keeps_closeWAL [OF k2], of rotateWAL] keeps_rotateWAL t3 by fastforce
  have "t = s \<or> t = t1 \<or> t = t2 \<or> t = t3"
    using assms t1 t2 t3 by (auto simp: freezeCheckpoint_def split: option.splits if_splits)
  then show "keeps s t" using k1 k2 k3 by auto
  show "failure s \<noteq> None \<Longrightarrow> t = s" using assms by (auto simp: freezeCheckpoint_def)
qed

lemma writeSnapshot_keeps:
  assumes "writeSnapshot sn s = (r, t)"
  shows "keeps s t" and "failure t = failure s"
proof -
  have e: "keeps s (erased u) = keeps s u" "failure (erased u) = failure u" for u :: "('a, 'b) Service"
    by (simp_all add: erased_def)
  let ?u = "s\<lparr>disk := (disk s)\<lparr>snapshotFile := Some sn\<rparr>\<rparr>"
  have u: "keeps s ?u" "failure ?u = failure s" by simp_all
  obtain u where "erased t = erased u" "keeps s u" "failure u = failure s"
  proof (cases "erased t = erased s")
    case False
    then have "erased t = erased ?u" using writeSnapshot_erased [OF assms] by simp
    then show thesis using that [of ?u] u by blast
  qed (rule that [OF _ keeps_refl refl])
  then show "keeps s t" "failure t = failure s" using e by metis+
qed

lemma dropPrevious_keeps:
  assumes "dropPrevious s = (r, t)"
  shows "keeps s t" and "failure t = failure s"
proof -
  have "quiet s (snd (dropPrevious s))"
    by (auto simp: dropPrevious_def onDisk_def intro!: quiet_andThen quiet_syncDirectory split: option.split)
  then show "keeps s t" "failure t = failure s" using assms by (simp_all add: quiet_def)
qed

section \<open>The transition system\<close>

text \<open>
  A state is the queue with its service, and the sum of the deposits that were accepted. The
  worker and the checkpoint run beside the requests. A market is resolved while no sell order
  rests in it; deposits are bounded by the 63 bits of a balance.
\<close>

inductive exchange_step :: "('e, 'p) queue \<times> int \<Rightarrow> ('e, 'p) queue \<times> int \<Rightarrow> bool" where
  deposit: "Deposit user cents (qService q) = (r, s) \<Longrightarrow> D + cents \<le> int64_max \<Longrightarrow>
    exchange_step (q, D) (q\<lparr>qService := s\<rparr>, if r = None then D + cents else D)"
| create_market: "CreateMarketFor i symbol owner (qService q) = (r, s) \<Longrightarrow>
    exchange_step (q, D) (q\<lparr>qService := s\<rparr>, D)"
| place: "Place client ctxErr p q = (r, q') \<Longrightarrow> submission (plOrder p) \<Longrightarrow> exchange_step (q, D) (q', D)"
| work: "drainRound q = Some q' \<Longrightarrow> exchange_step (q, D) (q', D)"
| rest: "drainRound q = None \<Longrightarrow> exchange_step (q, D) (q\<lparr>qRunning := False\<rparr>, D)"
| cancel: "Cancel ctxErr i user (qService q) = (r, s) \<Longrightarrow> exchange_step (q, D) (q\<lparr>qService := s\<rparr>, D)"
| resolve: "ResolveFor ctxErr i yes owner (qService q) = (r, s) \<Longrightarrow> noSells i (qService q) \<Longrightarrow>
    exchange_step (q, D) (q\<lparr>qService := s\<rparr>, D)"
| quote: "QuoteOf symbol (qService q) = (r, s) \<Longrightarrow> exchange_step (q, D) (q\<lparr>qService := s\<rparr>, D)"
| freeze_state: "freezeCheckpoint (qService q) = (x, s) \<Longrightarrow> exchange_step (q, D) (q\<lparr>qService := s\<rparr>, D)"
| write_snapshot: "writeSnapshot sn (qService q) = (r, s) \<Longrightarrow> exchange_step (q, D) (q\<lparr>qService := s\<rparr>, D)"
| drop_segment: "dropPrevious (qService q) = (r, s) \<Longrightarrow> exchange_step (q, D) (q\<lparr>qService := s\<rparr>, D)"

inductive_cases exchange_stepE: "exchange_step (q, D) y"

context matching_engine
begin

abbreviation stateOk :: "('e, 'p) queue \<times> int \<Rightarrow> bool" where
  "stateOk x \<equiv> queueOk eng bookOf healthy (snd x) (fst x)"

lemma queueOk_service:
  assumes "queueOk eng bookOf healthy D q" and "sound eng bookOf healthy D' s"
  shows "queueOk eng bookOf healthy D' (q\<lparr>qService := s\<rparr>)"
  using assms by (auto simp: queueOk_def)

lemma keeps_sound:
  assumes "sound eng bookOf healthy D s" and "keeps s t" and "failure s \<noteq> None \<longrightarrow> failure t \<noteq> None"
  shows "sound eng bookOf healthy D t"
  using assms(2,3) by (intro sound_same [OF assms(1)]) (use assms(1) in \<open>auto simp: keeps_def sound_def\<close>)

lemma QuoteOf_sound:
  assumes "sound eng bookOf healthy D s" and "QuoteOf symbol s = (r, t)"
  shows "sound eng bookOf healthy D t"
proof (cases "t = s")
  case False
  then obtain quote x e where q: "EngineQuoteOf eng = Some quote" "quote (engineState s) symbol = (x, e)"
      "t = s\<lparr>engineState := e\<rparr>" "failure s = None"
    using assms by (auto simp: QuoteOf_def sound_def split: option.splits if_splits prod.splits sum.splits)
  have h: "healthy (engineState s)" using assms(1) q(4) by (simp add: sound_def)
  have "book t = book s" using q(3) by (simp add: book_eq_iff)
  then show ?thesis
    using Quote_books [OF h q(1,2)] q(3,4) by (intro sound_same [OF assms(1)]) simp_all
qed (use assms(1) in simp)

lemma exchange_step_ok:
  assumes "exchange_step x y" and "stateOk x"
  shows "stateOk y"
  using assms
proof (induction rule: exchange_step.induct)
  case (deposit user cents q r s D)
  then show ?case using Deposit_sound [of user cents "qService q" r s D] queueOk_service by (simp add: queueOk_def)
next
  case (create_market i symbol owner q r s D)
  then show ?case using CreateMarketFor_sound [of i symbol owner "qService q" r s D] by (simp add: queueOk_def)
next
  case (place client ctxErr p q r q' D)
  then show ?case using Place_sound by auto
next
  case (work q q' D)
  then show ?case using drainRound_sound by auto
next
  case (rest q D)
  then show ?case by (simp add: queueOk_def)
next
  case (cancel ctxErr i user q r s D)
  then show ?case using Cancel_sound [of ctxErr i user "qService q" r s D] by (simp add: queueOk_def)
next
  case (resolve ctxErr i yes owner q r s D)
  then have "outstanding pYes (qService q) i = outstanding pNo (qService q) i"
    by (intro noSells_balanced [of D]) (simp_all add: queueOk_def sound_def)
  then show ?case using resolve ResolveFor_sound [of ctxErr i yes owner "qService q" r s D] by (simp add: queueOk_def)
next
  case (quote symbol q r s D)
  then show ?case using QuoteOf_sound [of D "qService q" symbol r s] by (simp add: queueOk_def)
next
  case (freeze_state q x s D)
  then show ?case using keeps_sound [of D "qService q" s] freeze_keeps [of "qService q" x s] by (auto simp: queueOk_def)
next
  case (write_snapshot sn q r s D)
  then show ?case using keeps_sound [of D "qService q" s] writeSnapshot_keeps [of sn "qService q" r s] by (auto simp: queueOk_def)
next
  case (drop_segment q r s D)
  then show ?case using keeps_sound [of D "qService q" s] dropPrevious_keeps [of "qService q" r s] by (auto simp: queueOk_def)
qed

lemma exchange_run_ok: "exchange_step\<^sup>*\<^sup>* x y \<Longrightarrow> stateOk x \<Longrightarrow> stateOk y"
  by (induction rule: rtranclp_induct) (auto intro: exchange_step_ok)

end

section \<open>The first state\<close>

definition newQueue :: "('e, 'p) Service \<Rightarrow> ('e, 'p) queue" where
  "newQueue s = \<lparr>qService = s, qPending = [], qRunning = False, qClosed = False, qDone = []\<rparr>"

definition freshRouter :: "nat \<Rightarrow> router" where
  "freshRouter n = replicate n \<lparr>peer = emptyExchange, calls = 0\<rparr>"

definition emptyDisk :: disk where
  "emptyDisk = \<lparr>walCurrent = None, walPrevious = None, snapshotFile = None, snapshotTmp = None, ioScript = []\<rparr>"

lemma fresh_ledger:
  "funded 0 (newService c d e p)" "wellFormed (newService c d e p)" "allEntered (newService c d e p)"
  "durable (newService c (emptyDisk\<lparr>ioScript := script\<rparr>) e p)"
proof -
  show "funded 0 (newService c d e p)"
    by (simp add: funded_def ledger_ok_def ledger_pos_def skew_def value_of_def measure_defs newService_def)
  show "wellFormed (newService c d e p)" "allEntered (newService c d e p)"
    by (simp_all add: wellFormed_def indexed_def marketsOk_def liveInOpen_def allEntered_def newService_def)
  show "durable (newService c (emptyDisk\<lparr>ioScript := script\<rparr>) e p)"
    by (simp add: durable_def newService_def emptyDisk_def wholeFiles_def wholeLog_def increasing_def logEvents_def
        diskLedger_def baseLedger_def emptyLedger_def ledger.truncate_def)
qed

lemma fresh_exchange:
  assumes "budget net" and "0 < n" and "EngineOf c = Some (routedTrading net)"
  shows "queueOk (routedTrading net) routerBook (healthyRouter net) 0 (newQueue (newService c d (freshRouter n) p))"
proof -
  let ?s = "newService c d (freshRouter n) p"
  have h: "healthyRouter net (freshRouter n)" "routerBook (freshRouter n) symbol = fmempty" for symbol
    using fresh_router [OF assms(1,2) freshRouter_def] by simp_all
  have "coupled (routerBook (engineState ?s)) ?s"
    using h(2) by (simp add: coupled_def newService_def)
  then have "sound (routedTrading net) routerBook (healthyRouter net) 0 ?s"
    using assms(3) h(1) fresh_ledger(1-3) [of c d "freshRouter n" p] by (simp add: sound_def) (simp add: newService_def)
  then show ?thesis by (simp add: queueOk_def newQueue_def)
qed

text \<open>What a funded ledger says of every account.\<close>

lemma funded_accounts:
  assumes "funded D s"
  shows "cash s + reserved s + 100 * totalYes s = D" "sharesYes s m = sharesNo s m"
    "0 \<le> Balance s u" "Balance s u \<le> D"
    "0 \<le> pYes (PositionOf s u m)" "100 * pYes (PositionOf s u m) \<le> D"
    "0 \<le> pNo (PositionOf s u m)" "100 * pNo (PositionOf s u m) \<le> D"
proof -
  have ok: "ledger_ok s" "value_of s = D" using assms by (simp_all add: funded_def)
  note pos = ledger_ok_pos [OF ok(1)]
  show "cash s + reserved s + 100 * totalYes s = D" using ok(2) by (simp add: value_of_def)
  show "sharesYes s m = sharesNo s m" using ok(1) by (simp add: ledger_ok_def skew_def)
  show "0 \<le> Balance s u" "0 \<le> pYes (PositionOf s u m)" "0 \<le> pNo (PositionOf s u m)"
    using ledger_pos_nonneg [OF pos] by (simp_all add: Balance_def)
  show "100 * pYes (PositionOf s u m) \<le> D" "100 * pNo (PositionOf s u m) \<le> D"
    using position_le_value [OF ok(1), of u m] ok(2) by simp_all
  have "Balance s u \<le> cash s"
  proof (cases "fmlookup (balances s) u")
    case None
    then show ?thesis using ledger_pos_parts [OF pos] by (simp add: Balance_def fmget_def)
  next
    case (Some b)
    then show ?thesis
      using fmsum_member_le [OF Some, of "\<lambda>u b. b"] ledger_posD(2) [OF pos] by (simp add: cash_def Balance_def fmget_def)
  qed
  then show "Balance s u \<le> D" using ok(2) ledger_pos_parts [OF pos] by (simp add: value_of_def)
qed

section \<open>The bound of the queue\<close>

lemma exchange_step_bounded: "exchange_step x y \<Longrightarrow> queueBounded (fst x) \<Longrightarrow> queueBounded (fst y)"
proof (induction rule: exchange_step.induct)
  case (place client ctxErr p q r q' D)
  then have "queueBounded (snd (enqueue client ctxErr p q))" by (intro enqueue_bounded) simp
  then show ?case using place by (auto simp: Place_def queueBounded_def split: if_splits prod.splits)
next
  case (work q q' D)
  then show ?case using drainRound_result(2) [of q q'] by (simp add: queueBounded_def)
qed (simp_all add: queueBounded_def)

lemma queue_run_bounded: "exchange_step\<^sup>*\<^sup>* x y \<Longrightarrow> queueBounded (fst x) \<Longrightarrow> queueBounded (fst y)"
  by (induction rule: rtranclp_induct) (auto intro: exchange_step_bounded)

end
