(* ===== verification/Account_Effects.thy ===== *)
theory Account_Effects
  imports Exchange_Steps
begin

text \<open>
  What a successful operation does to the accounts of its users: a cancellation releases exactly
  what the order still reserved, a resolution pays the winning positions and releases every
  resting order, a deposit credits one balance, and a repeated placement does nothing.
\<close>

lemma accounts_eq_book:
  assumes "book t = book t'"
  shows "Balance t u = Balance t' u" "PositionOf t u m = PositionOf t' u m" "orders t = orders t'" "markets t = markets t'"
  using assms by (simp_all add: book_eq_iff Balance_def PositionOf_def)

lemma Cancel_account:
  assumes "Cancel ctxErr i user s = (None, t)" and "funded D s"
  obtains od where "fmlookup (orders s) i = Some od" "oUserID od = user" "oStatus od = Open \<or> oStatus od = Partial"
    "orders t = fmupd i (od\<lparr>oStatus := Cancelled\<rparr>) (orders s)" "markets t = markets s"
    "\<And>u. Balance t u = Balance s u + (if u = user then lockedCash od else 0)"
    "\<And>u m. pYes (PositionOf t u m) = pYes (PositionOf s u m) + (if u = user \<and> m = oMarketID od then lockedYes od else 0)"
    "\<And>u m. pNo (PositionOf t u m) = pNo (PositionOf s u m) + (if u = user \<and> m = oMarketID od then lockedNo od else 0)"
  using assms(1)
proof (cases rule: Cancel_cases)
  case (cancelled od t1)
  let ?es = "cancelEvents (oMarketID od) od"
  have same: "same_ledger s t1" using removeFromEngine_same [OF cancelled(5)] by simp
  then have b1: "book t1 = book s" by (simp add: same_ledger_def)
  have live: "live od" using cancelled(3) by (auto simp: live_def)
  have f1: "funded D t1" using assms(2) funded_same [OF same] by simp
  have at1: "fmlookup (orders (book s)) i = Some od" using cancelled(1) by simp
  have pos: "ledger_pos (book s)" using funded_pos [of D "book s"] assms(2) by simp
  note c = cancel_ideal [OF at1 live pos]
  have "funded D (ideal_all ?es (book t1))"
    using c assms(2) measures_frame [of "book s" s] unfolding b1 by (intro fundedI) (simp_all add: funded_def ledger_ok_def)
  then have "book t = book (ideal_all ?es (book s))" using commit_publish_funded(1) [OF cancelled(6) f1] b1 by simp
  note eq = accounts_eq_book [OF this]
  have ok: "order_ok i od" using ledger_posD(1) [OF funded_pos [OF assms(2)] cancelled(1)] .
  note ca = cancel_account [OF ok live, of "book s"]
  show thesis
  proof (rule that [OF cancelled(1-3)])
    show "orders t = fmupd i (od\<lparr>oStatus := Cancelled\<rparr>) (orders s)" "markets t = markets s" using c eq(3,4) by simp_all
  qed (use eq(1,2) ca cancelled(2) in auto)
qed simp

lemma ResolveFor_account:
  assumes "ResolveFor ctxErr i yes owner s = (None, t)" and "funded D s"
  shows "\<exists>m. fmlookup (markets s) i = Some m \<and> mStatus m = Open \<and> (mOwnerID m = [] \<or> mOwnerID m = owner) \<and>
      markets t = fmupd (mID m) (resolvedMarket m yes) (markets s)"
    and "Balance t u = Balance s u + heldFor lockedCash s (restingIn i s) u + 100 * payoutOf yes (PositionOf s u i)"
    and "pYes (PositionOf t u m') = (if m' = i then heldFor lockedYes s (restingIn i s) u else pYes (PositionOf s u m'))"
    and "pNo (PositionOf t u m') = (if m' = i then heldFor lockedNo s (restingIn i s) u else pNo (PositionOf s u m'))"
    and "fmlookup (orders t) k = (if k \<in> set (restingIn i s) then Some ((orderIn s k)\<lparr>oStatus := Cancelled\<rparr>)
      else fmlookup (orders s) k)"
proof -
  obtain m where m: "fmlookup (markets s) i = Some m" "mStatus m = Open" "mOwnerID m = [] \<or> mOwnerID m = owner"
      "book t = book (ideal_all (resolution i yes m (book s)) (book s))"
    by (rule ResolveFor_ideal [OF assms])
  note eq = accounts_eq_book [OF m(4)]
  have f: "funded D (book s)" using assms(2) by simp
  note r = resolution_ideal [OF f, of i yes m]
  show "\<exists>m. fmlookup (markets s) i = Some m \<and> mStatus m = Open \<and> (mOwnerID m = [] \<or> mOwnerID m = owner) \<and>
      markets t = fmupd (mID m) (resolvedMarket m yes) (markets s)"
    using m(1-3) eq(4) r(2) by auto
  show "Balance t u = Balance s u + heldFor lockedCash s (restingIn i s) u + 100 * payoutOf yes (PositionOf s u i)"
    using eq(1) [of u] r(6) [of u] by simp
  show "pYes (PositionOf t u m') = (if m' = i then heldFor lockedYes s (restingIn i s) u else pYes (PositionOf s u m'))"
    using eq(2) [of u m'] r(7) [of u m'] by simp
  show "pNo (PositionOf t u m') = (if m' = i then heldFor lockedNo s (restingIn i s) u else pNo (PositionOf s u m'))"
    using eq(2) [of u m'] r(8) [of u m'] by simp
  show "fmlookup (orders t) k = (if k \<in> set (restingIn i s) then Some ((orderIn s k)\<lparr>oStatus := Cancelled\<rparr>)
      else fmlookup (orders s) k)"
    using eq(3) r(3) [of k] by simp
qed

lemma Deposit_account:
  assumes "Deposit user cents s = (None, t)" and "funded D s" and "D + cents \<le> int64_max"
  shows "Balance t u = Balance s u + (if u = user then cents else 0)" and "orders t = orders s" and "markets t = markets s"
    and "PositionOf t u m = PositionOf s u m"
proof -
  have "book t = book (ideal_balance user cents (book s))" using Deposit_funded(1) [OF assms] by simp
  note eq = accounts_eq_book [OF this]
  show "Balance t u = Balance s u + (if u = user then cents else 0)" using eq(1) [of u] by simp
  show "orders t = orders s" "markets t = markets s" "PositionOf t u m = PositionOf s u m" using eq(2) [of u m] eq(3,4) by simp_all
qed

text \<open>A client that repeats an order gets the same answer and no second order.\<close>

lemma repeated_placement:
  assumes "fmlookup (orders s) (oID od) = Some od'" and "sameParams od' od" and "failure s = None"
    and "0 < oQuantity od" "oQuantity od \<le> uint32_max" "oID od \<noteq> []" "oUserID od \<noteq> []"
  shows "placeSingle None od s = (None, s)"
proof -
  have "int (u64 (oQuantity od)) = oQuantity od" using assms(4,5) by (simp add: u64_def take_bit_int_eq_self)
  then have "prepareOrder s od = Inr []" using assms by (simp add: prepareOrder_def)
  then show ?thesis using assms(3) by (simp add: placeSingle_def)
qed

lemma different_placement:
  assumes "fmlookup (orders s) (oID od) = Some od'" and "\<not> sameParams od' od" and "failure s = None"
    and "0 < oQuantity od" "oQuantity od \<le> uint32_max" "oID od \<noteq> []" "oUserID od \<noteq> []"
  shows "placeSingle None od s = (Some (New ''order id already exists with different parameters''), s)"
proof -
  have "int (u64 (oQuantity od)) = oQuantity od" using assms(4,5) by (simp add: u64_def take_bit_int_eq_self)
  then show ?thesis using assms by (simp add: placeSingle_def prepareOrder_def)
qed

text \<open>Exactly the orders the account covers are admitted.\<close>

lemma prepareOrder_iff:
  assumes "submission od"
  shows "(\<exists>e es. prepareOrder s od = Inr (e # es)) \<longleftrightarrow>
      oID od \<noteq> [] \<and> oUserID od \<noteq> [] \<and> 0 < oQuantity od \<and> oQuantity od < 2 ^ 32 \<and> fmlookup (orders s) (oID od) = None \<and>
      (\<exists>m. fmlookup (markets s) (oMarketID od) = Some m \<and> mStatus m = Open) \<and> 1 \<le> oPrice od \<and> oPrice od \<le> 99 \<and>
      (case oSide od of
         BuyYes \<Rightarrow> oPrice od * oQuantity od \<le> Balance s (oUserID od)
       | BuyNo \<Rightarrow> oPrice od * oQuantity od \<le> Balance s (oUserID od)
       | SellYes \<Rightarrow> oQuantity od \<le> pYes (PositionOf s (oUserID od) (oMarketID od))
       | SellNo \<Rightarrow> oQuantity od \<le> pNo (PositionOf s (oUserID od) (oMarketID od))
       | OtherSide _ \<Rightarrow> False)"
proof (cases "0 < oQuantity od \<and> oQuantity od < 2 ^ 32 \<and> 1 \<le> oPrice od \<and> oPrice od \<le> 99")
  case True
  have q: "int (u64 (oQuantity od)) = oQuantity od" using True by (simp add: u64_def take_bit_int_eq_self)
  have "oPrice od * oQuantity od \<le> 99 * 2 ^ 32" using True by (intro mult_mono) auto
  moreover have "0 < oPrice od * oQuantity od" using True by simp
  ultimately have c: "i64 (oPrice od * oQuantity od) = oPrice od * oQuantity od" by (intro i64_id) (simp add: in_i64_def)
  show ?thesis
    using True q c
    by (cases "oSide od") (auto simp: prepareOrder_def translate_def reservationEvents_def Let_def
        split: option.splits if_splits)
next
  case False
  have "\<nexists>e es. prepareOrder s od = Inr (e # es)"
  proof
    assume "\<exists>e es. prepareOrder s od = Inr (e # es)"
    then obtain e es where p: "prepareOrder s od = Inr (e # es)" by blast
    obtain od' where od': "order_ok (oID od) od'" "oPrice od' = oPrice od" "oQuantity od' = oQuantity od"
      by (rule prepareOrder_admits [OF p _ assms]) auto
    then show False using False order_ok_price [OF od'(1)] by (auto simp: order_ok_def)
  qed
  then show ?thesis using False by blast
qed

end
