(* ===== verification/Book_Quotes.thy ===== *)
theory Book_Quotes
  imports Book_Matching
begin

text \<open>
  The quotes of a book (\<^verbatim>\<open>get_best_bid\<close>, \<^verbatim>\<open>get_best_ask\<close> of orderbook.cpp): they skip levels
  that hold only tombstones, so they are the best prices among the resting orders, and a book
  that operations of the engine produced is never quoted crossed.
\<close>

definition restingAt :: "CSide \<Rightarrow> OrderBook \<Rightarrow> int \<Rightarrow> bool" where
  "restingAt side ob p \<longleftrightarrow> (\<exists>j r. fmlookup (restsOf ob) j = Some r \<and> rSide r = sideText side \<and> rPrice r = p)"

lemma alive_level:
  assumes "bookInv ob"
  shows "restingAt side ob p \<longleftrightarrow>
    p |\<in>| fmdom (levelsOf side ob) \<and> firstAlive (fmget [] (levelsOf side ob) p) \<noteq> None"
proof
  assume "restingAt side ob p"
  then obtain j r where r: "fmlookup (restsOf ob) j = Some r" "rSide r = sideText side" "rPrice r = p" by (auto simp: restingAt_def)
  obtain loc b where b: "orderAt ob loc = Some b" "\<not> bDeleted b" "rSide r = sideText (lSide loc)" "rPrice r = lPrice loc"
      "lPrice loc |\<in>| fmdom (levelsOf (lSide loc) ob)"
    by (rule rest_location [OF assms r(1)])
  have "lSide loc = side" "lPrice loc = p" using b(3,4) r(2,3) by simp_all
  moreover from this have "b \<in> set (fmget [] (levelsOf side ob) p)"
    using b(1) by (auto simp: orderAt_def fmget_def split: option.splits if_splits)
  ultimately show "p |\<in>| fmdom (levelsOf side ob) \<and> firstAlive (fmget [] (levelsOf side ob) p) \<noteq> None"
    using b(2,5) firstAlive_None by metis
next
  assume a: "p |\<in>| fmdom (levelsOf side ob) \<and> firstAlive (fmget [] (levelsOf side ob) p) \<noteq> None"
  then obtain i where i: "firstAlive (fmget [] (levelsOf side ob) p) = Some i" by blast
  let ?b = "fmget [] (levelsOf side ob) p ! i" and ?loc = "\<lparr>lSide = side, lPrice = p, lIndex = i\<rparr>"
  have "orderAt ob ?loc = Some ?b" "\<not> bDeleted ?b"
    using a firstAlive_Some(1,2) [OF i] by (auto simp: orderAt_def fmget_def fmlookup_dom_iff split: option.splits)
  then have "fmlookup (restsOf ob) (bID ?b) = Some (restB ?b)" "bSide ?b = side" "bPrice ?b = p"
    using restsOf_iff [OF assms] bookInvD(2,3) [OF assms, of ?loc ?b] by auto
  moreover from this have "rSide (restB ?b) = sideText side" "rPrice (restB ?b) = p" by (simp_all add: restB_def)
  ultimately show "restingAt side ob p" unfolding restingAt_def by blast
qed

lemma find_sorted:
  fixes x :: "'a::linorder"
  assumes "find P xs = Some x" and "sorted xs"
  shows "x \<in> set xs" and "P x" and "y \<in> set xs \<Longrightarrow> P y \<Longrightarrow> x \<le> y"
  using assms by (induction xs) (auto split: if_splits)

lemma find_rev_sorted:
  fixes x :: "'a::linorder"
  assumes "find P (rev xs) = Some x" and "sorted xs"
  shows "x \<in> set xs" and "P x" and "y \<in> set xs \<Longrightarrow> P y \<Longrightarrow> y \<le> x"
proof -
  have "x \<in> set xs \<and> P x \<and> (\<forall>y\<in>set xs. P y \<longrightarrow> y \<le> x)"
    using assms by (induction xs rule: rev_induct) (auto simp: sorted_append split: if_splits)
  then show "x \<in> set xs" "P x" "y \<in> set xs \<Longrightarrow> P y \<Longrightarrow> y \<le> x" by blast+
qed

lemma levels_keys [simp]: "set (sorted_list_of_fset (fmdom m)) = {p. p |\<in>| fmdom m}"
  by (auto simp: set_sorted_keys fmlookup_dom'_iff fmlookup_dom_iff)

lemma best_ask_spec:
  assumes "bookInv ob"
  shows "(\<nexists>p. restingAt Sell ob p) \<Longrightarrow> get_best_ask ob = -1"
    and "restingAt Sell ob p \<Longrightarrow> restingAt Sell ob (get_best_ask ob) \<and> get_best_ask ob \<le> p"
proof -
  let ?P = "\<lambda>p. firstAlive (fmget [] (asks ob) p) \<noteq> None" and ?xs = "sorted_list_of_fset (fmdom (asks ob))"
  have at: "restingAt Sell ob p \<longleftrightarrow> p \<in> set ?xs \<and> ?P p" for p using alive_level [OF assms, of Sell p] by (simp add: levelsOf_def)
  show "(\<nexists>p. restingAt Sell ob p) \<Longrightarrow> get_best_ask ob = -1"
    using at find_sorted(1,2) [of ?P ?xs] by (cases "find ?P ?xs") (auto simp: get_best_ask_def)
  assume "restingAt Sell ob p"
  then obtain q where q: "find ?P ?xs = Some q" using at find_None_iff [of ?P ?xs] by (metis option.exhaust)
  show "restingAt Sell ob (get_best_ask ob) \<and> get_best_ask ob \<le> p"
    using find_sorted [OF q] at \<open>restingAt Sell ob p\<close> q by (simp add: get_best_ask_def)
qed

lemma best_bid_spec:
  assumes "bookInv ob"
  shows "(\<nexists>p. restingAt Buy ob p) \<Longrightarrow> get_best_bid ob = -1"
    and "restingAt Buy ob p \<Longrightarrow> restingAt Buy ob (get_best_bid ob) \<and> p \<le> get_best_bid ob"
proof -
  let ?P = "\<lambda>p. firstAlive (fmget [] (bids ob) p) \<noteq> None" and ?xs = "sorted_list_of_fset (fmdom (bids ob))"
  have at: "restingAt Buy ob p \<longleftrightarrow> p \<in> set ?xs \<and> ?P p" for p using alive_level [OF assms, of Buy p] by (simp add: levelsOf_def)
  show "(\<nexists>p. restingAt Buy ob p) \<Longrightarrow> get_best_bid ob = -1"
    using at find_rev_sorted(1,2) [of ?P ?xs] by (cases "find ?P (rev ?xs)") (auto simp: get_best_bid_def)
  assume "restingAt Buy ob p"
  then obtain q where q: "find ?P (rev ?xs) = Some q" using at find_None_iff [of ?P "rev ?xs"] by (metis option.exhaust set_rev)
  show "restingAt Buy ob (get_best_bid ob) \<and> p \<le> get_best_bid ob"
    using find_rev_sorted [OF q] at \<open>restingAt Buy ob p\<close> q by (simp add: get_best_bid_def)
qed

lemma quote_uncrossed:
  assumes "bookGood lim ob" and "get_best_bid ob \<noteq> -1" and "get_best_ask ob \<noteq> -1"
  shows "get_best_bid ob < get_best_ask ob"
proof -
  note inv = bookGoodD(1) [OF assms(1)]
  obtain b where b: "restingAt Buy ob b" using best_bid_spec(1) [OF inv] assms(2) by blast
  obtain a where a: "restingAt Sell ob a" using best_ask_spec(1) [OF inv] assms(3) by blast
  have "restingAt Buy ob (get_best_bid ob)" "restingAt Sell ob (get_best_ask ob)"
    using best_bid_spec(2) [OF inv b] best_ask_spec(2) [OF inv a] by simp_all
  then obtain i r j t where r: "fmlookup (restsOf ob) i = Some r" "rSide r = sideText Buy" "rPrice r = get_best_bid ob"
      and t: "fmlookup (restsOf ob) j = Some t" "rSide t = sideText Sell" "rPrice t = get_best_ask ob"
    unfolding restingAt_def by blast
  have "rPrice r < rPrice t"
    using bookGoodD(3) [OF assms(1)] r(1,2) t(1,2) unfolding bookUncrossed_iff by simp
  then show ?thesis using r(3) t(3) by simp
qed

end
