(* ===== verification/Sample_Book.thy ===== *)
theory Sample_Book
  imports Book_Quotes Engine_Client
begin

text \<open>
  A book to run the engine on: an ask of ten shares at 40 cents, then a bid of four shares at
  50 cents that trades with it at 40.
\<close>

definition ask40 :: BookOrder where
  "ask40 = (newOrder 40 10 Sell)\<lparr>bID := 1\<rparr>"

definition bid50 :: BookOrder where
  "bid50 = (newOrder 50 4 Buy)\<lparr>bID := 2\<rparr>"

definition restingBook :: OrderBook where
  "restingBook = snd (book_add_order ask40 emptyBook)"

lemma resting_good: "bookGood 2 restingBook"
proof -
  obtain od ts ob where res: "book_add_order ask40 emptyBook = ((od, ts), ob)" by (metis prod.exhaust)
  then show ?thesis
    using book_add_order_spec(1) [OF emptyBook_good(1) _ _ _ _ res, of 1]
    by (simp add: restingBook_def ask40_def newOrder_def numeral_2_eq_2)
qed

lemma sorted_single [simp]: "sorted_list_of_fset {|x|} = [x]" "sorted_list_of_fset {||} = []"
  by (simp_all add: sorted_list_of_fset.rep_eq)

lemma fcard_small [simp]: "fcard {|x|} = 1" "fcard {||} = 0"
  by (simp_all add: fcard.rep_eq)

lemma resting_book:
  "restingBook = \<lparr>asks = fmupd 40 [ask40] fmempty, bids = fmempty,
     order_lookup = fmupd 1 \<lparr>lSide = Sell, lPrice = 40, lIndex = 0\<rparr> fmempty,
     orderbook_timestamp = 1, nextBookID = 0, bookTrades = [], deleted_orders_count = 0, total_orders_count = 1\<rparr>"
  by (simp add: restingBook_def book_add_order_def ask40_def newOrder_def emptyBook_def matchFuel_def levelsOf_def opposite_def
      restIn_def setLevels_def fmget_def numeral_2_eq_2 Let_def)

lemma resting_trade:
  "fst (book_add_order bid50 restingBook) =
    (bid50\<lparr>bTimestamp := 1, bQuantity := 0\<rparr>, [\<lparr>etBuyOrderID = 2, etSellOrderID = 1, etPrice = 40, etQuantity = 4\<rparr>])"
  by (simp add: resting_book bid50_def ask40_def book_add_order_def newOrder_def matchFuel_def levelsOf_def opposite_def
      bestPrice_def tradePossible_def newTrade_def fillExisting_def setOrder_def
      restIn_def setLevels_def fmget_def numeral_2_eq_2 Let_def eval_nat_numeral)

text \<open>A network that delivers every message within the budget.\<close>

definition sampleNet :: network where
  "sampleNet p k = (if k < maxCalls then Delivered else RequestLost)"

lemma sample_budget: "budget sampleNet"
  by (simp add: budget_def sampleNet_def)

text \<open>Two engines with a book each: the symbols fall to different engines.\<close>

definition twoBooks :: router where
  "twoBooks = [\<lparr>peer = exch_add_book ''A'' emptyExchange, calls = 1\<rparr>, \<lparr>peer = exch_add_book ''B'' emptyExchange, calls = 1\<rparr>]"

definition twoOrders :: "EngineOrder list" where
  "twoOrders = [\<lparr>eoSymbol = ''A'', eoPrice = 40, eoQuantity = 10, eoSide = ''sell''\<rparr>,
     \<lparr>eoSymbol = ''B'', eoPrice = 30, eoQuantity = 5, eoSide = ''buy''\<rparr>]"

lemma partitions [simp]: "partitionOf ''A'' 2 = 0" "partitionOf ''B'' 2 = 1"
  by (simp_all add: partitionOf_def fnv32a_def)

lemma two_healthy: "healthyRouter sampleNet twoBooks"
  using emptyExchange_good exch_add_book_good(1) [OF emptyExchange_good(1)]
  by (auto simp: healthyRouter_def sample_budget twoBooks_def clientGood_def exch_add_book_def emptyExchange_def)

lemma one_submitted:
  assumes "eoSymbol od = symbol" and "0 < eoPrice od" and "eoPrice od < 100" and "0 < eoQuantity od"
    and "eoSide od = ''buy'' \<or> eoSide od = ''sell''"
  shows "\<exists>batch c'. adapterAddOrders Delivered \<lparr>peer = exch_add_book symbol emptyExchange, calls = 1\<rparr> [od] = (Inr batch, c')"
  using assms
  by (auto simp: adapterAddOrders_def rpc_def srvAddOrders_def submissionOf_def exch_add_orders_def exch_add_book_def emptyExchange_def
      plainRpc_def drawID_def Let_def split: prod.splits)

lemma two_submitted: "\<exists>batch cs'. routedAddOrders sampleNet twoBooks twoOrders = (Inr batch, cs')"
proof -
  obtain b c where a: "adapterAddOrders Delivered (twoBooks ! 0) [twoOrders ! 0] = (Inr b, c)"
    using one_submitted [of "twoOrders ! 0"] by (auto simp: twoBooks_def twoOrders_def)
  obtain b' c' where b: "adapterAddOrders Delivered (twoBooks ! 1) [twoOrders ! 1] = (Inr b', c')"
    using one_submitted [of "twoOrders ! 1"] by (auto simp: twoBooks_def twoOrders_def)
  have n: "length twoBooks = 2" "length twoOrders = 2" "twoOrders \<noteq> []" "[0..<2] = [0, 1]"
      "sampleNet p (calls (twoBooks ! 0)) = Delivered" "sampleNet p (calls (twoBooks ! 1)) = Delivered"
      "groupOf 2 0 twoOrders = [twoOrders ! 0]" "groupOf 2 1 twoOrders = [twoOrders ! 1]" for p
    by (simp_all add: twoBooks_def twoOrders_def sampleNet_def groupOf_def upt_rec numeral_2_eq_2 [symmetric])
  show ?thesis using a b n by (simp add: routedAddOrders_def atClient_def Let_def)
qed

end
