(* ===== verification/Sample_Exchange.thy ===== *)
theory Sample_Exchange
  imports Account_Effects Sample_Book
begin

text \<open>
  A small exchange to run the definitions on: two engines behind a network that delivers every
  message within the budget, no projection, batches of up to 32 orders, and empty files.
\<close>

definition sampleConfig :: "(router, unit) Config" where
  "sampleConfig = \<lparr>WALPath = ''wal'', SnapshotPath = ''snapshot'', EngineOf = Some (routedTrading sampleNet),
     ProjectorOf = None, SyncWAL = True, OrderBatchSize = 32, DisableEngineBatch = False, PublishQuotes = True,
     newUUID = (\<lambda>n. replicate (Suc n) CHR ''u''), recordLen = (\<lambda>_. 100)\<rparr>"

definition sampleService :: "(router, unit) Service" where
  "sampleService = newService sampleConfig emptyDisk (freshRouter 2) ()"

lemma sample_config [simp]:
  "WALPath sampleConfig = ''wal''" "SnapshotPath sampleConfig = ''snapshot''"
  "EngineOf sampleConfig = Some (routedTrading sampleNet)" "ProjectorOf sampleConfig = None" "SyncWAL sampleConfig"
  "OrderBatchSize sampleConfig = 32" "\<not> DisableEngineBatch sampleConfig" "PublishQuotes sampleConfig"
  "recordLen sampleConfig l = 100"
  by (simp_all add: sampleConfig_def)

lemma sample_fields [simp]:
  "markets sampleService = fmempty" "orders sampleService = fmempty" "engineOrders sampleService = fmempty"
  "balances sampleService = fmempty" "positions sampleService = fmempty" "sequence sampleService = 0"
  "cfg sampleService = sampleConfig" "failure sampleService = None" "walFile sampleService = False"
  "disk sampleService = emptyDisk" "engineState sampleService = freshRouter 2" "uuidCount sampleService = 0"
  by (simp_all add: sampleService_def newService_def)

lemma sample_sound: "queueOk (routedTrading sampleNet) routerBook (healthyRouter sampleNet) 0 (newQueue sampleService)"
  unfolding sampleService_def by (rule fresh_exchange [OF sample_budget]) simp_all

lemma sample_commit:
  "\<exists>t. commitMany [e] sampleService = (None, t) \<and> durable t"
proof -
  have "\<exists>t. commitMany [e] sampleService = (None, t)"
    by (simp add: commitMany_def next_event_def Let_def appendMany_def openWAL_def syncDirectory_def writeLine_def
        osTry_def osCall_def setWal_def emptyDisk_def maxWALRecord_def)
  then obtain t where t: "commitMany [e] sampleService = (None, t)" by blast
  have "durable sampleService"
    using fresh_ledger(4) [of sampleConfig "[]" "freshRouter 2" "()"] by (simp add: sampleService_def emptyDisk_def)
  then show ?thesis using commit_durable(1) [OF t] t by simp
qed

lemma sample_deposit: "\<exists>t. Deposit ''alice'' 500 sampleService = (None, t)"
  using sample_commit by (auto simp: Deposit_def commit_def)

text \<open>A deposit of 5 dollars.\<close>

lemma sample_run: "\<exists>q. exchange_step\<^sup>*\<^sup>* (newQueue sampleService, 0) (q, 500)"
proof -
  obtain s where "Deposit ''alice'' 500 sampleService = (None, s)" using sample_deposit by blast
  then have "exchange_step (newQueue sampleService, 0) ((newQueue sampleService)\<lparr>qService := s\<rparr>, 500)"
    using exchange_step.deposit [of "''alice''" 500 "newQueue sampleService" None s 0] by (simp add: newQueue_def)
  then show ?thesis by blast
qed

definition samplePlacement :: placement where
  "samplePlacement = \<lparr>plCtx = None, plOrder = Order0\<lparr>oID := ''o1'', oUserID := ''alice'', oMarketID := ''m1'', oSide := BuyYes,
     oPrice := 40, oQuantity := 10\<rparr>\<rparr>"

text \<open>The same exchange on a disk that tears the first record in two.\<close>

definition tornService :: "(router, unit) Service" where
  "tornService = newService sampleConfig (emptyDisk\<lparr>ioScript := [IoOk, IoOk, IoOk, IoOk, IoTorn (External ''disk full'')]\<rparr>)
     (freshRouter 2) ()"

lemma torn_fields [simp]:
  "sequence tornService = 0" "cfg tornService = sampleConfig" "failure tornService = None" "walFile tornService = False"
  "disk tornService = emptyDisk\<lparr>ioScript := [IoOk, IoOk, IoOk, IoOk, IoTorn (External ''disk full'')]\<rparr>"
  "uuidCount tornService = 0"
  by (simp_all add: tornService_def newService_def)

lemma torn_durable: "durable tornService" "durable sampleService"
  using fresh_ledger(4) [of sampleConfig _ "freshRouter 2" "()"] fresh_ledger(4) [of sampleConfig "[]" "freshRouter 2" "()"]
  by (simp_all add: tornService_def sampleService_def emptyDisk_def)

lemma torn_commit: "\<exists>err t. commitMany [e] tornService = (Some err, t)"
  by (simp add: commitMany_def next_event_def Let_def appendMany_def openWAL_def syncDirectory_def writeLine_def
      osTry_def osCall_def setWal_def emptyDisk_def maxWALRecord_def fail_def)

text \<open>
  A market without engine in which bob bids 40 cents for 10 YES shares: 4 of his 5 dollars are
  reserved.
\<close>

definition heldOrder :: Order where
  "heldOrder = Order0\<lparr>oID := ''o1'', oUserID := ''bob'', oMarketID := ''m1'', oSide := BuyYes, oPrice := 40, oQuantity := 10,
     oEnginePrice := 40, oEngineSide := ''buy'', oStatus := Open\<rparr>"

definition heldMarket :: Market where
  "heldMarket = \<lparr>mID = ''m1'', mSymbol = ''S'', mOwnerID = ''carol'', mStatus = Open\<rparr>"

definition heldService :: "(router, unit) Service" where
  "heldService = sampleService\<lparr>cfg := sampleConfig\<lparr>EngineOf := None\<rparr>, markets := fmupd ''m1'' heldMarket fmempty,
     orders := fmupd ''o1'' heldOrder fmempty, balances := fmupd ''bob'' 100 fmempty\<rparr>"

lemma held_fields [simp]:
  "markets heldService = fmupd ''m1'' heldMarket fmempty" "orders heldService = fmupd ''o1'' heldOrder fmempty"
  "balances heldService = fmupd ''bob'' 100 fmempty" "positions heldService = fmempty" "failure heldService = None"
  "cfg heldService = sampleConfig\<lparr>EngineOf := None\<rparr>" "disk heldService = emptyDisk" "walFile heldService = False"
  "sequence heldService = 0" "uuidCount heldService = 0"
  by (simp_all add: heldService_def)

lemma held_order [simp]:
  "oID heldOrder = ''o1''" "oUserID heldOrder = ''bob''" "oMarketID heldOrder = ''m1''" "oSide heldOrder = BuyYes"
  "oPrice heldOrder = 40" "oQuantity heldOrder = 10" "oFilledQuantity heldOrder = 0" "oStatus heldOrder = Open"
  "oEnginePrice heldOrder = 40" "oEngineSide heldOrder = ''buy''" "oEngineID heldOrder = 0" "live heldOrder"
  by (simp_all add: heldOrder_def Order0_def live_def)

lemma held_market [simp]: "mID heldMarket = ''m1''" "mSymbol heldMarket = ''S''" "mOwnerID heldMarket = ''carol''" "mStatus heldMarket = Open"
  by (simp_all add: heldMarket_def)

lemma fmsum_single [simp]: "fmsum f (fmupd k v fmempty) = f k v"
  using fmsum_upd [of f k v fmempty] by simp

lemma held_funded: "funded 500 heldService"
  by (simp add: funded_def ledger_ok_def ledger_pos_def skew_def value_of_def measure_defs lockedCash_def lockedYes_def lockedNo_def
      remaining_def order_ok_def translate_def)

text \<open>Commits without projection succeed on a disk that works.\<close>

lemma calm_commit:
  assumes "failure s = None" and "ioScript (disk s) = []" and "recordLen (cfg s) = (\<lambda>_. 100)" and "ProjectorOf (cfg s) = None"
  shows "\<exists>t. commitMany es s = (None, t) \<and> ioScript (disk t) = []"
proof -
  obtain es1 s1 where n: "nextAll es s = (es1, s1)" by (rule prod.exhaust)
  have k: "disk s1 = disk s" "cfg s1 = cfg s" using nextAll_keeps [OF n] by (simp_all add: keeps_def)
  have "\<exists>u. appendMany es1 s1 = (None, u) \<and> ioScript (disk u) = [] \<and> cfg u = cfg s"
    using assms(2,3) k by (simp add: appendMany_def openWAL_def syncDirectory_def writeLine_def osTry_def osCall_def setWal_def maxWALRecord_def Let_def)
  then show ?thesis using assms(1,4) n by (auto simp: commitMany_def)
qed

lemma held_commit: "\<exists>t. commitMany es heldService = (None, t)"
proof -
  have "recordLen (cfg heldService) = (\<lambda>_. 100)" by (simp add: sampleConfig_def)
  then show ?thesis using calm_commit [of heldService es] by (auto simp: emptyDisk_def)
qed

lemma held_cancel: "\<exists>t. Cancel None ''o1'' ''bob'' heldService = (None, t)"
proof -
  obtain t where t: "commitMany (cancelEvents ''m1'' heldOrder) heldService = (None, t)" using held_commit by blast
  have "fst (quoteAndPublish [''m1''] [] t) = None" by (rule quoteAndPublish_ok)
  then have "\<exists>u. quoteAndPublish [''m1''] [] t = (None, u)" by (metis prod.collapse)
  then show ?thesis using t by (simp add: Cancel_def removeFromEngine_def)
qed

lemma held_resting: "restingIn ''m1'' heldService = [''o1'']"
  by (simp add: restingIn_def)

lemma held_resolve: "\<exists>t. ResolveFor None ''m1'' True ''carol'' heldService = (None, t)"
proof -
  let ?es = "cancelEvents ''m1'' heldOrder @ [Event0\<lparr>eType := EventMarket, eMarket := resolvedMarket heldMarket True\<rparr>]"
  obtain t where t: "commitMany ?es heldService = (None, t)" using held_commit by blast
  have "removeFromEngine ''S'' 0 heldService = (Inr True, heldService)" by (simp add: removeFromEngine_def)
  then show ?thesis using t by (simp add: ResolveFor_def held_resting payoutEvents_def)
qed

end
