(* ===== verification/Recorded_Operations.thy ===== *)
theory Recorded_Operations
  imports Exchange_Steps
begin

text \<open>
  What every operation leaves behind beside the books: all changes of the accounting state go
  through commits of plain events, so whatever a commit keeps - the files in step with the
  state, the tables of the projection - every request keeps. The locale states the interface once;
  the theories of the files and of the projection provide it.
\<close>

section \<open>Plain events\<close>

text \<open>
  The events the operations commit: their ID is still to be drawn, whoever gains or pays is named,
  and so is the owner of an order; and an order has the terms that are given for its ID.
\<close>

definition plainEvent :: "(string \<Rightarrow> terms) \<Rightarrow> Event \<Rightarrow> bool" where
  "plainEvent T e \<longleftrightarrow> eID e = [] \<and> (eAmount e \<noteq> 0 \<or> eType e = EventPosition \<longrightarrow> eUserID e \<noteq> []) \<and>
     (eType e = EventOrder \<longrightarrow> oUserID (eOrder e) \<noteq> [] \<and> orderTerms (eOrder e) = T (oID (eOrder e)))"

text \<open>The terms that the recorded orders have.\<close>

definition bound :: "'a ledger_scheme \<Rightarrow> string \<Rightarrow> terms" where
  "bound s i = orderTerms (fmget Order0 (orders s) i)"

lemma fits_bound [simp]: "fits_terms (bound s) s"
  by (simp add: fits_terms_def bound_def fmget_def)

lemma fits_upd: "fits_terms T s \<Longrightarrow> fmlookup (orders s) i = None \<Longrightarrow> fits_terms (T(i := x)) s"
  by (auto simp: fits_terms_def)

definition named :: "'a ledger_scheme \<Rightarrow> bool" where
  "named s \<longleftrightarrow> (\<forall>i od. fmlookup (orders s) i = Some od \<longrightarrow> oID od = i \<and> oUserID od \<noteq> []) \<and> fmlookup (positions s) [] = None \<and>
     (\<forall>k i. fmlookup (engineOrders s) k = Some i \<longrightarrow> fmlookup (orders s) i \<noteq> None)"

lemma named_frame:
  assumes "orders t = orders s" and "positions t = positions s" and "engineOrders t = engineOrders s"
  shows "named t = named s"
  by (simp add: named_def assms)

lemma named_book: "book t = book s \<Longrightarrow> named t = named s"
  by (intro named_frame) (simp_all add: book_eq_iff)

lemma named_update [simp]:
  "named (s\<lparr>balances := b\<rparr>) = named s" "named (s\<lparr>sequence := n\<rparr>) = named s" "named (s\<lparr>markets := m\<rparr>) = named s"
  by (simp_all add: named_def)

lemma putOrder_index:
  assumes "fmlookup (engineOrders (putOrder od s)) k = Some i"
  shows "i = oID od \<or> fmlookup (engineOrders s) k = Some i"
  using assms by (auto simp: putOrder_def Let_def split: if_splits option.splits)

lemma named_putOrder:
  assumes "named s" and "oUserID od \<noteq> []"
  shows "named (putOrder od s)"
proof -
  have f: "orders (putOrder od s) = fmupd (oID od) od (orders s)" "positions (putOrder od s) = positions s"
    by (simp_all add: putOrder_def Let_def)
  have "fmlookup (orders (putOrder od s)) i \<noteq> None" if "fmlookup (engineOrders (putOrder od s)) k = Some i" for k i
    using putOrder_index [OF that] assms(1) f(1) unfolding named_def by (cases k) auto
  then show ?thesis using assms f unfolding named_def by simp
qed

lemma named_event:
  assumes "named s" and "plainEvent T e"
  shows "named (apply_event e s)"
proof -
  let ?s = "if sequence s < eSequence e then s\<lparr>sequence := eSequence e\<rparr> else s"
  have s: "named ?s" using assms(1) by simp
  have pay: "named (addBalance u a t) = named t" for u a and t :: "'a ledger_scheme" by (simp add: addBalance_def)
  show ?thesis
  proof (cases "eType e")
    case EventOrder
    have "named (putOrder (eOrder e) ?s)" using s assms(2) EventOrder by (intro named_putOrder) (simp_all add: plainEvent_def)
    then show ?thesis using EventOrder pay unfolding apply_event_def Let_def EventOrder by simp
  next
    case EventPosition
    then have "named (addPosition (eUserID e) (eMarketID e) (eYesDelta e) (eNoDelta e) ?s)"
      using s assms(2) by (simp add: named_def plainEvent_def addPosition_def Let_def)
    then show ?thesis using pay unfolding apply_event_def Let_def EventPosition by simp
  qed (use s pay in \<open>simp_all add: apply_event_def Let_def\<close>)
qed

lemma named_all: "named s \<Longrightarrow> list_all (plainEvent T) es \<Longrightarrow> named (apply_all es s)"
  by (induction es arbitrary: s) (auto simp: apply_all_def named_event)

lemma commit_fits:
  assumes "commitMany es s = (None, t)" and "fits_terms T s" and "list_all (plainEvent T) es"
  shows "fits_terms T t"
proof -
  have "fits_terms T (apply_all es x)" if "fits_terms T x" for x :: ledger
    using assms(3) that by (induction es arbitrary: x) (simp_all add: apply_all_def fits_event plainEvent_def)
  then have "fits_terms T (apply_all es (book s))" using assms(2) fits_frame [of "book s" s] by simp
  moreover have "orders t = orders (apply_all es (book s))" using commitMany_ok(3) [OF assms(1)] by (simp add: book_eq_iff)
  ultimately show ?thesis using fits_frame by blast
qed

lemma commit_named:
  assumes "commitMany es s = (None, t)" and "list_all (plainEvent T) es" and "named s"
  shows "named t"
proof -
  have "named (apply_all es (book s))" using assms(2,3) named_book [of "book s" s] by (intro named_all) simp_all
  then show ?thesis using commitMany_ok(3) [OF assms(1)] named_book by blast
qed

text \<open>Orders stay once they are recorded.\<close>

lemma apply_all_orders:
  assumes "fmlookup (orders s) i \<noteq> None \<or> (\<exists>e\<in>set es. eType e = EventOrder \<and> oID (eOrder e) = i)"
  shows "fmlookup (orders (apply_all es s)) i \<noteq> None"
  using assms
proof (induction es arbitrary: s)
  case (Cons e es)
  then show ?case by (auto simp: apply_all_def event_orders)
qed (simp add: apply_all_def)

section \<open>The events of the operations are plain\<close>

lemma Event0_fields [simp]: "eID Event0 = []" "eAmount Event0 = 0" "eUserID Event0 = []"
  by (simp_all add: Event0_def)

lemma cancelEvents_plain: "oUserID od \<noteq> [] \<Longrightarrow> orderTerms od = T (oID od) \<Longrightarrow> list_all (plainEvent T) (cancelEvents market od)"
  by (simp add: cancelEvents_def plainEvent_def Let_def)

lemma reservation_plain: "oUserID od \<noteq> [] \<Longrightarrow> orderTerms od = T (oID od) \<Longrightarrow> list_all (plainEvent T) (reservationEvents od cost)"
  by (simp add: reservationEvents_def plainEvent_def Let_def)

lemma prepared_event:
  assumes "prepareOrder s od = Inr (first # rest)"
  shows "eType first = EventOrder" and "oID (eOrder first) = oID od" and "oUserID (eOrder first) \<noteq> []"
    and "sameParams od (eOrder first)" and "fmlookup (orders s) (oID od) = None"
proof -
  have "\<exists>price sd n c. reservationEvents (od\<lparr>oEnginePrice := price, oEngineSide := sd, oStatus := Pending, oSequence := n\<rparr>) c
      = first # rest" and u: "oUserID od \<noteq> []"
    using assms by (auto simp: prepareOrder_def Let_def split: if_splits option.splits sum.splits prod.splits)
  then show "eType first = EventOrder" "oID (eOrder first) = oID od" "oUserID (eOrder first) \<noteq> []" "sameParams od (eOrder first)"
    by (auto simp: reservationEvents_def sameParams_def Let_def split: if_splits)
  show "fmlookup (orders s) (oID od) = None" using assms by (auto simp: prepareOrder_def Let_def split: if_splits option.splits)
qed

lemma prepared_plain:
  assumes "prepareOrder s od = Inr (first # rest)" and "orderTerms (eOrder first) = T (oID od)"
  shows "list_all (plainEvent T) (first # rest)" and "\<forall>e\<in>set rest. eType e \<noteq> EventOrder"
proof -
  have "\<exists>price sd n c. reservationEvents (od\<lparr>oEnginePrice := price, oEngineSide := sd, oStatus := Pending, oSequence := n\<rparr>) c
      = first # rest" "oUserID od \<noteq> []"
    using assms(1) by (auto simp: prepareOrder_def Let_def split: if_splits option.splits sum.splits prod.splits)
  then obtain price sd n c where r: "reservationEvents (od\<lparr>oEnginePrice := price, oEngineSide := sd, oStatus := Pending, oSequence := n\<rparr>) c
      = first # rest" and u: "oUserID od \<noteq> []" by blast
  have "eOrder first = od\<lparr>oEnginePrice := price, oEngineSide := sd, oStatus := Pending, oSequence := n\<rparr>"
    using r by (auto simp: reservationEvents_def Let_def split: if_splits)
  then show "list_all (plainEvent T) (first # rest)" unfolding r [symmetric] using u assms(2) by (intro reservation_plain) simp_all
  show "\<forall>e\<in>set rest. eType e \<noteq> EventOrder" using r by (auto simp: reservationEvents_def Let_def split: if_splits)
qed

lemma prepared_fits:
  assumes "prepareOrder s od = Inr (first # rest)"
  defines "T \<equiv> (bound s)(oID od := orderTerms (eOrder first))"
  shows "fits_terms T s" and "list_all (plainEvent T) (first # rest)"
  unfolding T_def using fits_upd [OF fits_bound prepared_event(5) [OF assms(1)]] prepared_plain(1) [OF assms(1)] by simp_all

lemma payout_plain:
  assumes "named s"
  shows "list_all (plainEvent T) (payoutEvents market yes s users)"
proof -
  have "pYes (PositionOf s [] market) = 0" "pNo (PositionOf s [] market) = 0"
    using assms by (simp_all add: named_def PositionOf_def fmget_def Position0_def)
  then show ?thesis by (auto simp: payoutEvents_def plainEvent_def Let_def list_all_iff)
qed

text \<open>The staged copies of orders have owners and their terms, and the IDs of the engine lead to orders.\<close>

definition staging :: "(string \<Rightarrow> terms) \<Rightarrow> (engineOrderKey, string) fmap \<Rightarrow> (string, Order) fmap \<Rightarrow> bool" where
  "staging T overrides staged \<longleftrightarrow> (\<forall>i od. fmlookup staged i = Some od \<longrightarrow> oID od = i \<and> oUserID od \<noteq> [] \<and> orderTerms od = T i) \<and>
     (\<forall>k i. fmlookup overrides k = Some i \<longrightarrow> fmlookup staged i \<noteq> None)"

lemma fillOrder_kept [simp]:
  "oID (fillOrder od q) = oID od" "oUserID (fillOrder od q) = oUserID od" "orderTerms (fillOrder od q) = orderTerms od"
  by (simp_all add: fillOrder_def Let_def)

lemma fill_plain:
  assumes "named s" and "fits_terms T s" and "staging T overrides staged" and "fmlookup staged i \<noteq> None \<or> fmlookup (orders s) i \<noteq> None"
    and "fillEvents s staged i q p = (es, staged')"
  shows "list_all (plainEvent T) es" and "staging T overrides staged'"
proof -
  let ?od = "case fmlookup staged i of Some x \<Rightarrow> x | None \<Rightarrow> fmget Order0 (orders s) i"
  have u: "oUserID ?od \<noteq> []" "oID ?od = i" "orderTerms ?od = T i"
    using assms(1-4) by (auto simp: named_def fits_terms_def staging_def fmget_def split: option.splits)
  have r: "es = [Event0\<lparr>eType := EventOrder, eOrder := fillOrder ?od q\<rparr>,
      Event0\<lparr>eType := EventPosition, eUserID := oUserID (fillOrder ?od q), eMarketID := oMarketID (fillOrder ?od q),
        eYesDelta := fillYes (oSide (fillOrder ?od q)) q, eNoDelta := fillNo (oSide (fillOrder ?od q)) q,
        eAmount := fillCredit (fillOrder ?od q) q p\<rparr>]" "staged' = fmupd i (fillOrder ?od q) staged"
    using assms(5) unfolding fillEvents_def Let_def by (metis prod.inject)+
  show "list_all (plainEvent T) es" unfolding r(1) using u by (simp add: plainEvent_def)
  show "staging T overrides staged'" unfolding r(2) using u assms(3) by (auto simp: staging_def)
qed

lemma looked_up:
  assumes "named s" and "staging T overrides staged" and "lookupEngine s overrides m e = Some i"
  shows "fmlookup staged i \<noteq> None \<or> fmlookup (orders s) i \<noteq> None"
  using assms by (auto simp: lookupEngine_def staging_def named_def split: option.splits)

lemma trades_plain:
  assumes "named s" and "fits_terms T s" and "staging T overrides staged" and "buildTradeEvents s market fs overrides staged = (es, staged')"
  shows "list_all (plainEvent T) es \<and> staging T overrides staged'"
  using assms(3,4)
proof (induction fs arbitrary: staged es staged')
  case (Cons f fs)
  show ?case
  proof (cases "lookupEngine s overrides market (etBuyOrderID f) = None \<or> lookupEngine s overrides market (etSellOrderID f) = None")
    case True
    then show ?thesis using Cons by (auto split: option.splits)
  next
    case False
    then obtain b sl where l: "lookupEngine s overrides market (etBuyOrderID f) = Some b"
        "lookupEngine s overrides market (etSellOrderID f) = Some sl" by auto
    obtain bought st1 where b: "fillEvents s staged b (int (etQuantity f)) (etPrice f) = (bought, st1)" by (rule prod.exhaust)
    obtain sold st2 where sd: "fillEvents s st1 sl (int (etQuantity f)) (etPrice f) = (sold, st2)" by (rule prod.exhaust)
    obtain rest st3 where r: "buildTradeEvents s market fs overrides st2 = (rest, st3)" by (rule prod.exhaust)
    note f1 = fill_plain [OF assms(1,2) Cons.prems(1) looked_up [OF assms(1) Cons.prems(1) l(1)] b]
    note f2 = fill_plain [OF assms(1,2) f1(2) looked_up [OF assms(1) f1(2) l(2)] sd]
    have t: "plainEvent T (tradeEvent market b sl f)" by (simp add: tradeEvent_def plainEvent_def)
    have "es = bought @ sold @ [tradeEvent market b sl f] @ rest" "staged' = st3" using Cons.prems(2) l b sd r by simp_all
    then show ?thesis using f1(1) f2 t Cons.IH [OF f2(2) r] by simp
  qed
qed simp

lemma completion_plain:
  assumes "named s" and "fits_terms T s" and "oUserID od \<noteq> []" and "orderTerms od = T (oID od)"
  shows "list_all (plainEvent T) (completion s od result)"
proof -
  let ?st = "fmupd (oID od) od fmempty" and ?ov = "fmupd (oMarketID od, oEngineID od) (oID od) fmempty"
  have "staging T ?ov ?st" using assms(3,4) by (simp add: staging_def)
  then have "list_all (plainEvent T) (fst (buildTradeEvents s (oMarketID od) (erTrades result) ?ov ?st))"
    using trades_plain [OF assms(1,2), of ?ov ?st] by (metis prod.collapse)
  then show ?thesis using assms(3,4) by (simp add: completion_def plainEvent_def)
qed

section \<open>Batches\<close>

text \<open>The loop of admissions collects plain events, with one for each admitted order.\<close>

definition admissionPlain :: "'a ledger_scheme \<Rightarrow> placement list \<Rightarrow> admission \<Rightarrow> bool" where
  "admissionPlain s requests a \<longleftrightarrow> (\<exists>T. fits_terms T s \<and> list_all (plainEvent T) (aInitial a)) \<and>
     (\<forall>e\<in>set (aInitial a). eType e = EventOrder \<longrightarrow> fmlookup (aByID a) (oID (eOrder e)) \<noteq> None) \<and>
     (\<forall>i\<in>set (aAdmitted a). \<exists>e\<in>set (aInitial a). eType e = EventOrder \<and> oID (eOrder e) = oID (plOrder (requests ! i)))"

lemma admit_plain:
  assumes "admissionPlain s requests a" and "prepareOrder s od = Inr (first # rest)" and "od = plOrder (requests ! i)"
    and "fmlookup (aByID a) (oID od) = None"
  shows "admissionPlain s requests (admit s i od first rest c sh a)"
proof -
  obtain T where T: "fits_terms T s" "list_all (plainEvent T) (aInitial a)" using assms(1) by (auto simp: admissionPlain_def)
  let ?T = "T(oID od := orderTerms (eOrder first))"
  note e = prepared_event [OF assms(2)] and p = prepared_plain [OF assms(2), of ?T, simplified fun_upd_same, OF refl]
  have "plainEvent ?T x" if "x \<in> set (aInitial a)" for x
    using that T(2) assms(1,4) by (auto simp: admissionPlain_def plainEvent_def list_all_iff)
  moreover have "plainEvent ?T (first\<lparr>eOrder := (eOrder first)\<lparr>oSequence := n\<rparr>\<rparr>)" for n using p e by (simp add: plainEvent_def)
  ultimately have "list_all (plainEvent ?T) (aInitial (admit s i od first rest c sh a))" using p(1) by (auto simp: admit_def list_all_iff)
  then have "\<exists>T. fits_terms T s \<and> list_all (plainEvent T) (aInitial (admit s i od first rest c sh a))"
    using fits_upd [OF T(1) e(5)] by blast
  then show ?thesis using assms(1,3) e(1,2) p(2) by (auto simp: admissionPlain_def admit_def)
qed

lemma admissionPlain_frame [simp]:
  "admissionPlain s requests (setOutcome i r a) = admissionPlain s requests a"
  "admissionPlain s requests (a\<lparr>aAliases := x\<rparr>) = admissionPlain s requests a"
  by (simp_all add: admissionPlain_def setOutcome_def)

lemma admitOne_plain:
  assumes "admissionPlain s requests a"
  shows "admissionPlain s requests (admitOne s requests i a)"
  using assms admit_plain [OF assms, of "plOrder (requests ! i)"]
  by (auto simp: admitOne_def Let_def split: option.split sum.split list.split)

lemma admitAll_plain: "admissionPlain s requests (admitAll s requests)"
proof -
  have "admissionPlain s requests (fold (admitOne s requests) is a)" if "admissionPlain s requests a" for "is" a
    using that by (induction "is" arbitrary: a) (simp_all add: admitOne_plain)
  moreover have "admissionPlain s requests (admission0 n)" for n
    by (auto simp: admissionPlain_def admission0_def intro: exI [of _ "bound s"])
  ultimately show ?thesis by (simp add: admitAll_def)
qed

lemma batchCall_frame:
  assumes "batchCall commands s = (x, t)"
  shows "(\<exists>b. x = Inr b) \<and> same_ledger s t \<or> (\<exists>e. x = Inl e) \<and> failure t \<noteq> None \<and> book t = book s"
  using assms by (auto simp: batchCall_def fail_def Let_def book_eq_iff split: option.splits if_splits sum.splits prod.splits)

lemma resultFor_frame: "resultFor results commands j eng s = (x, t) \<Longrightarrow> same_ledger s t"
  by (auto simp: resultFor_def Let_def split: if_splits prod.splits)

lemma same_ledger_book: "same_ledger s t \<Longrightarrow> book t = book s"
  by (simp add: same_ledger_def)

lemma named_same: "same_ledger s t \<Longrightarrow> named s \<Longrightarrow> named t"
  using named_book [of t s] by (simp add: same_ledger_def)

lemma completeLoop_plain:
  assumes "completeLoop results commands j ks ids staged s = (x, u)" and "named s" and "fits_terms T s"
    and "staging T ids staged" and "\<And>k. k \<in> set ks \<Longrightarrow> fmlookup (orders s) k \<noteq> None"
  shows "(\<exists>es. x = Inr es \<and> list_all (plainEvent T) es \<and> (ks \<noteq> [] \<longrightarrow> es \<noteq> [])) \<and> same_ledger s u \<or> failure u \<noteq> None \<and> (\<exists>e. x = Inl e)"
  using assms
proof (induction ks arbitrary: j ids staged s x u)
  case (Cons k ks)
  let ?od = "(fmget Order0 (orders s) k)\<lparr>oStatus := Open\<rparr>"
  have od: "oUserID ?od \<noteq> []" "orderTerms ?od = T (oID ?od)" using Cons.prems(2,3) Cons.prems(5) [of k]
    by (auto simp: named_def fits_terms_def fmget_def split: option.splits)
  show ?case
  proof (cases "EngineOf (cfg s)")
    case None
    obtain y v where y: "completeLoop results commands (Suc j) ks ids staged s = (y, v)" by (rule prod.exhaust)
    have "plainEvent T (Event0\<lparr>eType := EventOrder, eOrder := ?od\<rparr>)" using od by (simp add: plainEvent_def)
    then show ?thesis using Cons.IH [OF y Cons.prems(2-4)] Cons.prems(1,5) None y by (auto simp: Let_def)
  next
    case (Some eng)
    obtain res t where r: "resultFor results commands j eng s = (res, t)" by (rule prod.exhaust)
    have t: "same_ledger s t" "orders t = orders s" "named t"
      using resultFor_frame [OF r] named_same [OF _ Cons.prems(2)] by (auto simp: same_ledger_def book_eq_iff)
    then have ft: "fits_terms T t" using fits_frame [of t s] Cons.prems(3) by simp
    show ?thesis
    proof (cases res)
      case (Inl e)
      then show ?thesis using Cons.prems(1) Some r by (auto simp: Let_def fail_def)
    next
      case (Inr result)
      let ?od1 = "?od\<lparr>oEngineID := erOrderID result\<rparr>"
      let ?ids = "fmupd (oMarketID ?od1, oEngineID ?od1) (oID ?od1) ids" and ?staged = "fmupd (oID ?od1) ?od1 staged"
      obtain evs st where b: "buildTradeEvents t (oMarketID ?od1) (erTrades result) ?ids ?staged = (evs, st)" by (rule prod.exhaust)
      have "staging T ?ids ?staged" using Cons.prems(4) od by (auto simp: staging_def)
      note tp = trades_plain [OF t(3) ft this b]
      obtain y v where y: "completeLoop results commands (Suc j) ks ?ids st t = (y, v)" by (rule prod.exhaust)
      have p: "plainEvent T (Event0\<lparr>eType := EventOrder, eOrder := ?od1\<rparr>)" using od by (simp add: plainEvent_def)
      have "(\<exists>es. y = Inr es \<and> list_all (plainEvent T) es \<and> (ks \<noteq> [] \<longrightarrow> es \<noteq> [])) \<and> same_ledger t v \<or> failure v \<noteq> None \<and> (\<exists>e. y = Inl e)"
        using Cons.IH [OF y t(3) ft] tp Cons.prems(5) t(2) by simp
      moreover have "(x, u) = (case y of Inl e \<Rightarrow> (Inl e, v) | Inr es \<Rightarrow> (Inr (Event0\<lparr>eType := EventOrder, eOrder := ?od1\<rparr> # evs @ es), v))"
        using Cons.prems(1) Some r Inr b y by (cases y) (auto simp: Let_def)
      ultimately show ?thesis using p tp same_ledger_trans [OF t(1)] by (auto split: sum.splits)
    qed
  qed
qed simp

lemma removeFromEngine_frame: "removeFromEngine symbol i s = (x, t) \<Longrightarrow> same_ledger s t"
  by (auto simp: removeFromEngine_def split: option.splits prod.splits)

lemma cancelLoop_plain:
  assumes "cancelLoop m market is s = (x, u)" and "named s" and "fits_terms T s" and "\<And>i. i \<in> set is \<Longrightarrow> fmlookup (orders s) i \<noteq> None"
  shows "same_ledger s u \<and> (\<forall>es. x = Inr es \<longrightarrow> list_all (plainEvent T) es) \<or> failure u \<noteq> None \<and> (\<exists>e. x = Inl e) \<and> book u = book s"
  using assms
proof (induction "is" arbitrary: s x u)
  case (Cons i "is")
  let ?od = "fmget Order0 (orders s) i"
  obtain y t where y: "removeFromEngine (mSymbol m) (oEngineID ?od) s = (y, t)" by (rule prod.exhaust)
  have t: "same_ledger s t" "orders t = orders s" "named t"
    using removeFromEngine_frame [OF y] named_same [OF _ Cons.prems(2)] by (auto simp: same_ledger_def book_eq_iff)
  then have ft: "fits_terms T t" using fits_frame [of t s] Cons.prems(3) by simp
  have "oUserID ?od \<noteq> []" "orderTerms ?od = T (oID ?od)" using Cons.prems(2,3) Cons.prems(4) [of i]
    by (auto simp: named_def fits_terms_def fmget_def split: option.splits)
  note p = cancelEvents_plain [where T = T, OF this, of market]
  obtain z v where z: "cancelLoop m market is t = (z, v)" by (rule prod.exhaust)
  have "same_ledger t v \<and> (\<forall>es. z = Inr es \<longrightarrow> list_all (plainEvent T) es) \<or> failure v \<noteq> None \<and> (\<exists>e. z = Inl e) \<and> book v = book t"
    using Cons.IH [OF z t(3) ft] Cons.prems(4) t(2) by simp
  then show ?case using Cons.prems(1) y z p t(1) same_ledger_trans [OF t(1), of v] same_ledger_book [OF t(1)]
    by (auto simp: Let_def fail_def book_eq_iff split: sum.splits bool.splits)
qed simp

section \<open>What commits keep\<close>

text \<open>
  A property \<open>Q\<close> of the service that commits of plain events keep, and that does not depend on the
  engine and the publications. When a failure is latched, what is left of it is \<open>R\<close>, a property of
  the books alone.
\<close>

locale recorded_state =
  fixes Q R :: "('e, 'p) Service \<Rightarrow> bool"
  assumes Q_commit: "commitMany es s = (None, t) \<Longrightarrow> es \<noteq> [] \<Longrightarrow> fits_terms T s \<Longrightarrow> list_all (plainEvent T) es \<Longrightarrow> Q s \<Longrightarrow> Q t"
    and Q_same: "same_ledger s t \<Longrightarrow> Q s \<Longrightarrow> Q t"
    and Q_named: "Q s \<Longrightarrow> named s"
    and Q_latched: "Q s \<Longrightarrow> R s"
    and R_book: "book t = book s \<Longrightarrow> R s \<Longrightarrow> R t"
begin

definition good :: "('e, 'p) Service \<Rightarrow> bool" where
  "good s \<longleftrightarrow> R s \<and> (failure s = None \<longrightarrow> Q s)"

lemma good_failed: "good s \<Longrightarrow> book t = book s \<Longrightarrow> failure t \<noteq> None \<Longrightarrow> good t"
  using R_book by (auto simp: good_def)

lemma good_fail: "fail e s = (r, t) \<Longrightarrow> good s \<Longrightarrow> good t"
  using good_failed [of s t] by (auto simp: fail_def Let_def book_eq_iff)

lemma good_same:
  assumes "good s" and "same_ledger s t"
  shows "good t"
  using assms Q_same [OF assms(2)] R_book [OF same_ledger_book [OF assms(2)]] by (simp add: good_def same_ledger_def)

lemma good_commit:
  assumes "commitMany es s = (r, t)" and "good s" and "es \<noteq> []"
    and "failure s = None \<Longrightarrow> fits_terms T s \<and> list_all (plainEvent T) es"
  shows "good t"
proof (cases r)
  case None
  then have c: "commitMany es s = (None, t)" using assms(1) by simp
  have f: "failure s = None" by (rule commitMany_ok(1) [OF c])
  show ?thesis using Q_commit [OF c assms(3), of T] assms(4) [OF f] assms(2) f Q_latched by (simp add: good_def)
next
  case (Some e)
  then show ?thesis using commitMany_err(1,2) [of es s e t] assms(1) good_failed [OF assms(2)] by (simp add: keeps_def)
qed

lemma good_quotes:
  assumes "andThen x (quoteAndPublish ids supplied) = (r, t)" and "good (snd x)"
  shows "good t"
proof (cases x)
  case (Pair r0 u)
  show ?thesis
  proof (cases r0)
    case None
    then have "t = snd (quoteAndPublish ids supplied u)" using assms(1) Pair by (metis andThen_simps(1) snd_conv)
    then show ?thesis using good_same [OF _ quoteAndPublish_ok(2)] assms(2) Pair by simp
  qed (use assms Pair in simp)
qed

lemma good_named: "good s \<Longrightarrow> failure s = None \<Longrightarrow> named s"
  using Q_named by (simp add: good_def)

lemma Deposit_good:
  assumes "Deposit user cents s = (r, t)" and "good s"
  shows "good t"
proof (cases "t = s")
  case False
  then have "commitMany [Event0\<lparr>eType := EventBalance, eUserID := user, eAmount := cents\<rparr>] s = (r, t)" "user \<noteq> []"
    using assms(1) by (auto simp: Deposit_def commit_def split: if_splits option.splits)
  then show ?thesis using good_commit [OF _ assms(2), of _ r t "bound s"] by (simp add: plainEvent_def)
qed (use assms in simp)

lemma CreateMarketFor_good:
  assumes "CreateMarketFor i symbol owner s = (r, t)" and "good s"
  shows "good t"
proof (cases "same_ledger s t")
  case False
  let ?e = "Event0\<lparr>eType := EventMarket, eMarket := \<lparr>mID = i, mSymbol = symbol, mOwnerID = owner, mStatus = Open\<rparr>\<rparr>"
  have "\<exists>u. commitMany [?e] u = (r, t) \<and> same_ledger s u"
  proof (cases "EngineOf (cfg s)")
    case None
    then show ?thesis using assms(1) False by (auto simp: CreateMarketFor_def commit_def split: if_splits option.splits)
  next
    case (Some eng)
    obtain x es where x: "AddBook eng (engineState s) symbol = (x, es)" by (rule prod.exhaust)
    show ?thesis
      using assms(1) False Some x by (cases x) (auto simp: CreateMarketFor_def commit_def intro!: exI [of _ "s\<lparr>engineState := es\<rparr>"] split: if_splits option.splits)
  qed
  then obtain u where u: "commitMany [?e] u = (r, t)" "same_ledger s u" by blast
  show ?thesis using good_commit [OF u(1) good_same [OF assms(2) u(2)], of "bound u"] by (simp add: plainEvent_def)
qed (rule good_same [OF assms(2)])

lemma Cancel_good:
  assumes "Cancel ctxErr i user s = (r, t)" and "good s"
  shows "good t"
proof (cases "t = s")
  case False
  then obtain od where od: "ctxErr = None" "failure s = None" "fmlookup (orders s) i = Some od" "oUserID od = user"
      "oStatus od = Open \<or> oStatus od = Partial"
    using assms(1) by (auto simp: Cancel_def split: option.splits if_splits)
  obtain x u where x: "removeFromEngine (mSymbol (fmget Market0 (markets s) (oMarketID od))) (oEngineID od) s = (x, u)" by (rule prod.exhaust)
  note u = good_same [OF assms(2) removeFromEngine_frame [OF x]]
  have "oUserID od \<noteq> []" "orderTerms od = bound s (oID od)"
    using good_named [OF assms(2) od(2)] od(3) by (auto simp: named_def bound_def fmget_def)
  note plain = cancelEvents_plain [where T = "bound s", OF this]
  have "fits_terms (bound s) u" using removeFromEngine_frame [OF x] fits_frame [of u s] by (simp add: same_ledger_def book_eq_iff)
  note fit = this
  consider (failed) e where "fail (Wrap ''uncertain cancellation'' e) u = (r, t)" | (rejected) "t = u"
    | (removed) "andThen (commitMany (cancelEvents (oMarketID od) od) u) (quoteAndPublish [oMarketID od] []) = (r, t)"
    using assms(1) od x by (auto simp: Cancel_def split: sum.splits bool.splits)
  then show ?thesis
  proof cases
    case failed
    then show ?thesis by (rule good_fail [OF _ u])
  next
    case rejected
    then show ?thesis using u by simp
  next
    case removed
    have ne: "cancelEvents (oMarketID od) od \<noteq> []" by (simp add: cancelEvents_def Let_def)
    show ?thesis by (rule good_quotes [OF removed]) (use good_commit [OF _ u ne] plain fit in \<open>metis prod.collapse\<close>)
  qed
qed (use assms in simp)

lemma ResolveFor_good:
  assumes "ResolveFor ctxErr i yes owner s = (r, t)" and "good s"
  shows "good t"
proof (cases "t = s")
  case False
  then obtain m where m: "ctxErr = None" "failure s = None" "fmlookup (markets s) i = Some m" "mStatus m = Open"
      "mOwnerID m = [] \<or> mOwnerID m = owner"
    using assms(1) by (auto simp: ResolveFor_def split: option.splits if_splits)
  note nm = good_named [OF assms(2) m(2)]
  obtain x u where x: "cancelLoop m i (restingIn i s) s = (x, u)" by (rule prod.exhaust)
  have "fmlookup (orders s) k \<noteq> None" if "k \<in> set (restingIn i s)" for k
    using that by (auto simp: restingIn_def set_sorted_keys fmlookup_dom'_iff)
  note c = cancelLoop_plain [OF x nm fits_bound this]
  show ?thesis
  proof (cases x)
    case (Inl e)
    then have "t = u" using assms(1) m x by (auto simp: ResolveFor_def)
    then show ?thesis using c good_same [OF assms(2)] good_failed [OF assms(2)] by auto
  next
    case (Inr cancelled)
    let ?es = "cancelled @ payoutEvents i yes s (sorted_list_of_fset (fmdom (positions s)))
      @ [Event0\<lparr>eType := EventMarket, eMarket := resolvedMarket m yes\<rparr>]"
    have plain: "list_all (plainEvent (bound s)) ?es" using c Inr payout_plain [OF nm] by (auto simp: plainEvent_def)
    have u: "good u" using c Inr good_same [OF assms(2)] by auto
    obtain r1 v where v: "commitMany ?es u = (r1, v)" by (rule prod.exhaust)
    have "fits_terms (bound s) u" if "failure u = None" using c Inr that fits_frame [of u s] by (auto simp: same_ledger_def book_eq_iff)
    then have gv: "good v" using good_commit [OF v u, of "bound s"] plain by simp
    have "same_ledger v t" using assms(1) m x Inr v by (cases r1) (auto simp: ResolveFor_def)
    then show ?thesis by (rule good_same [OF gv])
  qed
qed (use assms in simp)

lemma submitSingle_good:
  assumes "submitSingle od m s = (r, t)" and "good s" and "failure s = None" and "fits_terms T s"
    and "oUserID od \<noteq> []" and "orderTerms od = T (oID od)"
  shows "good t"
proof (cases "EngineOf (cfg s)")
  case None
  then have "commitMany [Event0\<lparr>eType := EventOrder, eOrder := od\<lparr>oStatus := Open\<rparr>\<rparr>] s = (r, t)"
    using assms(1) by (simp add: submitSingle_def commit_def)
  then show ?thesis using good_commit [OF _ assms(2), of _ r t T] assms(4-6) by (simp add: plainEvent_def)
next
  case (Some eng)
  obtain x es where x: "AddOrder eng (engineState s) (mSymbol m) (i32 (oEnginePrice od)) (u32 (oQuantity od)) (oEngineSide od) = (x, es)"
    by (rule prod.exhaust)
  let ?v = "s\<lparr>engineState := es\<rparr>"
  have gv: "good ?v" by (rule good_same [OF assms(2)]) simp
  show ?thesis
  proof (cases x)
    case (Inl e)
    then show ?thesis using assms(1) Some x good_fail [OF _ gv] by (simp add: submitSingle_def)
  next
    case (Inr result)
    let ?od1 = "od\<lparr>oEngineID := erOrderID result, oStatus := Open\<rparr>"
    have q: "andThen (commitMany (completion ?v ?od1 result) ?v) (quoteAndPublish [oMarketID od] []) = (r, t)"
      using assms(1) Some x Inr by (simp add: submitSingle_def Let_def)
    have fv: "fits_terms T ?v" using assms(4) fits_frame [of ?v s] by simp
    then have "list_all (plainEvent T) (completion ?v ?od1 result)"
      using good_named [OF gv] assms(3,5,6) by (intro completion_plain) simp_all
    moreover have "completion ?v ?od1 result \<noteq> []" by (simp add: completion_def)
    ultimately have "good (snd (commitMany (completion ?v ?od1 result) ?v))" using good_commit [OF _ gv] fv by (metis prod.collapse)
    then show ?thesis by (rule good_quotes [OF q])
  qed
qed

lemma placeSingle_good:
  assumes "placeSingle ctxErr od s = (r, t)" and "good s"
  shows "good t"
proof (cases "t = s")
  case False
  then obtain first rest where p: "ctxErr = None" "failure s = None" "prepareOrder s od = Inr (first # rest)"
    using assms(1) by (auto simp: placeSingle_def split: option.splits sum.splits list.splits)
  note plain = prepared_event [OF p(3)] and fit = prepared_fits [OF p(3)]
  obtain r1 u where u: "commitMany (first # rest) s = (r1, u)" by (rule prod.exhaust)
  have gu: "good u" using good_commit [OF u assms(2)] fit by blast
  show ?thesis
  proof (cases r1)
    case (Some e)
    then show ?thesis using assms(1) p u gu by (simp add: placeSingle_def)
  next
    case None
    have sub: "submitSingle (eOrder first) (fmget Market0 (markets s) (oMarketID (eOrder first))) u = (r, t)"
      using assms(1) p u None by (simp add: placeSingle_def)
    have ok: "commitMany (first # rest) s = (None, u)" using u None by simp
    show ?thesis
      using submitSingle_good [OF sub gu commitMany_ok(2) [OF ok] commit_fits [OF ok fit] plain(3)] plain(2) by simp
  qed
qed (use assms in simp)

lemma completeBatch_good:
  assumes "completeBatch ids s = (x, t)" and "good s" and "failure s = None" and "ids \<noteq> []"
    and "\<And>k. k \<in> set ids \<Longrightarrow> fmlookup (orders s) k \<noteq> None"
  shows "good t"
proof -
  let ?commands = "map (commandFor s) ids"
  obtain y u where y: "batchCall ?commands s = (y, u)" by (rule prod.exhaust)
  show ?thesis
  proof (cases y)
    case (Inl e)
    then show ?thesis using assms(1) y batchCall_frame [OF y] good_failed [OF assms(2)] by (auto simp: completeBatch_def)
  next
    case (Inr batch)
    then have u: "same_ledger s u" using batchCall_frame [OF y] by auto
    note gu = good_same [OF assms(2) u]
    have nu: "named u" using named_same [OF u] good_named [OF assms(2,3)] by simp
    obtain z v where z: "completeLoop (ebResults batch) ?commands 0 ids fmempty fmempty u = (z, v)" by (rule prod.exhaust)
    have "orders u = orders s" using u by (simp add: same_ledger_def book_eq_iff)
    then have fit: "fits_terms (bound s) u" and c: "(\<exists>es. z = Inr es \<and> list_all (plainEvent (bound s)) es \<and> (ids \<noteq> [] \<longrightarrow> es \<noteq> [])) \<and> same_ledger u v \<or> failure v \<noteq> None \<and> (\<exists>e. z = Inl e)"
      using completeLoop_plain [OF z nu, of "bound s"] fits_frame [of u s] assms(5) by (simp_all add: staging_def)
    show ?thesis
    proof (cases z)
      case (Inl e)
      then have "t = v" "failure v \<noteq> None" using assms(1) y Inr z c by (auto simp: completeBatch_def)
      then show ?thesis using good_failed [OF gu] completeLoop_frame [OF z] by simp
    next
      case es: (Inr es)
      obtain r w where w: "commitMany es v = (r, w)" by (rule prod.exhaust)
      have uv: "same_ledger u v \<or> failure v \<noteq> None" "list_all (plainEvent (bound s)) es" "es \<noteq> []" using c es assms(4) by auto
      then have "failure v = None \<Longrightarrow> fits_terms (bound s) v" using fit fits_frame [of v u] by (auto simp: same_ledger_def book_eq_iff)
      moreover have "good v" using good_same [OF gu] good_failed [OF gu] completeLoop_frame [OF z] uv(1) by blast
      ultimately have gw: "good w" using good_commit [OF w _ uv(3), of "bound s"] uv(2) by simp
      have read: "same_ledger w w'" if "readQuotes ms given w = (qs, w')" for ms "given" qs w'
        using same_ledger_readQuotes [of w ms "given"] that by simp
      have "t = w \<or> same_ledger w t"
        using assms(1) y Inr z es w by (cases r) (auto simp: completeBatch_def Let_def split: prod.splits dest: read)
      then show ?thesis using gw good_same by auto
    qed
  qed
qed

lemma placeBatch_good:
  assumes "placeBatchWithQuotes requests s = (x, t)" and "good s"
  shows "good t"
proof (cases "t = s")
  case False
  let ?a = "admitAll s requests"
  let ?ids = "map (\<lambda>i. oID (plOrder (requests ! i))) (aAdmitted ?a)"
  have p: "failure s = None" "aAdmitted ?a \<noteq> []"
    using assms(1) False by (auto simp: placeBatchWithQuotes_def Let_def split: option.splits if_splits)
  note plain = admitAll_plain [of s requests, unfolded admissionPlain_def]
  have ne: "aInitial ?a \<noteq> []" using plain p(2) by (metis last_in_set list.set(1) empty_iff)
  obtain r1 u where u: "commitMany (aInitial ?a) s = (r1, u)" by (rule prod.exhaust)
  have gu: "good u" using good_commit [OF u assms(2) ne] plain by blast
  show ?thesis
  proof (cases r1)
    case (Some e)
    then show ?thesis using assms(1) p u gu by (simp add: placeBatchWithQuotes_def Let_def)
  next
    case None
    obtain y v where y: "completeBatch ?ids u = (y, v)" by (rule prod.exhaust)
    have ok: "commitMany (aInitial ?a) s = (None, u)" using u None by simp
    have "orders u = orders (apply_all (aInitial ?a) (book s))" using commitMany_ok(3) [OF ok] by (simp add: book_eq_iff)
    then have o: "fmlookup (orders u) k \<noteq> None" if "k \<in> set ?ids" for k
      using that plain apply_all_orders [of "book s" k "aInitial ?a"] by auto
    have "t = v" using assms(1) p u None y by (auto simp: placeBatchWithQuotes_def Let_def split: prod.splits)
    then show ?thesis using completeBatch_good [OF y gu commitMany_ok(2) [OF ok]] p(2) o by simp
  qed
qed (use assms in simp)

lemma drainRound_good:
  assumes "drainRound q = Some q'" and "good (qService q)"
  shows "good (qService q')"
proof -
  obtain requests outcomes quotes s where "placeBatchWithQuotes requests (qService q) = ((outcomes, quotes), s)"
      "qService q' = publishQuotes quotes s"
    using assms(1) by (auto simp: drainRound_def Let_def split: if_splits prod.splits)
  then show ?thesis using good_same [OF placeBatch_good [OF _ assms(2)], of requests _ s "publishQuotes quotes s"] by simp
qed

lemma Place_good:
  assumes "Place client ctxErr p q = (r, q')" and "good (qService q)"
  shows "good (qService q')"
proof (cases "OrderBatchSize (cfg (qService q)) > 1")
  case True
  then have "qService q' = qService q" using assms(1) by (auto simp: Place_def enqueue_def split: option.splits if_splits)
  then show ?thesis using assms(2) by simp
next
  case False
  then obtain s where "placeSingle ctxErr (plOrder p) (qService q) = (r, s)" "q' = q\<lparr>qService := s\<rparr>"
    using assms(1) by (auto simp: Place_def Let_def split: prod.splits)
  then show ?thesis using placeSingle_good [OF _ assms(2)] by simp
qed

lemma QuoteOf_good: "QuoteOf symbol s = (r, t) \<Longrightarrow> good s \<Longrightarrow> good t"
  using good_same [of s t] same_ledger_QuoteOf [of s symbol] by simp

end

section \<open>Recorded orders keep their terms\<close>

text \<open>An order of the ledger under the ID of \<open>od\<close> with the user, market, side, price and quantity of \<open>od\<close>.\<close>

definition recordedAs :: "Order \<Rightarrow> 'a ledger_scheme \<Rightarrow> bool" where
  "recordedAs od s \<longleftrightarrow> (\<exists>x. fmlookup (orders s) (oID od) = Some x \<and> sameParams x od)"

lemma recordedAs_book: "book t = book s \<Longrightarrow> recordedAs od t = recordedAs od s"
  by (simp add: recordedAs_def book_eq_iff)

lemma terms_params: "orderTerms x = orderTerms y \<Longrightarrow> sameParams x od = sameParams y od"
  by (simp add: orderTerms_def sameParams_def)

lemma commit_recordedAs:
  assumes "commitMany es s = (None, t)" and "fits_terms T s" and "list_all (plainEvent T) es" and "recordedAs od s"
  shows "recordedAs od t"
proof -
  obtain x where x: "fmlookup (orders s) (oID od) = Some x" "sameParams x od" using assms(4) by (auto simp: recordedAs_def)
  have "orders t = orders (apply_all es (book s))" using commitMany_ok(3) [OF assms(1)] by (simp add: book_eq_iff)
  then obtain y where y: "fmlookup (orders t) (oID od) = Some y" using apply_all_orders [of "book s" "oID od" es] x(1) by auto
  have "orderTerms y = T (oID od)" "orderTerms x = T (oID od)"
    using commit_fits [OF assms(1-3)] assms(2) x(1) y unfolding fits_terms_def by blast+
  then have "sameParams y od" using x(2) terms_params [of y x od] by simp
  then show ?thesis using y by (auto simp: recordedAs_def)
qed

interpretation kept: recorded_state "\<lambda>s. named s \<and> recordedAs od s" "\<lambda>s. named s \<and> recordedAs od s" for od
proof
  fix es and s t :: "('a, 'b) Service" and T
  assume "commitMany es s = (None, t)" "fits_terms T s" "list_all (plainEvent T) es" "named s \<and> recordedAs od s"
  then show "named t \<and> recordedAs od t" using commit_named commit_recordedAs by blast
next
  fix s t :: "('a, 'b) Service"
  assume "same_ledger s t" "named s \<and> recordedAs od s"
  then show "named t \<and> recordedAs od t" using named_same recordedAs_book [OF same_ledger_book] by blast
next
  fix s t :: "('a, 'b) Service"
  assume "book t = book s" "named s \<and> recordedAs od s"
  then show "named t \<and> recordedAs od t" using named_book recordedAs_book by blast
qed simp_all

section \<open>Requests and checkpoints\<close>

text \<open>The steps of the exchange that are requests or rounds of the worker.\<close>

inductive request_step :: "('e, 'p) queue \<times> int \<Rightarrow> ('e, 'p) queue \<times> int \<Rightarrow> bool" where
  deposit: "Deposit user cents (qService q) = (r, s) \<Longrightarrow> D + cents \<le> int64_max \<Longrightarrow>
    request_step (q, D) (q\<lparr>qService := s\<rparr>, if r = None then D + cents else D)"
| create_market: "CreateMarketFor i symbol owner (qService q) = (r, s) \<Longrightarrow>
    request_step (q, D) (q\<lparr>qService := s\<rparr>, D)"
| place: "Place client ctxErr p q = (r, q') \<Longrightarrow> submission (plOrder p) \<Longrightarrow> request_step (q, D) (q', D)"
| work: "drainRound q = Some q' \<Longrightarrow> request_step (q, D) (q', D)"
| rest: "drainRound q = None \<Longrightarrow> request_step (q, D) (q\<lparr>qRunning := False\<rparr>, D)"
| cancel: "Cancel ctxErr i user (qService q) = (r, s) \<Longrightarrow> request_step (q, D) (q\<lparr>qService := s\<rparr>, D)"
| resolve: "ResolveFor ctxErr i yes owner (qService q) = (r, s) \<Longrightarrow> noSells i (qService q) \<Longrightarrow>
    request_step (q, D) (q\<lparr>qService := s\<rparr>, D)"
| quote: "QuoteOf symbol (qService q) = (r, s) \<Longrightarrow> request_step (q, D) (q\<lparr>qService := s\<rparr>, D)"

inductive_cases request_stepE: "request_step (q, D) (q', D')"

lemma request_exchange: "request_step x y \<Longrightarrow> exchange_step x y"
  by (induction rule: request_step.induct) (rule exchange_step.intros; assumption)+

lemma request_run: "request_step\<^sup>*\<^sup>* x y \<Longrightarrow> exchange_step\<^sup>*\<^sup>* x y"
  by (induction rule: rtranclp_induct) (auto intro: request_exchange rtranclp.rtrancl_into_rtrancl)

lemma exchange_parts:
  assumes "exchange_step (q, D) (q', D')"
  obtains (request) "request_step (q, D) (q', D')"
  | (freeze_state) x s where "freezeCheckpoint (qService q) = (x, s)" "q' = q\<lparr>qService := s\<rparr>"
  | (write_snapshot) sn r s where "writeSnapshot sn (qService q) = (r, s)" "q' = q\<lparr>qService := s\<rparr>"
  | (drop_segment) r s where "dropPrevious (qService q) = (r, s)" "q' = q\<lparr>qService := s\<rparr>"
  using assms by cases (auto intro: request_step.intros)

text \<open>The same steps with the phases of a checkpoint in their order.\<close>

inductive logged_step :: "(('e, 'p) queue \<times> int) \<times> phase \<Rightarrow> (('e, 'p) queue \<times> int) \<times> phase \<Rightarrow> bool" where
  request: "request_step x y \<Longrightarrow> logged_step (x, ph) (y, ph)"
| froze: "freezeCheckpoint (qService q) = (Inr sn, s) \<Longrightarrow> logged_step ((q, D), Idle) ((q\<lparr>qService := s\<rparr>, D), Writing sn)"
| freezeFailed: "freezeCheckpoint (qService q) = (Inl e, s) \<Longrightarrow> logged_step ((q, D), Idle) ((q\<lparr>qService := s\<rparr>, D), Idle)"
| wrote: "writeSnapshot sn (qService q) = (r, s) \<Longrightarrow>
    logged_step ((q, D), Writing sn) ((q\<lparr>qService := s\<rparr>, D), if r = None then Written else Idle)"
| dropped: "dropPrevious (qService q) = (r, s) \<Longrightarrow> logged_step ((q, D), Written) ((q\<lparr>qService := s\<rparr>, D), Idle)"

lemma logged_exchange: "logged_step (x, ph) (y, ph') \<Longrightarrow> exchange_step x y"
  by (erule logged_step.cases) (auto intro: request_exchange exchange_step.intros)

context recorded_state
begin

lemma request_good:
  assumes "request_step (q, D) (q', D')" and "good (qService q)"
  shows "good (qService q')"
  using assms(1)
proof cases
  case (deposit user cents r s)
  then show ?thesis using Deposit_good [OF _ assms(2)] by simp
next
  case (create_market i symbol owner r s)
  then show ?thesis using CreateMarketFor_good [OF _ assms(2)] by simp
next
  case (place client ctxErr p r)
  then show ?thesis using Place_good [OF _ assms(2)] by simp
next
  case work
  then show ?thesis using drainRound_good [OF _ assms(2)] by simp
next
  case (cancel ctxErr i user r s)
  then show ?thesis using Cancel_good [OF _ assms(2)] by simp
next
  case (resolve ctxErr i yes owner r s)
  then show ?thesis using ResolveFor_good [OF _ assms(2)] by simp
next
  case (quote symbol r s)
  then show ?thesis using QuoteOf_good [OF _ assms(2)] by simp
qed (use assms(2) in simp)

end

section \<open>What checkpoints leave alone\<close>

definition untouched :: "('e, 'p) Service \<Rightarrow> ('e, 'p) Service \<Rightarrow> bool" where
  "untouched s t \<longleftrightarrow> uuidCount t = uuidCount s \<and> projection t = projection s \<and> loggedEvents (disk t) \<subseteq> loggedEvents (disk s)"

lemma untouched_refl [simp]: "untouched s s"
  by (simp add: untouched_def)

lemma untouched_update [simp]:
  "untouched s (t\<lparr>walFile := f\<rparr>) = untouched s t" "untouched s (t\<lparr>failure := x\<rparr>) = untouched s t"
  "untouched s (snd (osTry t)) = untouched s t"
  by (auto simp: untouched_def osTry_def osCall_def split: list.splits)

lemma untouched_onDisk:
  assumes "untouched s t" and "\<And>d. loggedEvents (g d) \<subseteq> loggedEvents d"
  shows "untouched s (onDisk g t)"
  using assms(1) assms(2) [of "disk t"] by (auto simp: untouched_def onDisk_def)

lemma fewer_events:
  "loggedEvents (rotate d) \<subseteq> loggedEvents d" "loggedEvents (d\<lparr>walCurrent := Some []\<rparr>) \<subseteq> loggedEvents d"
  "loggedEvents (d\<lparr>walPrevious := None\<rparr>) \<subseteq> loggedEvents d"
  by (auto simp: loggedEvents_def logEvents_def rotate_def split: option.splits)

lemma untouched_then:
  assumes "untouched s (snd r)" and "\<And>t. untouched s t \<Longrightarrow> untouched s (snd (k t))"
  shows "untouched s (snd (andThen r k))" and "untouched s (snd (failIf r k))"
  using assms by (auto simp: andThen_def failIf_def fail_def Let_def split: prod.splits option.splits)

lemma untouched_sync: "untouched s t \<Longrightarrow> untouched s (snd (syncDirectory t))"
  by (simp add: syncDirectory_def untouched_then)

lemma freeze_untouched:
  assumes "freezeCheckpoint s = (x, t)"
  shows "untouched s t"
proof -
  have close: "untouched s (snd (closeWAL u))" if "untouched s u" for u using that by (auto simp: closeWAL_def intro!: untouched_then(2))
  have rotate: "untouched s (snd (rotateWAL u))" if "untouched s u" for u
    using that unfolding rotateWAL_def Let_def
    by (intro untouched_then(2) untouched_sync untouched_onDisk) (simp_all add: untouched_onDisk fewer_events)
  obtain r1 t1 where t1: "osTry s = (r1, t1)" by (rule prod.exhaust)
  obtain r2 t2 where t2: "osTry t1 = (r2, t2)" by (rule prod.exhaust)
  obtain r3 t3 where t3: "andThen (closeWAL t2) rotateWAL = (r3, t3)" by (rule prod.exhaust)
  have k: "untouched s t1" "untouched s t2" using t1 t2 by (metis untouched_update(3) untouched_refl snd_conv)+
  have "untouched s t3" using untouched_then(1) [OF close [OF k(2)], of rotateWAL] rotate t3 by simp
  moreover have "t = s \<or> t = t1 \<or> t = t2 \<or> t = t3"
    using assms t1 t2 t3 by (auto simp: freezeCheckpoint_def split: option.splits if_splits)
  ultimately show ?thesis using k by auto
qed

lemma erased_untouched:
  assumes "erased t = erased s"
  shows "untouched s t \<and> sequence t = sequence s"
proof -
  have "uuidCount (erased u) = uuidCount u" "projection (erased u) = projection u" "sequence (erased u) = sequence u"
    "loggedEvents (disk (erased u)) = loggedEvents (disk u)"
    for u :: "('a, 'b) Service" by (simp_all add: erased_def)
  then show ?thesis using assms unfolding untouched_def by (metis order_refl)
qed

lemma writeSnapshot_untouched:
  assumes "writeSnapshot sn s = (r, t)"
  shows "untouched s t \<and> sequence t = sequence s"
proof -
  let ?u = "s\<lparr>disk := (disk s)\<lparr>snapshotFile := Some sn\<rparr>\<rparr>"
  have "erased t = erased s \<or> erased t = erased ?u" using writeSnapshot_erased [OF assms] by blast
  then show ?thesis using erased_untouched [of t s] erased_untouched [of t ?u] by (auto simp: untouched_def)
qed

lemma dropPrevious_untouched:
  assumes "dropPrevious s = (r, t)"
  shows "untouched s t \<and> sequence t = sequence s"
proof -
  have "untouched s (snd (dropPrevious s))"
    by (auto simp: dropPrevious_def intro!: untouched_then(1) untouched_sync untouched_onDisk fewer_events(3) split: option.split)
  moreover have "quiet s (snd (dropPrevious s))"
    by (auto simp: dropPrevious_def onDisk_def intro!: quiet_andThen quiet_syncDirectory split: option.split)
  ultimately show ?thesis using assms by (simp add: quiet_def)
qed

end
