(* ===== verification/Projection.thy ===== *)
theory Projection
  imports Ledger
begin

text \<open>
  The projection of the events into PostgreSQL (package \<^verbatim>\<open>store\<close>, projector.go). The tables are
  those \<^verbatim>\<open>Migrate\<close> creates, with their column types, checks, unique columns and references;
  the SQL statements of the program are translated like its Go code. Errors of the connection
  come from a script. The theory proves that a batch is applied once and as a whole, and that
  the tables mirror the ledger the same events build.
\<close>

section \<open>Tables\<close>

record marketRow =
  mrSymbol :: string
  mrOwner :: "string option"
  mrStatus :: Status

record orderRow =
  orUser :: string
  orMarket :: string
  orSide :: Side
  orEngineID :: nat
  orEnginePrice :: int
  orPrice :: int
  orQuantity :: int
  orFilled :: int
  orStatus :: Status

record tradeRow =
  trSequence :: nat
  trMarket :: string
  trBuy :: string
  trSell :: string
  trPrice :: int
  trQuantity :: nat

text \<open>The outcome of a round trip to the server; a lost answer is an error after the effect.\<close>

datatype dbOutcome = DbOk | DbErr goerror | DbLost goerror

record tables =
  tbMarkets :: "(string, marketRow) fmap"
  tbBalances :: "(string, int) fmap"
  tbOrders :: "(string, orderRow) fmap"
  tbPositions :: "(string \<times> string, Position) fmap"
  tbTrades :: "(string, tradeRow) fmap"
  tbEvents :: "(string, nat \<times> Event) fmap"
  dbScript :: "dbOutcome list"

definition emptyTables :: tables where
  "emptyTables = \<lparr>tbMarkets = fmempty, tbBalances = fmempty, tbOrders = fmempty, tbPositions = fmempty,
     tbTrades = fmempty, tbEvents = fmempty, dbScript = []\<rparr>"

abbreviation smallint_max :: int where "smallint_max \<equiv> 32767"
abbreviation integer_max :: int where "integer_max \<equiv> 2147483647"

definition in_smallint :: "int \<Rightarrow> bool" where
  "in_smallint x \<longleftrightarrow> - smallint_max - 1 \<le> x \<and> x \<le> smallint_max"

definition in_integer :: "int \<Rightarrow> bool" where
  "in_integer x \<longleftrightarrow> - integer_max - 1 \<le> x \<and> x \<le> integer_max"

definition nullable :: "string \<Rightarrow> string option" where
  "nullable v = (if v = [] then None else Some v)"

section \<open>Statements\<close>

datatype stmt =
    PutMarket Market
  | Credit string int
  | Debit string int
  | PutOrder Order
  | AddShares string string int int
  | PutTrade string nat Trade

definition marketRowOf :: "Market \<Rightarrow> marketRow" where
  "marketRowOf m = \<lparr>mrSymbol = mSymbol m, mrOwner = nullable (mOwnerID m), mrStatus = mStatus m\<rparr>"

definition orderRowOf :: "Order \<Rightarrow> orderRow" where
  "orderRowOf od = \<lparr>orUser = oUserID od, orMarket = oMarketID od, orSide = oSide od, orEngineID = oEngineID od,
     orEnginePrice = oEnginePrice od, orPrice = oPrice od, orQuantity = oQuantity od, orFilled = oFilledQuantity od,
     orStatus = oStatus od\<rparr>"

definition tradeRowOf :: "nat \<Rightarrow> Trade \<Rightarrow> tradeRow" where
  "tradeRowOf n t = \<lparr>trSequence = n, trMarket = tMarketID t, trBuy = tBuyOrderID t, trSell = tSellOrderID t,
     trPrice = tPrice t, trQuantity = tQuantity t\<rparr>"

definition symbolUsed :: "string \<Rightarrow> string \<Rightarrow> tables \<Rightarrow> bool" where
  "symbolUsed i symbol db \<longleftrightarrow> list_ex (\<lambda>k. k \<noteq> i \<and> map_option mrSymbol (fmlookup (tbMarkets db) k) = Some symbol)
     (sorted_list_of_fset (fmdom (tbMarkets db)))"

text \<open>
  One statement: the number of rows it touches and the tables, or the error of a column type, a
  check, a unique column or a reference. Types and checks are tested on the row proposed for
  insertion, before a conflict is looked for; references only on a row that is really inserted.
\<close>

fun exec :: "stmt \<Rightarrow> tables \<Rightarrow> goerror + nat \<times> tables" where
  "exec (PutMarket m) db =
    (if symbolUsed (mID m) (mSymbol m) db then Inl (External ''unique symbol'')
     else Inr (1, db\<lparr>tbMarkets := fmupd (mID m) (marketRowOf m) (tbMarkets db)\<rparr>))"
| "exec (Credit u d) db =
    (let c = fmget 0 (tbBalances db) u + d
     in if c > int64_max then Inl (External ''bigint out of range'')
        else Inr (1, db\<lparr>tbBalances := fmupd u c (tbBalances db)\<rparr>))"
| "exec (Debit u d) db =
    (case fmlookup (tbBalances db) u of
       None \<Rightarrow> Inr (0, db)
     | Some c \<Rightarrow>
        (if c + d \<ge> 0 then Inr (1, db\<lparr>tbBalances := fmupd u (c + d) (tbBalances db)\<rparr>) else Inr (0, db)))"
| "exec (PutOrder od) db =
    (if \<not> in_smallint (oEnginePrice od) \<or> \<not> in_smallint (oPrice od) \<or> \<not> in_integer (oQuantity od) \<or>
        \<not> in_integer (oFilledQuantity od) then Inl (External ''out of range'')
     else if oPrice od < 1 \<or> oPrice od > 99 \<or> oQuantity od \<le> 0 then Inl (External ''check constraint'')
     else case fmlookup (tbOrders db) (oID od) of
            Some row \<Rightarrow> Inr (1, db\<lparr>tbOrders := fmupd (oID od)
               (row\<lparr>orEngineID := oEngineID od, orFilled := oFilledQuantity od, orStatus := oStatus od\<rparr>) (tbOrders db)\<rparr>)
          | None \<Rightarrow>
             (if fmlookup (tbMarkets db) (oMarketID od) = None then Inl (External ''foreign key'')
              else Inr (1, db\<lparr>tbOrders := fmupd (oID od) (orderRowOf od) (tbOrders db)\<rparr>)))"
| "exec (AddShares u m y n) db =
    (let p = fmget Position0 (tbPositions db) (u, m); y' = pYes p + y; n' = pNo p + n
     in if fmlookup (tbPositions db) (u, m) = None \<and> fmlookup (tbMarkets db) m = None then Inl (External ''foreign key'')
        else if \<not> in_i64 y' \<or> \<not> in_i64 n' then Inl (External ''bigint out of range'')
        else Inr (1, db\<lparr>tbPositions := fmupd (u, m) \<lparr>pYes = y', pNo = n'\<rparr> (tbPositions db)\<rparr>))"
| "exec (PutTrade i n t) db =
    (if int n > int64_max \<or> \<not> in_smallint (tPrice t) \<or> int (tQuantity t) > integer_max
     then Inl (External ''out of range'')
     else if fmlookup (tbTrades db) i \<noteq> None then Inr (0, db)
     else if fmlookup (tbMarkets db) (tMarketID t) = None then Inl (External ''foreign key'')
     else Inr (1, db\<lparr>tbTrades := fmupd i (tradeRowOf n t) (tbTrades db)\<rparr>))"

section \<open>A batch\<close>

definition balanceStmt :: "string \<Rightarrow> int \<Rightarrow> stmt" where
  "balanceStmt user delta = (if delta \<ge> 0 then Credit user delta else Debit user delta)"

definition eventStmts :: "Event \<Rightarrow> stmt list" where
  "eventStmts e =
    (case eType e of
       EventMarket \<Rightarrow> [PutMarket (eMarket e)]
     | EventBalance \<Rightarrow> [balanceStmt (eUserID e) (eAmount e)]
     | EventOrder \<Rightarrow> PutOrder (eOrder e) # (if eAmount e \<noteq> 0 then [balanceStmt (eUserID e) (eAmount e)] else [])
     | EventPosition \<Rightarrow> AddShares (eUserID e) (eMarketID e) (eYesDelta e) (eNoDelta e)
         # (if eAmount e \<noteq> 0 then [balanceStmt (eUserID e) (eAmount e)] else [])
     | EventTrade \<Rightarrow> [PutTrade (eID e) (eSequence e) (eTrade e)]
     | OtherEvent _ \<Rightarrow> [])"

text \<open>
  The statement that admits event IDs: a sequence above 63 bits does not fit the column, and
  text with a zero byte is no \<^verbatim>\<open>jsonb\<close>. An ID that is already there is skipped.
\<close>

definition hasNul :: "string \<Rightarrow> bool" where
  "hasNul s \<longleftrightarrow> CHR 0x00 \<in> set s"

definition eventTexts :: "Event \<Rightarrow> string list" where
  "eventTexts e = [eID e, eUserID e, eMarketID e, mID (eMarket e), mSymbol (eMarket e), mOwnerID (eMarket e),
     oID (eOrder e), oUserID (eOrder e), oMarketID (eOrder e), oEngineSide (eOrder e),
     tMarketID (eTrade e), tBuyOrderID (eTrade e), tSellOrderID (eTrade e)]"

fun admitIDs :: "Event list \<Rightarrow> tables \<Rightarrow> string list \<times> tables" where
  "admitIDs [] db = ([], db)"
| "admitIDs (e # es) db =
    (if fmlookup (tbEvents db) (eID e) \<noteq> None then admitIDs es db
     else let (ids, db') = admitIDs es (db\<lparr>tbEvents := fmupd (eID e) (eSequence e, e) (tbEvents db)\<rparr>)
          in (eID e # ids, db'))"

definition admitAllIDs :: "Event list \<Rightarrow> tables \<Rightarrow> goerror + string list \<times> tables" where
  "admitAllIDs es db =
    (if list_ex (\<lambda>e. list_ex hasNul (eventTexts e)) es then Inl (External ''unsupported Unicode escape sequence'')
     else if list_ex (\<lambda>e. int (eSequence e) > int64_max) es then Inl (External ''bigint out of range'')
     else Inr (admitIDs es db))"

text \<open>The loop over the events: the effects of each admitted ID, once.\<close>

fun queueStmts :: "string list \<Rightarrow> Event list \<Rightarrow> stmt list" where
  "queueStmts admitted [] = []"
| "queueStmts admitted (e # es) =
    (if eID e \<notin> set admitted then queueStmts admitted es
     else eventStmts e @ queueStmts (removeAll (eID e) admitted) es)"

text \<open>
  The results of the pipelined batch, in order. The debits are the statements whose row count is
  checked; the check asks for a nonempty user.
\<close>

fun runStmts :: "stmt list \<Rightarrow> tables \<Rightarrow> goerror + tables" where
  "runStmts [] db = Inr db"
| "runStmts (st # sts) db =
    (case exec st db of
       Inl e \<Rightarrow> Inl e
     | Inr (n, db') \<Rightarrow>
        (case st of
           Debit u d \<Rightarrow> if u \<noteq> [] \<and> n \<noteq> 1 then Inl (New ''insufficient projected balance'') else runStmts sts db'
         | _ \<Rightarrow> runStmts sts db'))"

definition dbCall :: "tables \<Rightarrow> dbOutcome \<times> tables" where
  "dbCall db = (case dbScript db of [] \<Rightarrow> (DbOk, db) | r # rs \<Rightarrow> (r, db\<lparr>dbScript := rs\<rparr>))"

fun dbErr :: "dbOutcome \<Rightarrow> goerror option" where
  "dbErr DbOk = None"
| "dbErr (DbErr e) = Some e"
| "dbErr (DbLost e) = Some e"

definition dbTry :: "tables \<Rightarrow> goerror option \<times> tables" where
  "dbTry db = (case dbCall db of (r, db') \<Rightarrow> (dbErr r, db'))"

text \<open>
  Inside the transaction: the query that admits the IDs, the pipeline when it is not empty, and
  the commit. An error rolls back; only a commit whose answer is lost leaves its effects. The
  result carries the tables as they are after the call.
\<close>

definition transaction :: "Event list \<Rightarrow> tables \<Rightarrow> goerror option \<times> tables" where
  "transaction es db0 =
    (case dbTry db0 of
       (Some e, db1) \<Rightarrow> (Some e, db1)
     | (None, db1) \<Rightarrow>
        (case admitAllIDs es db1 of
           Inl e \<Rightarrow> (Some e, db1)
         | Inr (ids, db2) \<Rightarrow>
            (let sts = queueStmts ids es;
                 (sent, db3) = (if sts = [] then (None, db1) else dbTry db1)
             in case sent of
                  Some e \<Rightarrow> (Some e, db3)
                | None \<Rightarrow>
                   (case runStmts sts (db2\<lparr>dbScript := dbScript db3\<rparr>) of
                      Inl e \<Rightarrow> (Some e, db3)
                    | Inr db4 \<Rightarrow>
                       (case dbCall db4 of
                          (DbOk, db5) \<Rightarrow> (None, db5)
                        | (DbErr e, db5) \<Rightarrow> (Some e, db3\<lparr>dbScript := dbScript db5\<rparr>)
                        | (DbLost e, db5) \<Rightarrow> (Some e, db5))))))"

definition pgApplyBatch :: "tables \<Rightarrow> Event list \<Rightarrow> goerror option \<times> tables" where
  "pgApplyBatch db es =
    (if es = [] then (None, db)
     else case dbTry db of
            (Some e, db1) \<Rightarrow> (Some e, db1)
          | (None, db1) \<Rightarrow>
             (case dbTry db1 of
                (Some e, db2) \<Rightarrow> (Some e, db2)
              | (None, db2) \<Rightarrow> transaction es db2))"

definition pgApply :: "tables \<Rightarrow> Event \<Rightarrow> goerror option \<times> tables" where
  "pgApply db e = pgApplyBatch db [e]"

definition pgProjector :: "tables Projector" where
  "pgProjector = \<lparr>Apply = pgApply, ApplyBatch = Some pgApplyBatch\<rparr>"

section \<open>The effect of a batch\<close>

text \<open>The tables without the script, and what a batch does to them when nothing fails.\<close>

definition rowsOf :: "tables \<Rightarrow> tables" where
  "rowsOf db = db\<lparr>dbScript := []\<rparr>"

definition applied :: "Event list \<Rightarrow> tables \<Rightarrow> goerror + tables" where
  "applied es db =
    (case admitAllIDs es db of Inl e \<Rightarrow> Inl e | Inr (ids, db') \<Rightarrow> runStmts (queueStmts ids es) db')"

lemma exec_script:
  "exec st (db\<lparr>dbScript := x\<rparr>) = (case exec st db of Inl e \<Rightarrow> Inl e | Inr (n, db') \<Rightarrow> Inr (n, db'\<lparr>dbScript := x\<rparr>))"
  by (cases st) (auto simp: symbolUsed_def Let_def split: option.split)

lemma runStmts_script:
  "runStmts sts (db\<lparr>dbScript := x\<rparr>) = (case runStmts sts db of Inl e \<Rightarrow> Inl e | Inr db' \<Rightarrow> Inr (db'\<lparr>dbScript := x\<rparr>))"
  by (induction sts arbitrary: db) (auto simp: exec_script split: sum.split stmt.split)

lemma exec_keeps:
  assumes "exec st db = Inr (n, db')"
  shows "dbScript db' = dbScript db" and "tbEvents db' = tbEvents db"
  using assms by (cases st; auto simp: Let_def split: option.splits if_splits)+

lemma runStmts_keeps:
  assumes "runStmts sts db = Inr db'"
  shows "dbScript db' = dbScript db" and "tbEvents db' = tbEvents db"
proof -
  have "dbScript db' = dbScript db \<and> tbEvents db' = tbEvents db"
    using assms
    by (induction sts arbitrary: db) (force split: sum.splits stmt.splits if_splits dest: exec_keeps)+
  then show "dbScript db' = dbScript db" "tbEvents db' = tbEvents db" by simp_all
qed

lemma runStmts_append:
  "runStmts (xs @ ys) db = (case runStmts xs db of Inl e \<Rightarrow> Inl e | Inr db' \<Rightarrow> runStmts ys db')"
  by (induction xs arbitrary: db) (auto split: sum.split stmt.split)

lemma admitIDs_script:
  "admitIDs es (db\<lparr>dbScript := x\<rparr>) = (case admitIDs es db of (ids, db') \<Rightarrow> (ids, db'\<lparr>dbScript := x\<rparr>))"
proof (induction es arbitrary: db)
  case (Cons e es)
  let ?t = "fmupd (eID e) (eSequence e, e) (tbEvents db)"
  have swap: "db\<lparr>dbScript := x, tbEvents := ?t\<rparr> = db\<lparr>tbEvents := ?t, dbScript := x\<rparr>" by simp
  have "admitIDs es (db\<lparr>dbScript := x, tbEvents := ?t\<rparr>) =
      (case admitIDs es (db\<lparr>tbEvents := ?t\<rparr>) of (ids, db') \<Rightarrow> (ids, db'\<lparr>dbScript := x\<rparr>))"
    unfolding swap by (rule Cons.IH)
  then show ?case using Cons.IH [of db] by (simp add: case_prod_beta)
qed simp

lemma admitIDs_result:
  assumes "admitIDs es db = (ids, db')"
  shows "dbScript db' = dbScript db"
    and "fmdom (tbEvents db') = fmdom (tbEvents db) |\<union>| fset_of_list (map eID es)"
    and "db'\<lparr>tbEvents := t\<rparr> = db\<lparr>tbEvents := t\<rparr>"
proof -
  have "dbScript db' = dbScript db \<and> fmdom (tbEvents db') = fmdom (tbEvents db) |\<union>| fset_of_list (map eID es) \<and>
      (\<forall>t. db'\<lparr>tbEvents := t\<rparr> = db\<lparr>tbEvents := t\<rparr>)"
    using assms
  proof (induction es arbitrary: db ids)
    case (Cons e es)
    show ?case
    proof (cases "fmlookup (tbEvents db) (eID e)")
      case None
      then show ?thesis using Cons by (auto split: prod.splits)
    next
      case (Some x)
      then have "eID e |\<in>| fmdom (tbEvents db)" by (simp add: fmdomI)
      then show ?thesis using Cons Some by auto
    qed
  qed auto
  then show "dbScript db' = dbScript db" "fmdom (tbEvents db') = fmdom (tbEvents db) |\<union>| fset_of_list (map eID es)"
    "db'\<lparr>tbEvents := t\<rparr> = db\<lparr>tbEvents := t\<rparr>" by blast+
qed

lemma admitIDs_known:
  assumes "\<And>e. e \<in> set es \<Longrightarrow> eID e |\<in>| fmdom (tbEvents db)"
  shows "admitIDs es db = ([], db)"
  using assms by (induction es) (auto simp: fmlookup_dom_iff)

lemma admitIDs_fresh:
  assumes "distinct (map eID es)" and "\<And>e. e \<in> set es \<Longrightarrow> eID e |\<notin>| fmdom (tbEvents db)"
  shows "fst (admitIDs es db) = map eID es"
  using assms
proof (induction es arbitrary: db)
  case (Cons e es)
  let ?db = "db\<lparr>tbEvents := fmupd (eID e) (eSequence e, e) (tbEvents db)\<rparr>"
  have "fmlookup (tbEvents db) (eID e) = None" using Cons.prems(2) by (simp add: fmdom_notD)
  moreover have "eID f |\<notin>| fmdom (tbEvents ?db)" if "f \<in> set es" for f
    using Cons.prems that by (auto simp: image_iff)
  ultimately show ?case using Cons.IH [of ?db] Cons.prems(1) by (simp add: case_prod_beta)
qed simp

lemma queueStmts_none [simp]: "queueStmts [] es = []"
  by (induction es) simp_all

lemma queueStmts_all:
  "distinct (map eID es) \<Longrightarrow> queueStmts (map eID es) es = concat (map eventStmts es)"
  by (induction es) auto

lemma dbCall_cases:
  obtains r rest where "dbCall db = (r, db\<lparr>dbScript := rest\<rparr>)"
  by (cases "dbScript db") (auto simp: dbCall_def intro: that [of DbOk "[]"])

lemma rowsOf_script [simp]: "rowsOf (db\<lparr>dbScript := x\<rparr>) = rowsOf db" "rowsOf (rowsOf db) = rowsOf db"
  by (simp_all add: rowsOf_def)

lemma rowsOf_dbTry [simp]: "rowsOf (snd (dbTry db)) = rowsOf db"
  by (rule dbCall_cases [of db]) (simp add: dbTry_def)

lemma applied_script:
  "applied es (db\<lparr>dbScript := x\<rparr>) = (case applied es db of Inl e \<Rightarrow> Inl e | Inr db' \<Rightarrow> Inr (db'\<lparr>dbScript := x\<rparr>))"
  by (auto simp: applied_def admitAllIDs_def admitIDs_script runStmts_script split: prod.split)

lemma applied_rows:
  assumes "applied es db = Inr db'"
  shows "applied es (rowsOf db) = Inr (rowsOf db')"
  using assms applied_script [where db = db and x = "[]"] by (simp add: rowsOf_def)

text \<open>A batch acts as a whole or not at all; without an error it acts.\<close>

lemma transaction_outcome:
  assumes "transaction es db = (r, db1)"
  shows "(r \<noteq> None \<and> rowsOf db1 = rowsOf db) \<or> applied es (rowsOf db) = Inr (rowsOf db1)"
proof -
  obtain r1 d1 where d1: "dbTry db = (r1, d1)" by (rule prod.exhaust)
  have c1: "rowsOf d1 = rowsOf db" using d1 rowsOf_dbTry by (metis snd_conv)
  show ?thesis
  proof (cases "r1 = None")
    case False
    then show ?thesis using assms d1 c1 by (auto simp: transaction_def)
  next
    case r1: True
    show ?thesis
    proof (cases "admitAllIDs es d1")
      case (Inl e)
      then show ?thesis using assms d1 r1 c1 by (auto simp: transaction_def)
    next
      case (Inr x)
      obtain ids d2 where d2: "admitAllIDs es d1 = Inr (ids, d2)" using Inr by (cases x) simp
      let ?sts = "queueStmts ids es"
      obtain r3 d3 where d3: "(if ?sts = [] then (None, d1) else dbTry d1) = (r3, d3)" by (rule prod.exhaust)
      have c3: "rowsOf d3 = rowsOf d1" using d3 rowsOf_dbTry [of d1] by (metis snd_conv)
      consider (sent) e where "r3 = Some e" | (bad) e where "r3 = None" "runStmts ?sts (d2\<lparr>dbScript := dbScript d3\<rparr>) = Inl e"
        | (ran) d4 where "r3 = None" "runStmts ?sts (d2\<lparr>dbScript := dbScript d3\<rparr>) = Inr d4"
        by (cases r3; cases "runStmts ?sts (d2\<lparr>dbScript := dbScript d3\<rparr>)") auto
      then show ?thesis
      proof cases
        case ran
        obtain r5 rest where d5: "dbCall d4 = (r5, d4\<lparr>dbScript := rest\<rparr>)" by (rule dbCall_cases)
        have "runStmts ?sts d2 = Inr (d4\<lparr>dbScript := dbScript d2\<rparr>)"
          using runStmts_script [where db = "d2\<lparr>dbScript := dbScript d3\<rparr>" and x = "dbScript d2"] ran(2) by simp
        then have a: "applied es d1 = Inr (d4\<lparr>dbScript := dbScript d2\<rparr>)" using d2 by (simp add: applied_def)
        then have "applied es (rowsOf db) = Inr (rowsOf d4)" using applied_rows [OF a] c1 by simp
        then show ?thesis using assms d1 r1 d2 d3 ran d5 c3 c1 by (cases r5) (auto simp: transaction_def Let_def)
      qed (use assms d1 r1 d2 d3 c3 c1 in \<open>auto simp: transaction_def Let_def\<close>)
    qed
  qed
qed

lemma batch_outcome:
  assumes "pgApplyBatch db es = (r, db1)"
  shows "(r \<noteq> None \<and> rowsOf db1 = rowsOf db) \<or> applied es (rowsOf db) = Inr (rowsOf db1)"
proof (cases "es = []")
  case True
  then show ?thesis using assms by (simp add: pgApplyBatch_def applied_def admitAllIDs_def)
next
  case False
  obtain r1 d1 where d1: "dbTry db = (r1, d1)" by (rule prod.exhaust)
  obtain r2 d2 where d2: "dbTry d1 = (r2, d2)" by (rule prod.exhaust)
  have c: "rowsOf d1 = rowsOf db" "rowsOf d2 = rowsOf db" using d1 d2 rowsOf_dbTry by (metis snd_conv)+
  have "(r, db1) = (case r1 of Some e \<Rightarrow> (Some e, d1) | None \<Rightarrow> (case r2 of Some e \<Rightarrow> (Some e, d2) | None \<Rightarrow> transaction es d2))"
    using assms False d1 d2 by (cases r1; cases r2) (auto simp: pgApplyBatch_def)
  then show ?thesis using transaction_outcome [of es d2 r db1] c by (auto split: option.splits)
qed

lemma batch_calm:
  assumes "dbScript db = []" and "applied es db = Inr db'"
  shows "pgApplyBatch db es = (None, db')"
proof -
  have calls: "dbTry d = (None, d)" "dbCall d = (DbOk, d)" if "dbScript d = []" for d using that by (simp_all add: dbTry_def dbCall_def)
  show ?thesis
  proof (cases "es = []")
    case False
    obtain ids d where d: "admitAllIDs es db = Inr (ids, d)" "runStmts (queueStmts ids es) d = Inr db'"
      using assms(2) by (auto simp: applied_def split: sum.splits)
    have "admitIDs es db = (ids, d)" using d(1) by (auto simp: admitAllIDs_def split: if_splits)
    then have s: "dbScript d = []" "d\<lparr>dbScript := []\<rparr> = d" "dbScript db' = []"
      using admitIDs_result(1) [of es db ids d] runStmts_keeps(1) [OF d(2)] assms(1) by simp_all
    show ?thesis using False calls d s(1,3) assms(1) by (auto simp: pgApplyBatch_def transaction_def Let_def s(2))
  qed (use assms in \<open>simp add: pgApplyBatch_def applied_def admitAllIDs_def\<close>)
qed

lemma applied_again:
  assumes "applied es db = Inr db1"
  shows "applied es db1 = Inr db1"
proof -
  obtain ids d where d: "admitAllIDs es db = Inr (ids, d)" "runStmts (queueStmts ids es) d = Inr db1"
    using assms by (auto simp: applied_def split: sum.splits)
  have a: "admitIDs es db = (ids, d)" using d(1) by (auto simp: admitAllIDs_def split: if_splits)
  have "eID e |\<in>| fmdom (tbEvents db1)" if "e \<in> set es" for e
    using admitIDs_result(2) [OF a] runStmts_keeps(2) [OF d(2)] that by (auto simp: fset_of_list_elem)
  then have "admitIDs es db1 = ([], db1)" by (rule admitIDs_known)
  then show ?thesis using d(1) by (auto simp: applied_def admitAllIDs_def split: if_splits)
qed

section \<open>The tables mirror the ledger\<close>

text \<open>The checks and types of the columns hold of every row.\<close>

definition tablesOk :: "tables \<Rightarrow> bool" where
  "tablesOk db \<longleftrightarrow> (\<forall>u c. fmlookup (tbBalances db) u = Some c \<longrightarrow> 0 \<le> c \<and> c \<le> int64_max) \<and>
     (\<forall>k p. fmlookup (tbPositions db) k = Some p \<longrightarrow> in_i64 (pYes p) \<and> in_i64 (pNo p)) \<and>
     (\<forall>i r. fmlookup (tbOrders db) i = Some r \<longrightarrow> 1 \<le> orPrice r \<and> orPrice r \<le> 99 \<and> 0 < orQuantity r) \<and>
     (\<forall>i j r r'. fmlookup (tbMarkets db) i = Some r \<longrightarrow> fmlookup (tbMarkets db) j = Some r' \<longrightarrow> mrSymbol r = mrSymbol r' \<longrightarrow> i = j)"

text \<open>The columns of a row, one by one, against what the row stands for.\<close>

definition marketRowFits :: "marketRow \<Rightarrow> Market \<Rightarrow> bool" where
  "marketRowFits r m \<longleftrightarrow> mrSymbol r = mSymbol m \<and> mrStatus r = mStatus m \<and>
     (case mrOwner r of None \<Rightarrow> mOwnerID m = [] | Some owner \<Rightarrow> owner = mOwnerID m \<and> owner \<noteq> [])"

definition orderRowFits :: "orderRow \<Rightarrow> Order \<Rightarrow> bool" where
  "orderRowFits r od \<longleftrightarrow> orUser r = oUserID od \<and> orMarket r = oMarketID od \<and> orSide r = oSide od \<and>
     orPrice r = oPrice od \<and> orQuantity r = oQuantity od \<and> orEnginePrice r = oEnginePrice od \<and>
     orEngineID r = oEngineID od \<and> orFilled r = oFilledQuantity od \<and> orStatus r = oStatus od"

definition tradeRowFits :: "tradeRow \<Rightarrow> nat \<Rightarrow> Trade \<Rightarrow> bool" where
  "tradeRowFits r n t \<longleftrightarrow> trSequence r = n \<and> trMarket r = tMarketID t \<and> trBuy r = tBuyOrderID t \<and>
     trSell r = tSellOrderID t \<and> trPrice r = tPrice t \<and> trQuantity r = tQuantity t"

definition mirrored :: "tables \<Rightarrow> 'a ledger_scheme \<Rightarrow> bool" where
  "mirrored db s \<longleftrightarrow> (\<forall>u. fmget 0 (tbBalances db) u = Balance s u) \<and>
     (\<forall>u m. fmget Position0 (tbPositions db) (u, m) = PositionOf s u m) \<and>
     (\<forall>i. rel_option marketRowFits (fmlookup (tbMarkets db) i) (fmlookup (markets s) i)) \<and>
     (\<forall>i. rel_option orderRowFits (fmlookup (tbOrders db) i) (fmlookup (orders s) i))"

text \<open>The table of trades has a row for each recorded trade and no other.\<close>

definition tradesOk :: "tables \<Rightarrow> bool" where
  "tradesOk db \<longleftrightarrow> (\<forall>i. case fmlookup (tbEvents db) i of
       None \<Rightarrow> fmlookup (tbTrades db) i = None
     | Some (n, e) \<Rightarrow> n = eSequence e \<and> eID e = i \<and>
        (if eType e = EventTrade then (\<exists>r. fmlookup (tbTrades db) i = Some r \<and> tradeRowFits r n (eTrade e))
         else fmlookup (tbTrades db) i = None))"

lemma tradesOk_script [simp]: "tradesOk (db\<lparr>dbScript := x\<rparr>) = tradesOk db"
  unfolding tradesOk_def by (intro arg_cong [where f = All] ext) (simp split: option.split)

lemma tablesOk_balance:
  assumes "tablesOk db"
  shows "0 \<le> fmget 0 (tbBalances db) u" and "fmget 0 (tbBalances db) u \<le> int64_max"
  using assms by (auto simp: tablesOk_def fmget_def split: option.split)

lemma tablesOk_position:
  assumes "tablesOk db"
  shows "in_i64 (pYes (fmget Position0 (tbPositions db) k))" and "in_i64 (pNo (fmget Position0 (tbPositions db) k))"
  using assms by (cases k; auto simp: tablesOk_def fmget_def split: option.split)+

lemma symbolUsed_iff:
  "symbolUsed i symbol db \<longleftrightarrow> (\<exists>k r. k \<noteq> i \<and> fmlookup (tbMarkets db) k = Some r \<and> mrSymbol r = symbol)"
proof -
  have "set (sorted_list_of_fset (fmdom (tbMarkets db))) = {k. \<exists>r. fmlookup (tbMarkets db) k = Some r}"
    by (auto simp: set_sorted_keys fmlookup_dom'_iff fmlookup_dom_iff)
  then show ?thesis by (auto simp: symbolUsed_def list_ex_iff)
qed

lemma exec_tablesOk:
  assumes "exec st db = Inr (n, db')" and "tablesOk db" and "\<And>u d. st = Credit u d \<Longrightarrow> 0 \<le> d" and "\<And>u d. st = Debit u d \<Longrightarrow> d \<le> 0"
  shows "tablesOk db'"
proof (cases st)
  case (PutMarket m)
  then have d: "\<not> symbolUsed (mID m) (mSymbol m) db" "db' = db\<lparr>tbMarkets := fmupd (mID m) (marketRowOf m) (tbMarkets db)\<rparr>"
    using assms(1) by (auto split: if_splits)
  have "mrSymbol (marketRowOf m) = mSymbol m" by (simp add: marketRowOf_def)
  then show ?thesis using assms(2) d unfolding tablesOk_def symbolUsed_iff by (simp add: all_conj_distrib) metis
next
  case (Credit u d)
  then show ?thesis using assms tablesOk_balance [OF assms(2), of u] by (auto simp: tablesOk_def Let_def split: if_splits)
next
  case (Debit u d)
  then show ?thesis using assms by (fastforce simp: tablesOk_def split: if_splits option.splits)
next
  case (PutOrder od)
  then show ?thesis using assms by (auto simp: tablesOk_def orderRowOf_def split: if_splits option.splits)
next
  case (AddShares u m y k)
  then show ?thesis using assms by (auto simp: tablesOk_def Let_def split: if_splits)
next
  case (PutTrade i k t)
  then show ?thesis using assms by (auto simp: tablesOk_def split: if_splits)
qed

lemma mirrored_balance:
  assumes "runStmts [balanceStmt u d] db = Inr db'" and "mirrored db s" and "tablesOk db" and "d < 0 \<longrightarrow> u \<noteq> []"
  shows "mirrored db' (addBalance u d s)" and "tablesOk db'"
proof -
  let ?b = "fmget 0 (tbBalances db) u"
  have b: "0 \<le> ?b" "?b \<le> int64_max" by (rule tablesOk_balance [OF assms(3)])+
  have new: "db' = db\<lparr>tbBalances := fmupd u (?b + d) (tbBalances db)\<rparr> \<and> 0 \<le> ?b + d \<and> ?b + d \<le> int64_max"
  proof (cases "d < 0")
    case True
    then have d: "runStmts [Debit u d] db = Inr db'" "u \<noteq> []" using assms(1,4) by (simp_all add: balanceStmt_def)
    show ?thesis
    proof (cases "fmlookup (tbBalances db) u")
      case (Some c)
      then have "?b = c" by (simp add: fmget_def)
      then show ?thesis using d Some True b by (auto split: if_splits)
    qed (use d in simp)
  next
    case False
    then show ?thesis using assms(1) b by (auto simp: balanceStmt_def Let_def split: if_splits)
  qed
  then have "i64 (?b + d) = ?b + d" by (intro i64_id) (simp add: in_i64_def)
  moreover have "fmget 0 (balances s) v = fmget 0 (tbBalances db) v" for v using assms(2) by (simp add: mirrored_def Balance_def)
  ultimately show "mirrored db' (addBalance u d s)"
    using assms(2) new by (auto simp: mirrored_def addBalance_def Balance_def PositionOf_def)
  show "tablesOk db'" using assms(3) new by (auto simp: tablesOk_def)
qed

lemma mirrored_optional:
  assumes "runStmts (if d \<noteq> 0 then [balanceStmt u d] else []) db = Inr db'" and "mirrored db s" and "tablesOk db" and "d < 0 \<longrightarrow> u \<noteq> []"
  shows "mirrored db' (addBalance u d s)" and "tablesOk db'"
proof -
  have "mirrored db (addBalance u 0 s)"
  proof -
    have "i64 (Balance s u) = Balance s u"
      using assms(2) tablesOk_balance [OF assms(3), of u] by (intro i64_id) (simp add: mirrored_def in_i64_def)
    then show ?thesis using assms(2) by (simp add: mirrored_def addBalance_def Balance_def PositionOf_def)
  qed
  then show "mirrored db' (addBalance u d s)" "tablesOk db'"
    using assms mirrored_balance [of u d db db' s] by (cases "d = 0"; simp)+
qed

text \<open>The statement updates three columns of a row; the terms of the order are those of its first event.\<close>

lemma mirrored_order:
  assumes "exec (PutOrder od) db = Inr (n, db')" and "mirrored db s"
    and "\<And>old. fmlookup (orders s) (oID od) = Some old \<Longrightarrow> orderTerms old = orderTerms od"
  shows "mirrored db' (putOrder od s)"
proof -
  have new: "orderRowFits (orderRowOf od) od" by (simp add: orderRowFits_def orderRowOf_def)
  have old: "orderRowFits (r\<lparr>orEngineID := oEngineID od, orFilled := oFilledQuantity od, orStatus := oStatus od\<rparr>) od"
    if "fmlookup (tbOrders db) (oID od) = Some r" for r
  proof -
    have "rel_option orderRowFits (Some r) (fmlookup (orders s) (oID od))" using assms(2) that unfolding mirrored_def by metis
    then obtain x where "fmlookup (orders s) (oID od) = Some x" "orderRowFits r x" by (auto simp: option_rel_Some1)
    then show ?thesis using assms(3) [of x] by (simp add: orderRowFits_def orderTerms_def)
  qed
  obtain r where r: "db' = db\<lparr>tbOrders := fmupd (oID od) r (tbOrders db)\<rparr>" "orderRowFits r od"
    using assms(1) new old by (auto split: if_splits option.splits)
  show ?thesis using assms(2) r unfolding mirrored_def by (simp add: putOrder_def Let_def Balance_def PositionOf_def)
qed

lemma mirrored_shares:
  assumes "exec (AddShares u m y k) db = Inr (n, db')" and "mirrored db s" and "tablesOk db"
  shows "mirrored db' (addPosition u m y k s)"
proof -
  let ?p = "fmget Position0 (tbPositions db) (u, m)"
  have p: "?p = fmget Position0 (fmget fmempty (positions s) u) m" using assms(2) by (simp add: mirrored_def PositionOf_def)
  have d: "in_i64 (pYes ?p + y)" "in_i64 (pNo ?p + k)"
      "db' = db\<lparr>tbPositions := fmupd (u, m) \<lparr>pYes = pYes ?p + y, pNo = pNo ?p + k\<rparr> (tbPositions db)\<rparr>"
    using assms(1) by (auto simp: Let_def split: if_splits)
  show ?thesis using assms(2) d p unfolding mirrored_def
    by (auto simp: addPosition_def Let_def Balance_def PositionOf_def)
qed

lemma mirrored_sequence [simp]: "mirrored db (s\<lparr>sequence := n\<rparr>) = mirrored db s"
  by (simp add: mirrored_def Balance_def PositionOf_def)

lemma mirrored_event:
  assumes "runStmts (eventStmts e) db = Inr db'" and "mirrored db s" and "tablesOk db" and "eAmount e < 0 \<longrightarrow> eUserID e \<noteq> []"
    and "\<And>old. eType e = EventOrder \<Longrightarrow> fmlookup (orders s) (oID (eOrder e)) = Some old \<Longrightarrow> orderTerms old = orderTerms (eOrder e)"
  shows "mirrored db' (apply_event e s) \<and> tablesOk db'"
proof -
  let ?s = "if sequence s < eSequence e then s\<lparr>sequence := eSequence e\<rparr> else s"
  have s: "mirrored db ?s" using assms(2) by simp
  show ?thesis
  proof (cases "eType e")
    case EventMarket
    then obtain n where x: "exec (PutMarket (eMarket e)) db = Inr (n, db')"
      using assms(1) by (auto simp: eventStmts_def split: sum.splits)
    then have "db' = db\<lparr>tbMarkets := fmupd (mID (eMarket e)) (marketRowOf (eMarket e)) (tbMarkets db)\<rparr>" by (auto split: if_splits)
    moreover have "marketRowFits (marketRowOf m) m" for m by (simp add: marketRowFits_def marketRowOf_def nullable_def)
    ultimately show ?thesis using assms(2) EventMarket exec_tablesOk [OF x assms(3)]
      by (simp add: apply_event_def Let_def mirrored_def Balance_def PositionOf_def)
  next
    case EventBalance
    then show ?thesis using mirrored_balance [of "eUserID e" "eAmount e" db db' ?s] s assms
      by (simp add: eventStmts_def apply_event_def Let_def)
  next
    case EventOrder
    then obtain n d where x: "exec (PutOrder (eOrder e)) db = Inr (n, d)"
        "runStmts (if eAmount e \<noteq> 0 then [balanceStmt (eUserID e) (eAmount e)] else []) d = Inr db'"
      using assms(1) by (auto simp: eventStmts_def split: sum.splits)
    have ev: "apply_event e s = addBalance (eUserID e) (eAmount e) (putOrder (eOrder e) ?s)"
      unfolding apply_event_def Let_def EventOrder by simp
    have d: "tablesOk d" by (rule exec_tablesOk [OF x(1) assms(3)]) simp_all
    have "orders ?s = orders s" by simp
    then have "mirrored d (putOrder (eOrder e) ?s)" using mirrored_order [OF x(1) s] assms(5) [OF EventOrder] by metis
    then show ?thesis unfolding ev using mirrored_optional [OF x(2) _ d assms(4)] by blast
  next
    case EventPosition
    then obtain n d where x: "exec (AddShares (eUserID e) (eMarketID e) (eYesDelta e) (eNoDelta e)) db = Inr (n, d)"
        "runStmts (if eAmount e \<noteq> 0 then [balanceStmt (eUserID e) (eAmount e)] else []) d = Inr db'"
      using assms(1) by (auto simp: eventStmts_def split: sum.splits)
    have ev: "apply_event e s = addBalance (eUserID e) (eAmount e) (addPosition (eUserID e) (eMarketID e) (eYesDelta e) (eNoDelta e) ?s)"
      unfolding apply_event_def Let_def EventPosition by simp
    have d: "tablesOk d" by (rule exec_tablesOk [OF x(1) assms(3)]) simp_all
    show ?thesis unfolding ev using mirrored_optional [OF x(2) mirrored_shares [OF x(1) s assms(3)] d assms(4)] by blast
  next
    case EventTrade
    then obtain n where x: "exec (PutTrade (eID e) (eSequence e) (eTrade e)) db = Inr (n, db')"
      using assms(1) by (auto simp: eventStmts_def split: sum.splits)
    then have "mirrored db' ?s" using s by (auto simp: mirrored_def split: if_splits)
    then show ?thesis using exec_tablesOk [OF x assms(3)] EventTrade by (simp add: apply_event_def Let_def)
  next
    case (OtherEvent x)
    then show ?thesis using assms(1,3) s by (simp add: eventStmts_def apply_event_def Let_def)
  qed
qed

lemma mirrored_events:
  assumes "runStmts (concat (map eventStmts es)) db = Inr db'" and "mirrored db s" and "tablesOk db"
    and "\<And>e. e \<in> set es \<Longrightarrow> eAmount e < 0 \<Longrightarrow> eUserID e \<noteq> []" and "fits_terms T s"
    and "\<And>e. e \<in> set es \<Longrightarrow> eType e = EventOrder \<Longrightarrow> orderTerms (eOrder e) = T (oID (eOrder e))"
  shows "mirrored db' (apply_all es s) \<and> tablesOk db'"
  using assms
proof (induction es arbitrary: db s)
  case (Cons e es)
  obtain d where d: "runStmts (eventStmts e) db = Inr d" "runStmts (concat (map eventStmts es)) d = Inr db'"
    using Cons.prems(1) by (auto simp: runStmts_append split: sum.splits)
  have "mirrored d (apply_event e s) \<and> tablesOk d"
    using mirrored_event [OF d(1) Cons.prems(2,3)] Cons.prems(4-6) by (simp add: fits_terms_def)
  moreover have "fits_terms T (apply_event e s)" using fits_event [OF Cons.prems(5)] Cons.prems(6) by simp
  ultimately show ?case using Cons.IH [OF d(2), of "apply_event e s"] Cons.prems(4,6) by (simp add: apply_all_def)
qed (simp add: apply_all_def)

text \<open>A batch of new events that was applied leaves the tables mirroring the new ledger.\<close>

lemma applied_new:
  assumes "applied es db = Inr db'" and "distinct (map eID es)" and "\<And>e. e \<in> set es \<Longrightarrow> eID e |\<notin>| fmdom (tbEvents db)"
  obtains d where "admitIDs es db = (map eID es, d)" "runStmts (concat (map eventStmts es)) d = Inr db'"
    "d\<lparr>tbEvents := tbEvents db\<rparr> = db"
proof -
  obtain ids d where d: "admitAllIDs es db = Inr (ids, d)" "runStmts (queueStmts ids es) d = Inr db'"
    using assms(1) by (auto simp: applied_def split: sum.splits)
  have a: "admitIDs es db = (ids, d)" using d(1) by (auto simp: admitAllIDs_def split: if_splits)
  have ids: "ids = map eID es" using admitIDs_fresh [OF assms(2,3)] a by simp
  have "d\<lparr>tbEvents := tbEvents db\<rparr> = db" using admitIDs_result(3) [OF a, of "tbEvents db"] by simp
  then show thesis using that a ids d(2) queueStmts_all [OF assms(2)] by metis
qed

lemma applied_mirrors:
  assumes "applied es db = Inr db'" and "mirrored db s" and "tablesOk db" and "distinct (map eID es)"
    and "\<And>e. e \<in> set es \<Longrightarrow> eID e |\<notin>| fmdom (tbEvents db)"
    and "\<And>e. e \<in> set es \<Longrightarrow> eAmount e < 0 \<Longrightarrow> eUserID e \<noteq> []" and "fits_terms T s"
    and "\<And>e. e \<in> set es \<Longrightarrow> eType e = EventOrder \<Longrightarrow> orderTerms (eOrder e) = T (oID (eOrder e))"
  shows "mirrored db' (apply_all es s) \<and> tablesOk db'"
proof -
  obtain d where d: "runStmts (concat (map eventStmts es)) d = Inr db'" "d\<lparr>tbEvents := tbEvents db\<rparr> = db"
    by (rule applied_new [OF assms(1,4,5)])
  then have "mirrored d s = mirrored db s" "tablesOk d = tablesOk db"
    by (cases d; cases db; simp add: mirrored_def tablesOk_def)+
  then show ?thesis using mirrored_events [OF d(1) _ _ assms(6-8)] assms(2,3) by blast
qed

text \<open>The table of events after the admission of new IDs, and the table of trades after the batch.\<close>

lemma admitIDs_rows:
  assumes "distinct (map eID es)" and "\<And>e. e \<in> set es \<Longrightarrow> eID e |\<notin>| fmdom (tbEvents db)"
  shows "e \<in> set es \<Longrightarrow> fmlookup (tbEvents (snd (admitIDs es db))) (eID e) = Some (eSequence e, e)"
    and "i \<notin> eID ` set es \<Longrightarrow> fmlookup (tbEvents (snd (admitIDs es db))) i = fmlookup (tbEvents db) i"
proof -
  have "(e \<in> set es \<longrightarrow> fmlookup (tbEvents (snd (admitIDs es db))) (eID e) = Some (eSequence e, e)) \<and>
      (i \<notin> eID ` set es \<longrightarrow> fmlookup (tbEvents (snd (admitIDs es db))) i = fmlookup (tbEvents db) i)" for e i
    using assms
  proof (induction es arbitrary: db e i)
    case (Cons x es)
    let ?db = "db\<lparr>tbEvents := fmupd (eID x) (eSequence x, x) (tbEvents db)\<rparr>"
    have x: "fmlookup (tbEvents db) (eID x) = None" using Cons.prems(2) by (simp add: fmdom_notD)
    have new: "eID f |\<notin>| fmdom (tbEvents ?db)" if "f \<in> set es" for f using Cons.prems that by (auto simp: image_iff)
    note IH = Cons.IH [of ?db, OF _ new]
    have s: "snd (admitIDs (x # es) db) = snd (admitIDs es ?db)" using x by (simp add: case_prod_beta)
    have "eID x \<notin> eID ` set es" using Cons.prems(1) by auto
    then show ?case using IH Cons.prems(1) unfolding s by auto
  qed simp
  then show "e \<in> set es \<Longrightarrow> fmlookup (tbEvents (snd (admitIDs es db))) (eID e) = Some (eSequence e, e)"
    "i \<notin> eID ` set es \<Longrightarrow> fmlookup (tbEvents (snd (admitIDs es db))) i = fmlookup (tbEvents db) i" by blast+
qed

lemma exec_trades:
  assumes "exec st db = Inr (n, db')"
  shows "tbTrades db' = (case st of PutTrade i k t \<Rightarrow>
      if fmlookup (tbTrades db) i = None then fmupd i (tradeRowOf k t) (tbTrades db) else tbTrades db | _ \<Rightarrow> tbTrades db)"
  using assms by (cases st) (auto simp: Let_def split: option.splits if_splits)

lemma runStmts_trades:
  assumes "runStmts sts db = Inr db'" and "\<And>i k t. PutTrade i k t \<notin> set sts"
  shows "tbTrades db' = tbTrades db"
  using assms
proof (induction sts arbitrary: db)
  case (Cons st sts)
  obtain n d where d: "exec st db = Inr (n, d)" "runStmts sts d = Inr db'" using Cons.prems(1) by (auto split: sum.splits stmt.splits if_splits)
  have "tbTrades d = tbTrades db" using exec_trades [OF d(1)] Cons.prems(2) by (cases st) auto
  then show ?case using Cons.IH [OF d(2)] Cons.prems(2) by simp
qed simp

lemma eventStmts_trades:
  assumes "runStmts (eventStmts e) db = Inr db'" and "fmlookup (tbTrades db) (eID e) = None"
  shows "tbTrades db' = (if eType e = EventTrade then fmupd (eID e) (tradeRowOf (eSequence e) (eTrade e)) (tbTrades db) else tbTrades db)"
proof (cases "eType e = EventTrade")
  case True
  then obtain n where "exec (PutTrade (eID e) (eSequence e) (eTrade e)) db = Inr (n, db')"
    using assms(1) by (auto simp: eventStmts_def split: sum.splits)
  from exec_trades [OF this] show ?thesis using assms(2) True by simp
next
  case False
  then have "PutTrade i k t \<notin> set (eventStmts e)" for i k t
    by (cases "eType e") (auto simp: eventStmts_def balanceStmt_def)
  then show ?thesis using runStmts_trades [OF assms(1)] False by simp
qed

lemma batch_trades:
  assumes "runStmts (concat (map eventStmts es)) db = Inr db'" and "distinct (map eID es)"
    and "\<And>e. e \<in> set es \<Longrightarrow> fmlookup (tbTrades db) (eID e) = None"
  shows "e \<in> set es \<Longrightarrow> fmlookup (tbTrades db') (eID e) = (if eType e = EventTrade then Some (tradeRowOf (eSequence e) (eTrade e)) else None)"
    and "i \<notin> eID ` set es \<Longrightarrow> fmlookup (tbTrades db') i = fmlookup (tbTrades db) i"
proof -
  have "(e \<in> set es \<longrightarrow> fmlookup (tbTrades db') (eID e) = (if eType e = EventTrade then Some (tradeRowOf (eSequence e) (eTrade e)) else None)) \<and>
      (i \<notin> eID ` set es \<longrightarrow> fmlookup (tbTrades db') i = fmlookup (tbTrades db) i)" for e i
    using assms
  proof (induction es arbitrary: db e i)
    case (Cons x es)
    obtain d where d: "runStmts (eventStmts x) db = Inr d" "runStmts (concat (map eventStmts es)) d = Inr db'"
      using Cons.prems(1) by (auto simp: runStmts_append split: sum.splits)
    have t: "tbTrades d = (if eType x = EventTrade then fmupd (eID x) (tradeRowOf (eSequence x) (eTrade x)) (tbTrades db) else tbTrades db)"
      using eventStmts_trades [OF d(1)] Cons.prems(3) by simp
    have x: "eID x \<notin> eID ` set es" using Cons.prems(2) by auto
    have "fmlookup (tbTrades d) (eID f) = None" if "f \<in> set es" for f using t x Cons.prems(3) [of f] that by auto
    note IH = Cons.IH [OF d(2) _ this]
    show ?case using IH Cons.prems(2,3) t x by auto
  qed simp
  then show "e \<in> set es \<Longrightarrow> fmlookup (tbTrades db') (eID e) = (if eType e = EventTrade then Some (tradeRowOf (eSequence e) (eTrade e)) else None)"
    "i \<notin> eID ` set es \<Longrightarrow> fmlookup (tbTrades db') i = fmlookup (tbTrades db) i" by blast+
qed

lemma applied_trades:
  assumes "applied es db = Inr db'" and "tradesOk db" and "distinct (map eID es)"
    and "\<And>e. e \<in> set es \<Longrightarrow> eID e |\<notin>| fmdom (tbEvents db)"
  shows "tradesOk db'" and "e \<in> set es \<Longrightarrow> fmlookup (tbEvents db') (eID e) = Some (eSequence e, e)"
    and "fmlookup (tbEvents db) i = Some x \<Longrightarrow> fmlookup (tbEvents db') i = Some x"
proof -
  obtain d where d: "admitIDs es db = (map eID es, d)" "runStmts (concat (map eventStmts es)) d = Inr db'"
      "d\<lparr>tbEvents := tbEvents db\<rparr> = db"
    by (rule applied_new [OF assms(1,3,4)])
  have tr: "tbTrades d = tbTrades db" using d(3) by (cases d; cases db) simp
  have ev: "tbEvents db' = tbEvents d" by (rule runStmts_keeps(2) [OF d(2)])
  have adm: "e \<in> set es \<Longrightarrow> fmlookup (tbEvents d) (eID e) = Some (eSequence e, e)"
    "i \<notin> eID ` set es \<Longrightarrow> fmlookup (tbEvents d) i = fmlookup (tbEvents db) i" for e i
    using admitIDs_rows [of es db] assms(3,4) d(1) by simp_all
  have none: "fmlookup (tbTrades db) (eID e) = None" if "e \<in> set es" for e
  proof -
    have "fmlookup (tbEvents db) (eID e) = None" using assms(4) [OF that] by (simp add: fmdom_notD)
    then show ?thesis using assms(2) [unfolded tradesOk_def, rule_format, of "eID e"] by simp
  qed
  have rows: "e \<in> set es \<Longrightarrow> fmlookup (tbTrades db') (eID e) = (if eType e = EventTrade then Some (tradeRowOf (eSequence e) (eTrade e)) else None)"
    "i \<notin> eID ` set es \<Longrightarrow> fmlookup (tbTrades db') i = fmlookup (tbTrades db) i" for e i
    using batch_trades [OF d(2) assms(3)] none tr by simp_all
  show "e \<in> set es \<Longrightarrow> fmlookup (tbEvents db') (eID e) = Some (eSequence e, e)" unfolding ev by (rule adm(1))
  show old: "fmlookup (tbEvents db') i = Some x" if "fmlookup (tbEvents db) i = Some x" for i x
  proof -
    have "i \<notin> eID ` set es" using assms(4) fmdomI [OF that] by auto
    then show ?thesis using adm(2) that ev by simp
  qed
  show "tradesOk db'"
    unfolding tradesOk_def
  proof
    fix i
    have fit: "tradeRowFits (tradeRowOf n t) n t" for n t by (simp add: tradeRowFits_def tradeRowOf_def)
    show "case fmlookup (tbEvents db') i of
       None \<Rightarrow> fmlookup (tbTrades db') i = None
     | Some (n, e) \<Rightarrow> n = eSequence e \<and> eID e = i \<and>
        (if eType e = EventTrade then (\<exists>r. fmlookup (tbTrades db') i = Some r \<and> tradeRowFits r n (eTrade e))
         else fmlookup (tbTrades db') i = None)"
    proof (cases "i \<in> eID ` set es")
      case True
      then obtain e where e: "e \<in> set es" "i = eID e" by auto
      then show ?thesis using adm(1) [OF e(1)] rows(1) [OF e(1)] ev fit by simp
    next
      case False
      show ?thesis unfolding ev adm(2) [OF False] rows(2) [OF False] using assms(2) [unfolded tradesOk_def, rule_format, of i] .
    qed
  qed
qed

lemma applied_events:
  assumes "applied es db = Inr db'"
  shows "fmdom (tbEvents db') = fmdom (tbEvents db) |\<union>| fset_of_list (map eID es)"
proof -
  obtain ids d where d: "admitAllIDs es db = Inr (ids, d)" "runStmts (queueStmts ids es) d = Inr db'"
    using assms by (auto simp: applied_def split: sum.splits)
  have "admitIDs es db = (ids, d)" using d(1) by (auto simp: admitAllIDs_def split: if_splits)
  then show ?thesis using admitIDs_result(2) runStmts_keeps(2) [OF d(2)] by metis
qed

end
