(* ===== verification/Projected_Service.thy ===== *)
theory Projected_Service
  imports Projection Durability
begin

text \<open>
  The trading service with its SQL projection: a commit that succeeds leaves the tables
  mirroring the ledger, and the IDs that \<^verbatim>\<open>uuid.NewString\<close> makes stay new to the table of events.
\<close>

text \<open>What the program relies on of UUIDs: drawn ones are different, and none to come is recorded.\<close>

definition freshUUIDs :: "('e, tables) Service \<Rightarrow> bool" where
  "freshUUIDs s \<longleftrightarrow> inj (newUUID (cfg s)) \<and> (\<forall>n. newUUID (cfg s) n \<noteq> []) \<and>
     (\<forall>n. uuidCount s \<le> n \<longrightarrow> newUUID (cfg s) n |\<notin>| fmdom (tbEvents (projection s)))"

definition projectedTo :: "('e, tables) Service \<Rightarrow> bool" where
  "projectedTo s \<longleftrightarrow> ProjectorOf (cfg s) = Some pgProjector \<and> freshUUIDs s \<and> tablesOk (projection s) \<and>
     mirrored (projection s) s \<and> tradesOk (projection s)"

text \<open>An event that is recorded: its row in the table of events is its own, and its text and number fit.\<close>

definition recordedIn :: "tables \<Rightarrow> Event \<Rightarrow> bool" where
  "recordedIn db e \<longleftrightarrow> fmlookup (tbEvents db) (eID e) = Some (eSequence e, e) \<and> \<not> list_ex hasNul (eventTexts e) \<and> int (eSequence e) \<le> int64_max"

lemma append_events:
  assumes "appendMany es s = (None, t)"
  shows "loggedEvents (disk t) \<subseteq> loggedEvents (disk s) \<union> set es"
proof -
  have f: "currentLines (disk t) = appendLine (currentLines (disk s)) (Batch 1 es)" "walPrevious (disk t) = walPrevious (disk s)"
    using sameFiles_appendMany(1) [OF assms sameFiles_refl] by (simp_all add: sameFiles_def)
  have "set (concat (map lineContent (appendLine ls (Batch 1 es)))) \<subseteq> set (concat (map lineContent ls)) \<union> set es" for ls
    by (auto simp: appendLine_def dest: in_set_butlastD)
  then show ?thesis using f unfolding loggedEvents_def logEvents_current by auto
qed

lemma append_projection:
  "projection (snd (appendMany es s)) = projection s" "uuidCount (snd (appendMany es s)) = uuidCount s" "cfg (snd (appendMany es s)) = cfg s"
  by (auto simp: appendMany_def openWAL_def writeLine_def osTry_def osCall_def syncDirectory_def setWal_def andThen_def Let_def
      split: list.split ioOutcome.split option.split prod.split)

lemma nextAll_ids:
  assumes "nextAll es s = (es1, t)" and "\<And>e. e \<in> set es \<Longrightarrow> eID e = []"
  shows "map eID es1 = map (newUUID (cfg s)) [uuidCount s..<uuidCount s + length es]" and "uuidCount t = uuidCount s + length es"
    and "projection t = projection s"
proof -
  have "map eID es1 = map (newUUID (cfg s)) [uuidCount s..<uuidCount s + length es] \<and> uuidCount t = uuidCount s + length es \<and>
      projection t = projection s"
    using assms
  proof (induction es arbitrary: s es1)
    case (Cons e es)
    obtain e1 u where n: "next_event e s = (e1, u)" by (rule prod.exhaust)
    obtain es2 where r: "nextAll es u = (es2, t)" "es1 = e1 # es2" using Cons.prems(1) n by (auto split: prod.splits)
    have u: "eID e1 = newUUID (cfg s) (uuidCount s)" "uuidCount u = Suc (uuidCount s)" "cfg u = cfg s" "projection u = projection s"
      using n Cons.prems(2) by (auto simp: next_event_def Let_def split: if_splits)
    show ?case using Cons.IH [OF r(1)] Cons.prems(2) u r(2) by (simp add: upt_rec)
  qed simp
  then show "map eID es1 = map (newUUID (cfg s)) [uuidCount s..<uuidCount s + length es]" "uuidCount t = uuidCount s + length es"
    "projection t = projection s" by simp_all
qed

lemma content_account:
  assumes "content e = content e'"
  shows "eAmount e = eAmount e'" "eUserID e = eUserID e'" "eType e = eType e'" "eOrder e = eOrder e'"
proof -
  have "eAmount (content e) = eAmount e" "eUserID (content e) = eUserID e" "eType (content e) = eType e" "eOrder (content e) = eOrder e" for e
    by (simp_all add: content_def)
  then show "eAmount e = eAmount e'" "eUserID e = eUserID e'" "eType e = eType e'" "eOrder e = eOrder e'" using assms by metis+
qed

lemma distinct_draw: "inj f \<Longrightarrow> distinct (map f [a..<b])"
  by (auto simp: distinct_map intro: inj_on_subset)

lemma commit_projected:
  assumes "commitMany events s = (None, t)" and "projectedTo s" and "\<And>e. e \<in> set events \<Longrightarrow> eID e = []"
    and "\<And>e. e \<in> set events \<Longrightarrow> eAmount e < 0 \<Longrightarrow> eUserID e \<noteq> []" and "fits_terms T s"
    and "\<And>e. e \<in> set events \<Longrightarrow> eType e = EventOrder \<Longrightarrow> orderTerms (eOrder e) = T (oID (eOrder e))"
  shows "projectedTo t" and "e \<in> loggedEvents (disk t) \<Longrightarrow> (\<And>x. x \<in> loggedEvents (disk s) \<Longrightarrow> recordedIn (projection s) x) \<Longrightarrow>
    recordedIn (projection t) e"
proof -
  have f: "failure s = None" using commitMany_ok(1) [OF assms(1)] .
  obtain es s1 where n: "nextAll events s = (es, s1)" by (rule prod.exhaust)
  obtain r2 s2 where a: "appendMany es s1 = (r2, s2)" by (rule prod.exhaust)
  note ids = nextAll_ids [OF n assms(3)]
  have k: "book s1 = book s" "cfg s1 = cfg s" "list_all2 (\<lambda>e e'. content e = content e') es events"
    using nextAll_keeps [OF n] by (simp_all add: keeps_def)
  have s2: "projection s2 = projection s" "uuidCount s2 = uuidCount s + length events" "cfg s2 = cfg s" "book s2 = book s"
    using append_projection [of es s1] a ids k quiet_appendMany [of s1 s1 es] by (simp_all add: quiet_def keeps_def)
  have pr: "ProjectorOf (cfg s2) = Some pgProjector" using assms(2) s2(3) by (simp add: projectedTo_def)
  obtain r3 p where p: "pgApplyBatch (projection s) es = (r3, p)" by (rule prod.exhaust)
  have r: "r2 = None" "r3 = None" "t = apply_all es (s2\<lparr>projection := p\<rparr>)"
    using assms(1) f n a pr p s2(1)
    by (cases r2; cases r3; auto simp: commitMany_def Let_def fail_def project_def pgProjector_def)+
  have fr: "inj (newUUID (cfg s))" "\<And>k. uuidCount s \<le> k \<Longrightarrow> newUUID (cfg s) k |\<notin>| fmdom (tbEvents (projection s))"
      "tablesOk (projection s)" "mirrored (projection s) s" "tradesOk (projection s)"
    using assms(2) by (simp_all add: projectedTo_def freshUUIDs_def)
  have rows: "applied es (rowsOf (projection s)) = Inr (rowsOf p)" using batch_outcome [OF p] r(2) by simp
  have same: "tbEvents (rowsOf db) = tbEvents db" "mirrored (rowsOf db) x = mirrored db x" "tablesOk (rowsOf db) = tablesOk db"
      "tradesOk (rowsOf db) = tradesOk db" for db x
    by (simp_all add: rowsOf_def mirrored_def tablesOk_def)
  have "distinct (map (newUUID (cfg s)) [uuidCount s..<uuidCount s + length events])" by (rule distinct_draw [OF fr(1)])
  then have d: "distinct (map eID es)" by (simp only: ids(1))
  have idin: "eID e \<in> newUUID (cfg s) ` {uuidCount s..<uuidCount s + length events}" if "e \<in> set es" for e
    using that ids(1) by (metis atLeastLessThan_upt image_eqI image_set)
  have new: "eID e |\<notin>| fmdom (tbEvents (rowsOf (projection s)))" if "e \<in> set es" for e
    using idin [OF that] fr(2) by (auto simp: same)
  have source: "\<exists>e'\<in>set events. content e = content e'" if e: "e \<in> set es" for e
  proof -
    obtain j where j: "j < length es" "e = es ! j" using e by (auto simp: in_set_conv_nth)
    then show ?thesis using list_all2_nthD [OF k(3) j(1)] list_all2_lengthD [OF k(3)] by (intro bexI [of _ "events ! j"]) simp_all
  qed
  have named: "eUserID e \<noteq> []" if en: "e \<in> set es" "eAmount e < 0" for e
  proof -
    obtain e' where e': "e' \<in> set events" "content e = content e'" using source [OF en(1)] by blast
    show ?thesis using assms(4) [OF e'(1)] en(2) by (simp add: content_account [OF e'(2)])
  qed
  have on: "orderTerms (eOrder e) = T (oID (eOrder e))" if en: "e \<in> set es" "eType e = EventOrder" for e
  proof -
    obtain e' where e': "e' \<in> set events" "content e = content e'" using source [OF en(1)] by blast
    show ?thesis using assms(6) [OF e'(1)] en(2) by (simp add: content_account [OF e'(2)])
  qed
  have m: "mirrored p (apply_all es (s2\<lparr>projection := p\<rparr>)) \<and> tablesOk p"
  proof -
    have "mirrored (rowsOf (projection s)) (s2\<lparr>projection := p\<rparr>)" "fits_terms T (s2\<lparr>projection := p\<rparr>)"
      using fr(4) assms(5) s2(4) by (simp_all add: rowsOf_def mirrored_def fits_terms_def book_eq_iff Balance_def PositionOf_def)
    note mf = this
    have "tablesOk (rowsOf (projection s))" using fr(3) by (simp only: same)
    note applied_mirrors [where T = T, OF rows mf(1) this d new named mf(2) on]
    then show ?thesis by (simp only: same)
  qed
  have tr: "tradesOk p" using applied_trades(1) [OF rows _ d new] fr(5) by (simp add: same)
  have "x |\<in>| fmdom (tbEvents (projection s)) \<or> x \<in> set (map eID es)" if "x |\<in>| fmdom (tbEvents p)" for x
    using applied_events [OF rows] that by (simp add: same fset_of_list.rep_eq)
  moreover have "newUUID (cfg s) k \<notin> set (map eID es)" if "uuidCount s + length events \<le> k" for k
    using idin fr(1) that by (fastforce dest: injD)
  ultimately have "newUUID (cfg s) k |\<notin>| fmdom (tbEvents p)" if "uuidCount s + length events \<le> k" for k
    using fr(2) [of k] that by (metis le_add1 order_trans)
  then show "projectedTo t" using r(3) m tr assms(2) s2 by (simp add: projectedTo_def freshUUIDs_def)
  have texts: "\<not> list_ex (\<lambda>e. list_ex hasNul (eventTexts e)) es" "\<not> list_ex (\<lambda>e. int (eSequence e) > int64_max) es"
    using rows by (auto simp: applied_def admitAllIDs_def split: if_splits)
  have trr: "tradesOk (rowsOf (projection s))" using fr(5) by (simp add: same)
  have rec: "recordedIn p x" if "x \<in> set es" for x
  proof -
    have "fmlookup (tbEvents p) (eID x) = Some (eSequence x, x)" using applied_trades(2) [OF rows trr d new that] by (simp add: same)
    then show ?thesis using that texts by (auto simp: recordedIn_def list_ex_iff not_less)
  qed
  have keep: "recordedIn p x" if "recordedIn (projection s) x" for x
  proof -
    have "fmlookup (tbEvents (rowsOf (projection s))) (eID x) = Some (eSequence x, x)" using that by (simp add: recordedIn_def same)
    from applied_trades(3) [OF rows trr d new this] show ?thesis using that by (simp add: recordedIn_def same)
  qed
  assume e: "e \<in> loggedEvents (disk t)" and old: "\<And>x. x \<in> loggedEvents (disk s) \<Longrightarrow> recordedIn (projection s) x"
  have "disk s1 = disk s" using nextAll_keeps [OF n] by (simp add: keeps_def)
  then have "e \<in> loggedEvents (disk s) \<or> e \<in> set es" using append_events [of es s1 s2] a r e by auto
  then show "recordedIn (projection t) e" using rec keep old r(3) by auto
qed

text \<open>A quantity that does not fit its column makes the commit of a new order fail.\<close>

lemma large_refused:
  assumes "eType e = EventOrder" and "oQuantity (eOrder e) > integer_max" and "distinct (map eID (e # es))"
    and "\<And>x. x \<in> set (e # es) \<Longrightarrow> eID x |\<notin>| fmdom (tbEvents db)"
  shows "applied (e # es) db \<noteq> Inr db'"
proof
  assume "applied (e # es) db = Inr db'"
  then obtain ids d where d: "admitAllIDs (e # es) db = Inr (ids, d)" "runStmts (queueStmts ids (e # es)) d = Inr db'"
    by (auto simp: applied_def split: sum.splits)
  have a: "admitIDs (e # es) db = (ids, d)" using d(1) by (auto simp: admitAllIDs_def split: if_splits)
  have "ids = map eID (e # es)" using admitIDs_fresh [OF assms(3,4)] a by simp
  then have "runStmts (concat (map eventStmts (e # es))) d = Inr db'" using d(2) queueStmts_all assms(3) by metis
  moreover have "eventStmts e = PutOrder (eOrder e) # (if eAmount e \<noteq> 0 then [balanceStmt (eUserID e) (eAmount e)] else [])"
    using assms(1) by (simp add: eventStmts_def)
  moreover have "\<not> in_integer (oQuantity (eOrder e))" using assms(2) by (simp add: in_integer_def)
  ultimately show False by simp
qed

lemma commit_large:
  assumes "commitMany (e # es) s = (r, t)" and "ProjectorOf (cfg s) = Some pgProjector" and "freshUUIDs s" and "failure s = None"
    and "\<And>x. x \<in> set (e # es) \<Longrightarrow> eID x = []" and "eType e = EventOrder" and "oQuantity (eOrder e) > integer_max"
  shows "r \<noteq> None"
proof
  assume "r = None"
  then have c: "commitMany (e # es) s = (None, t)" using assms(1) by simp
  obtain es1 s1 where n: "nextAll (e # es) s = (es1, s1)" by (rule prod.exhaust)
  obtain r2 s2 where a: "appendMany es1 s1 = (r2, s2)" by (rule prod.exhaust)
  note ids = nextAll_ids [OF n assms(5)]
  have s2: "projection s2 = projection s" "cfg s2 = cfg s"
    using append_projection [of es1 s1] a ids nextAll_keeps [OF n] by (simp_all add: keeps_def)
  obtain r3 p where p: "pgApplyBatch (projection s) es1 = (r3, p)" by (rule prod.exhaust)
  have "r3 = None"
    using c assms(2,4) n a p s2 by (cases r2; cases r3) (auto simp: commitMany_def Let_def fail_def project_def pgProjector_def)
  then have ap: "applied es1 (rowsOf (projection s)) = Inr (rowsOf p)" using batch_outcome [OF p] by simp
  obtain e1 es2 where e1: "es1 = e1 # es2" "eOrder e1 = eOrder e" "eType e1 = eType e"
    using n by (auto simp: next_event_def Let_def split: prod.splits if_splits)
  have inj: "inj (newUUID (cfg s))" using assms(3) by (simp add: freshUUIDs_def)
  have "distinct (map (newUUID (cfg s)) [uuidCount s..<uuidCount s + length (e # es)])" by (rule distinct_draw [OF inj])
  then have "distinct (map eID es1)" by (simp only: ids(1))
  moreover have "eID x |\<notin>| fmdom (tbEvents (rowsOf (projection s)))" if "x \<in> set es1" for x
  proof -
    have "eID x \<in> set (map (newUUID (cfg s)) [uuidCount s..<uuidCount s + length (e # es)])" using that ids(1) by (metis image_eqI set_map)
    then show ?thesis using assms(3) by (auto simp: freshUUIDs_def rowsOf_def)
  qed
  ultimately show False using large_refused [of e1 es2 "rowsOf (projection s)" "rowsOf p"] ap e1 assms(6,7) by simp
qed

section \<open>A log that is projected again\<close>

text \<open>Tables that hold the events of a log take all of it again.\<close>

lemma pg_accepts:
  assumes "ProjectorOf c = Some pgProjector" and "\<And>e. e \<in> E \<Longrightarrow> recordedIn db e" and "dbScript db = []"
  shows "projectorOk c db E"
proof -
  have take: "pgApplyBatch db es = (None, db)" if "set es \<subseteq> E" for es
  proof (rule batch_calm [OF assms(3)])
    have r: "recordedIn db e" if "e \<in> set es" for e using assms(2) that \<open>set es \<subseteq> E\<close> by blast
    then have "admitIDs es db = ([], db)" by (intro admitIDs_known) (simp add: recordedIn_def fmdomI)
    moreover have "\<not> list_ex (\<lambda>e. list_ex hasNul (eventTexts e)) es" "\<not> list_ex (\<lambda>e. int (eSequence e) > int64_max) es"
      using r by (auto simp: recordedIn_def list_ex_iff not_less)
    ultimately show "applied es db = Inr db" using queueStmts_none by (simp add: applied_def admitAllIDs_def)
  qed
  have batch: "ApplyBatch pgProjector = Some pgApplyBatch" by (simp add: pgProjector_def)
  have "accepts c (\<lambda>p. p = db) E"
    unfolding accepts_def assms(1) option.case batch using take by simp
  then show ?thesis unfolding projectorOk_def by (intro exI [of _ "\<lambda>p. p = db"] conjI refl)
qed

end
