(* ===== verification/Exchange_Durability.thy ===== *)
theory Exchange_Durability
  imports Recorded_Operations Projected_Service
begin

text \<open>
  The files and the SQL tables through whole runs of the exchange. Both interpret the interface of
  what commits keep: the files record the accounting state in every phase of a checkpoint, and the
  tables mirror it, in every reachable state without a latched failure.
\<close>

section \<open>The files\<close>

text \<open>
  The count of drawn IDs bounds the sequence numbers: the statement is about the first 2^64 events,
  before the numbers wrap.
\<close>

definition loggedTo :: "('e, 'p) Config \<Rightarrow> phase \<Rightarrow> ('e, 'p) Service \<Rightarrow> bool" where
  "loggedTo c ph s \<longleftrightarrow> named s \<and> cfg s = c \<and> (uuidCount s < 2 ^ 64 \<longrightarrow> phaseOk (s, ph) \<and> sequence s \<le> uuidCount s)"

lemma phaseOk_same:
  assumes "same_ledger s t" and "phaseOk (s, ph)"
  shows "phaseOk (t, ph)"
proof -
  have "ledger.truncate t = ledger.truncate s" using assms(1) by (simp add: same_ledger_def book_eq_iff ledger.truncate_def)
  then show ?thesis using assms unfolding phaseOk_def durable_def same_ledger_def by (cases ph) simp_all
qed

lemma commit_counts:
  assumes "commitMany es s = (None, t)" and "list_all (plainEvent T) es"
  shows "uuidCount t = uuidCount s + length es"
    and "sequence s + length es < 2 ^ 64 \<Longrightarrow> sequence t \<le> sequence s + length es"
proof -
  obtain es1 s1 where n: "nextAll es s = (es1, s1)" by (rule prod.exhaust)
  obtain r2 s2 where a: "appendMany es1 s1 = (r2, s2)" by (rule prod.exhaust)
  obtain r3 s3 where p: "(case ProjectorOf (cfg s2) of None \<Rightarrow> (None, s2) | Some pr \<Rightarrow> project pr es1 s2) = (r3, s3)" by (rule prod.exhaust)
  have s3: "uuidCount s3 = uuidCount s2" "sequence s3 = sequence s2" using p by (auto simp: project_def split: option.splits prod.splits)
  have t: "t = apply_all es1 s3"
    using assms(1) commitMany_ok(1) [OF assms(1)] n a p by (cases r2; cases r3) (auto simp: commitMany_def Let_def fail_def)
  have ids: "\<And>e. e \<in> set es \<Longrightarrow> eID e = []" using assms(2) by (simp add: list_all_iff plainEvent_def)
  have q: "sequence s2 = sequence s1" using quiet_appendMany [of s1 s1 es1] a by (simp add: quiet_def)
  have u: "uuidCount s2 = uuidCount s1" using append_projection(2) [of es1 s1] a by simp
  show "uuidCount t = uuidCount s + length es" using t s3 u nextAll_ids(2) [OF n ids] by simp
  assume b: "sequence s + length es < 2 ^ 64"
  have num: "set (map eSequence es1) = set [Suc (sequence s)..<Suc (sequence s + length es)]" "sequence s1 = sequence s + length es"
    using nextAll_numbers [OF n b] by simp_all
  have "sequence t = Max (set (sequence s1 # map eSequence es1))"
    using t s3(2) q Max.set_eq_fold [of "sequence s1" "map eSequence es1"] by (simp add: sequence_apply_all)
  also have "\<dots> \<le> sequence s + length es" using num by (intro Max.boundedI) auto
  finally show "sequence t \<le> sequence s + length es" .
qed

interpretation files: recorded_state "loggedTo c ph" "\<lambda>_. True" for c ph
proof
  fix es and s t :: "('a, 'b) Service" and T
  assume cm: "commitMany es s = (None, t)" and ne: "es \<noteq> []" and plain: "list_all (plainEvent T) es" and s: "loggedTo c ph s"
  note n = commit_counts [OF cm plain]
  show "loggedTo c ph t"
    unfolding loggedTo_def
  proof (intro conjI impI)
    show "named t" "cfg t = c" using commit_named [OF cm plain] commitMany_ok(4) [OF cm] s by (simp_all add: loggedTo_def)
    assume "uuidCount t < 2 ^ 64"
    then have b: "sequence s + length es < 2 ^ 64" "phaseOk (s, ph)" "sequence s \<le> uuidCount s" using s n(1) by (simp_all add: loggedTo_def)
    show "phaseOk (t, ph)" using storage_step_ok [OF committed [OF cm ne b(1)] b(2)] .
    show "sequence t \<le> uuidCount t" using n(2) [OF b(1)] n(1) b(3) by linarith
  qed
next
  fix s t :: "('a, 'b) Service"
  assume "same_ledger s t" and "loggedTo c ph s"
  then show "loggedTo c ph t"
    using phaseOk_same [of s t ph] named_same [of s t] unfolding loggedTo_def by (simp add: same_ledger_def)
qed (simp_all add: loggedTo_def)

text \<open>The phases of a checkpoint.\<close>

lemma phase_logged:
  assumes "storage_step (s, ph) (t, ph')" and "untouched s t" and "sequence t = sequence s" and "keeps s t" and "loggedTo c ph s"
  shows "loggedTo c ph' t"
  using assms storage_step_ok [OF assms(1)] named_book [of t s] by (simp add: loggedTo_def untouched_def keeps_def)

lemma logged_step_good:
  assumes "logged_step ((q, D), ph) ((q', D'), ph')" and "indexed (qService q)" and "files.good c ph (qService q)"
  shows "files.good c ph' (qService q')"
  using assms(1)
proof cases
  case request
  then show ?thesis using files.request_good assms(3) by blast
next
  case (froze sn s)
  have k: "keeps (qService q) s" "failure (qService q) \<noteq> None \<Longrightarrow> s = qService q" using freeze_keeps [OF froze(5)] by blast+
  have l: "sequence s = sequence (qService q)"
    using freeze_inStep(1) [OF froze(5)] unfolding inStep_def by (metis truncate_sequence)
  show ?thesis
    using phase_logged [OF storage_step.froze [OF froze(5) assms(2)] freeze_untouched [OF froze(5)] l] k assms(3) froze
    by (auto simp: files.good_def)
next
  case (freezeFailed e s)
  have k: "keeps (qService q) s" "failure (qService q) \<noteq> None \<Longrightarrow> s = qService q" using freeze_keeps [OF freezeFailed(5)] by blast+
  have l: "sequence s = sequence (qService q)"
    using freeze_inStep(1) [OF freezeFailed(5)] unfolding inStep_def by (metis truncate_sequence)
  show ?thesis
    using phase_logged [OF storage_step.freezeFailed [OF freezeFailed(5)] freeze_untouched [OF freezeFailed(5)] l] k assms(3) freezeFailed
    by (auto simp: files.good_def)
next
  case (wrote sn r s)
  note w = \<open>writeSnapshot sn (qService q) = (r, s)\<close>
  show ?thesis
    using phase_logged [OF storage_step.wrote [OF w]] writeSnapshot_untouched [OF w] writeSnapshot_keeps [OF w]
      assms(3) wrote by (auto simp: files.good_def)
next
  case (dropped r s)
  note w = \<open>dropPrevious (qService q) = (r, s)\<close>
  show ?thesis
    using phase_logged [OF storage_step.dropped [OF w]] dropPrevious_untouched [OF w] dropPrevious_keeps [OF w]
      assms(3) dropped by (auto simp: files.good_def)
qed

lemma logged_run:
  assumes "logged_step\<^sup>*\<^sup>* ((q, D), ph) ((q', D'), ph')" and "files.good c ph (qService q)"
    and "queueOk (routedTrading net) routerBook (healthyRouter net) D q"
  shows "files.good c ph' (qService q') \<and> queueOk (routedTrading net) routerBook (healthyRouter net) D' q'"
  using assms
proof (induction "((q', D'), ph')" arbitrary: q' D' ph' rule: rtranclp_induct)
  case (step y)
  obtain q1 D1 ph1 where y: "y = ((q1, D1), ph1)" by (metis prod.exhaust)
  have ok: "files.good c ph1 (qService q1)" "queueOk (routedTrading net) routerBook (healthyRouter net) D1 q1"
    using step.hyps(3) [OF y] step.prems by blast+
  have l: "logged_step ((q1, D1), ph1) ((q', D'), ph')" using step.hyps(2) y by simp
  have "indexed (qService q1)" using ok(2) by (simp add: queueOk_def sound_def wellFormed_def)
  then show ?case using logged_step_good [OF l _ ok(1)] routed.exchange_step_ok [OF logged_exchange [OF l], of net] ok(2) by simp
qed simp

lemma requests_logged:
  assumes "request_step\<^sup>*\<^sup>* (q, D) (q', D')" and "files.good c ph (qService q)"
  shows "files.good c ph (qService q')"
  using assms
proof (induction "(q', D')" arbitrary: q' D' rule: rtranclp_induct)
  case (step y)
  obtain q1 D1 where y: "y = (q1, D1)" by (rule prod.exhaust)
  show ?case using files.request_good [of q1 D1 q' D'] step.hyps(2) step.hyps(3) [OF y step.prems] y by simp
qed simp

lemma fresh_logged: "files.good c Idle (newService c (emptyDisk\<lparr>ioScript := script\<rparr>) e p)"
proof -
  let ?s = "newService c (emptyDisk\<lparr>ioScript := script\<rparr>) e p"
  have "durable ?s" by (rule fresh_ledger(4))
  moreover have "named ?s" "sequence ?s \<le> uuidCount ?s" "cfg ?s = c" by (simp_all add: named_def newService_def)
  ultimately show ?thesis by (simp add: files.good_def loggedTo_def phaseOk_def)
qed

lemma started_run:
  assumes "budget net" and "0 < n" and "EngineOf c = Some (routedTrading net)"
    and "logged_step\<^sup>*\<^sup>* ((newQueue (newService c (emptyDisk\<lparr>ioScript := script\<rparr>) (freshRouter n) p), 0), Idle) ((q, D), ph)"
  shows "files.good c ph (qService q)" and "queueOk (routedTrading net) routerBook (healthyRouter net) D q"
proof -
  have "files.good c Idle (qService (newQueue (newService c (emptyDisk\<lparr>ioScript := script\<rparr>) (freshRouter n) p)))"
    using fresh_logged by (simp add: newQueue_def)
  from logged_run [OF assms(4) this fresh_exchange [OF assms(1-3)]]
  show "files.good c ph (qService q)" "queueOk (routedTrading net) routerBook (healthyRouter net) D q" by blast+
qed

text \<open>A restart on the files of any moment of such a run.\<close>

lemma run_restarts:
  assumes "files.good c ph s" and "failure s = None" and "uuidCount s < 2 ^ 64"
    and "0 \<le> OrderBatchSize c" "OrderBatchSize c \<le> 32" "WALPath c \<noteq> []" "SnapshotPath c \<noteq> []"
    and "projectorOk c p (loggedEvents (disk s))"
  shows "\<exists>t. NewWithConfig h c ((disk s)\<lparr>ioScript := []\<rparr>) e p = Inr t \<and>
    ledger.truncate t = ledger.truncate s \<and> failure t = None"
proof -
  have d: "durable s" "cfg s = c" using assms(1-3) by (simp_all add: files.good_def loggedTo_def phaseOk_def)
  show ?thesis using crash_recovers [OF rtranclp.rtrancl_refl d(1), where h = h and e = e and p = p] assms(4-8) d(2) by blast
qed

section \<open>The tables\<close>

definition mirroredTo :: "('e, tables) Service \<Rightarrow> bool" where
  "mirroredTo s \<longleftrightarrow> named s \<and> projectedTo s \<and> (\<forall>e\<in>loggedEvents (disk s). recordedIn (projection s) e)"

lemma projected_same:
  assumes "book t = book s" and "cfg t = cfg s" and "untouched s t" and "projectedTo s"
  shows "projectedTo t"
proof -
  have "Balance t u = Balance s u" "PositionOf t u m = PositionOf s u m" "markets t = markets s" "orders t = orders s" for u m
    using assms(1) by (simp_all add: book_eq_iff Balance_def PositionOf_def)
  then show ?thesis using assms(2-4) by (simp add: projectedTo_def freshUUIDs_def mirrored_def untouched_def)
qed

interpretation mirror: recorded_state mirroredTo "\<lambda>_. True"
proof
  fix es and s t :: "('a, tables) Service" and T
  assume c: "commitMany es s = (None, t)" and "es \<noteq> []" and fit: "fits_terms T s" and plain: "list_all (plainEvent T) es"
    and s: "mirroredTo s"
  have ids: "\<And>e. e \<in> set es \<Longrightarrow> eID e = []" "\<And>e. e \<in> set es \<Longrightarrow> eAmount e < 0 \<Longrightarrow> eUserID e \<noteq> []"
      "\<And>e. e \<in> set es \<Longrightarrow> eType e = EventOrder \<Longrightarrow> orderTerms (eOrder e) = T (oID (eOrder e))"
    using plain by (auto simp: list_all_iff plainEvent_def)
  have pr: "projectedTo s" using s by (simp add: mirroredTo_def)
  have "projectedTo t" by (rule commit_projected(1) [OF c pr ids(1,2) fit ids(3)])
  moreover have "recordedIn (projection t) e" if "e \<in> loggedEvents (disk t)" for e
    by (rule commit_projected(2) [OF c pr ids(1,2) fit ids(3) that]) (use s in \<open>simp_all add: mirroredTo_def\<close>)
  ultimately show "mirroredTo t" using commit_named [OF c plain] s by (simp add: mirroredTo_def)
next
  fix s t :: "('a, tables) Service"
  assume "same_ledger s t" and "mirroredTo s"
  then show "mirroredTo t"
    using projected_same [of t s] named_same [of s t] by (simp add: mirroredTo_def same_ledger_def untouched_def)
qed (simp_all add: mirroredTo_def)

lemma mirror_phase:
  assumes "keeps s t" and "failure s \<noteq> None \<longrightarrow> failure t \<noteq> None" and "untouched s t" and "mirror.good s"
  shows "mirror.good t"
  using assms projected_same [of t s] named_book [of t s]
  by (auto simp: mirror.good_def mirroredTo_def keeps_def untouched_def)

lemma exchange_mirrored:
  assumes "exchange_step (q, D) (q', D')" and "mirror.good (qService q)"
  shows "mirror.good (qService q')"
  using assms(1)
proof (cases rule: exchange_parts)
  case request
  then show ?thesis using mirror.request_good assms(2) by blast
next
  case (freeze_state x s)
  have "failure (qService q) \<noteq> None \<longrightarrow> failure s \<noteq> None" using freeze_keeps(2) [OF freeze_state(1)] by auto
  then show ?thesis
    using mirror_phase [OF freeze_keeps(1) [OF freeze_state(1)] _ freeze_untouched [OF freeze_state(1)] assms(2)] freeze_state(2) by simp
next
  case (write_snapshot sn r s)
  then show ?thesis
    using mirror_phase [OF writeSnapshot_keeps(1) [OF write_snapshot(1)]] writeSnapshot_keeps(2) [OF write_snapshot(1)]
      writeSnapshot_untouched [OF write_snapshot(1)] assms(2) by simp
next
  case (drop_segment r s)
  then show ?thesis
    using mirror_phase [OF dropPrevious_keeps(1) [OF drop_segment(1)]] dropPrevious_keeps(2) [OF drop_segment(1)]
      dropPrevious_untouched [OF drop_segment(1)] assms(2) by simp
qed

lemma exchange_run_mirrored:
  assumes "exchange_step\<^sup>*\<^sup>* (q, D) (q', D')" and "mirror.good (qService q)"
  shows "mirror.good (qService q')"
  using assms
proof (induction "(q', D')" arbitrary: q' D' rule: rtranclp_induct)
  case (step y)
  obtain q1 D1 where y: "y = (q1, D1)" by (rule prod.exhaust)
  show ?case using exchange_mirrored [of q1 D1 q' D'] step.hyps(2) step.hyps(3) [OF y step.prems] y by simp
qed simp

lemma fresh_mirrored:
  assumes "ProjectorOf c = Some pgProjector" and "inj (newUUID c)" and "\<And>n. newUUID c n \<noteq> []"
  shows "mirror.good (newService c (emptyDisk\<lparr>ioScript := script\<rparr>) e (emptyTables\<lparr>dbScript := dbCalls\<rparr>))"
  using assms
  by (simp add: mirror.good_def mirroredTo_def named_def projectedTo_def freshUUIDs_def newService_def emptyTables_def
      tablesOk_def mirrored_def tradesOk_def Balance_def PositionOf_def loggedEvents_def logEvents_def emptyDisk_def)

section \<open>A restart on the files and the tables\<close>

lemma logged_run_exchange: "logged_step\<^sup>*\<^sup>* (x, ph) (y, ph') \<Longrightarrow> exchange_step\<^sup>*\<^sup>* x y"
proof (induction "(y, ph')" arbitrary: y ph' rule: rtranclp_induct)
  case (step z)
  obtain u pu where z: "z = (u, pu)" by (rule prod.exhaust)
  show ?case using step.hyps(3) [OF z] logged_exchange [of u pu y ph'] step.hyps(2) z by (simp add: rtranclp.rtrancl_into_rtrancl)
qed simp

text \<open>The tables of a run take the log of the run again, whatever calls to the database fail during the run.\<close>

lemma run_accepted:
  assumes "ProjectorOf c = Some pgProjector" and "inj (newUUID c)" and "\<And>n. newUUID c n \<noteq> []"
    and "exchange_step\<^sup>*\<^sup>* (newQueue (newService c (emptyDisk\<lparr>ioScript := script\<rparr>) e (emptyTables\<lparr>dbScript := dbCalls\<rparr>)), 0) (q, D)"
    and "failure (qService q) = None" and "ProjectorOf c' = Some pgProjector"
  shows "projectorOk c' ((projection (qService q))\<lparr>dbScript := []\<rparr>) (loggedEvents (disk (qService q)))"
proof (rule pg_accepts [OF assms(6)])
  have "mirroredTo (qService q)"
    using exchange_run_mirrored [OF assms(4)] fresh_mirrored [OF assms(1-3)] assms(5) by (simp add: newQueue_def mirror.good_def)
  then show "recordedIn ((projection (qService q))\<lparr>dbScript := []\<rparr>) e" if "e \<in> loggedEvents (disk (qService q))" for e
    using that by (simp add: mirroredTo_def recordedIn_def)
qed simp

end
