(* ===== verification/Auth_Service.thy ===== *)
theory Auth_Service
  imports Engine_Client
begin

text \<open>
  Accounts and bearer tokens (package \<^verbatim>\<open>auth\<close>, service.go): registration and login over the table of
  users, tokens signed with HMAC-SHA256, the middleware and the ownership check of the handlers. A Go
  string or byte slice is a \<^typ>\<open>string\<close> of bytes. The hash functions (\<open>mac\<close> for HMAC-SHA256, bcrypt) and
  the JSON of the claims are parameters; base64 without padding is modelled, with the leniency of its
  decoder. The theory proves that a token is accepted exactly when it carries the right signature over
  unexpired claims of this issuer, and that an account can be entered again.
\<close>

section \<open>Base64 with the URL alphabet, without padding\<close>

definition alphabet :: string where
  "alphabet = ''ABCDEFGHIJKLMNOPQRSTUVWXYZabcdefghijklmnopqrstuvwxyz0123456789-_''"

definition sextet :: "nat \<Rightarrow> char" where
  "sextet n = alphabet ! n"

definition sextetOf :: "char \<Rightarrow> nat option" where
  "sextetOf ch = (if ch \<in> set alphabet then Some (length (takeWhile (\<lambda>x. x \<noteq> ch) alphabet)) else None)"

abbreviation byteOf :: "char \<Rightarrow> nat" where
  "byteOf ch \<equiv> of_char ch"

fun encode :: "string \<Rightarrow> string" where
  "encode [] = []"
| "encode [a] = [sextet (byteOf a div 4), sextet (byteOf a mod 4 * 16)]"
| "encode [a, b] = [sextet (byteOf a div 4), sextet (byteOf a mod 4 * 16 + byteOf b div 16), sextet (byteOf b mod 16 * 4)]"
| "encode (a # b # c # rest) =
    sextet (byteOf a div 4) # sextet (byteOf a mod 4 * 16 + byteOf b div 16)
    # sextet (byteOf b mod 16 * 4 + byteOf c div 64) # sextet (byteOf c mod 64) # encode rest"

text \<open>The decoder skips line breaks, wants no single trailing character, and ignores surplus bits.\<close>

fun decodeSextets :: "nat list \<Rightarrow> string option" where
  "decodeSextets [] = Some []"
| "decodeSextets [p] = None"
| "decodeSextets [p, q] = Some [char_of (p * 4 + q div 16)]"
| "decodeSextets [p, q, r] = Some [char_of (p * 4 + q div 16), char_of (q mod 16 * 16 + r div 4)]"
| "decodeSextets (p # q # r # t # rest) =
    (case decodeSextets rest of
       None \<Rightarrow> None
     | Some bs \<Rightarrow> Some (char_of (p * 4 + q div 16) # char_of (q mod 16 * 16 + r div 4) # char_of (r mod 4 * 64 + t) # bs))"

definition decode :: "string \<Rightarrow> string option" where
  "decode s =
    (let cs = filter (\<lambda>ch. ch \<noteq> CHR 0x0A \<and> ch \<noteq> CHR 0x0D) s
     in if \<exists>ch\<in>set cs. sextetOf ch = None then None else decodeSextets (map (\<lambda>ch. the (sextetOf ch)) cs))"

section \<open>Tokens\<close>

record Claims =
  clSubject :: string
  clIssuer :: string
  clExpiry :: int

record codec =
  mac :: "string \<Rightarrow> string \<Rightarrow> string"
  marshalClaims :: "Claims \<Rightarrow> string"
  unmarshalClaims :: "string \<Rightarrow> Claims option"
  bcryptHash :: "nat \<Rightarrow> string \<Rightarrow> goerror + string"
  bcryptCompare :: "string \<Rightarrow> string \<Rightarrow> bool"
  authUUID :: "nat \<Rightarrow> string"

record userRow =
  usEmail :: string
  usName :: string
  usHash :: string

text \<open>The service with the table of users; \<open>drawn\<close> counts the salts and UUIDs drawn.\<close>

record AuthService =
  secret :: string
  ttl :: int
  users :: "(string, userRow) fmap"
  drawn :: nat

definition NewAuth :: "(string, userRow) fmap \<Rightarrow> string \<Rightarrow> goerror + AuthService" where
  "NewAuth db secret0 =
    (if length secret0 < 16 then Inl (New ''JWT_SECRET must contain at least 16 characters'')
     else Inr \<lparr>secret = secret0, ttl = 86400, users = db, drawn = 0\<rparr>)"

definition issuer :: string where
  "issuer = ''prediction-market-exchange''"

definition headerJSON :: string where
  "headerJSON = [CHR 0x7B, CHR 0x22] @ ''alg'' @ [CHR 0x22, CHR 0x3A, CHR 0x22] @ ''HS256'' @ [CHR 0x22, CHR 0x2C, CHR 0x22]
     @ ''typ'' @ [CHR 0x22, CHR 0x3A, CHR 0x22] @ ''JWT'' @ [CHR 0x22, CHR 0x7D]"

definition sign :: "codec \<Rightarrow> int \<Rightarrow> AuthService \<Rightarrow> string \<Rightarrow> string" where
  "sign c now s userID =
    (let payload = marshalClaims c \<lparr>clSubject = userID, clIssuer = issuer, clExpiry = now + ttl s\<rparr>;
         unsigned = encode headerJSON @ ''.'' @ encode payload
     in unsigned @ ''.'' @ encode (mac c (secret s) unsigned))"

text \<open>\<^verbatim>\<open>strings.Split\<close> on a single character.\<close>

fun splitOn :: "char \<Rightarrow> string \<Rightarrow> string list" where
  "splitOn sep [] = [[]]"
| "splitOn sep (ch # cs) =
    (if ch = sep then [] # splitOn sep cs
     else case splitOn sep cs of [] \<Rightarrow> [[ch]] | p # ps \<Rightarrow> (ch # p) # ps)"

definition Parse :: "codec \<Rightarrow> int \<Rightarrow> AuthService \<Rightarrow> string \<Rightarrow> goerror + Claims" where
  "Parse c now s token =
    (case splitOn CHR ''.'' token of
       [p0, p1, p2] \<Rightarrow>
         (case decode p2 of
            None \<Rightarrow> Inl (New ''invalid token signature'')
          | Some signature \<Rightarrow>
             (if signature \<noteq> mac c (secret s) (p0 @ ''.'' @ p1) then Inl (New ''invalid token signature'')
              else case decode p1 of
                     None \<Rightarrow> Inl (New ''invalid token payload'')
                   | Some payload \<Rightarrow>
                      (case unmarshalClaims c payload of
                         None \<Rightarrow> Inl (New ''expired or invalid token'')
                       | Some claims \<Rightarrow>
                          (if clSubject claims = [] \<or> clIssuer claims \<noteq> issuer \<or> now \<ge> clExpiry claims
                           then Inl (New ''expired or invalid token'') else Inr claims))))
     | _ \<Rightarrow> Inl (New ''malformed token''))"

section \<open>Accounts\<close>

text \<open>\<^verbatim>\<open>strings.ToLower\<close> on ASCII text.\<close>

definition lowerChar :: "char \<Rightarrow> char" where
  "lowerChar ch = (if 65 \<le> byteOf ch \<and> byteOf ch \<le> 90 then char_of (byteOf ch + 32) else ch)"

definition ToLower :: "string \<Rightarrow> string" where
  "ToLower s = map lowerChar s"

text \<open>The insert fails on a repeated ID, email or name.\<close>

definition userTaken :: "string \<Rightarrow> string \<Rightarrow> string \<Rightarrow> AuthService \<Rightarrow> bool" where
  "userTaken i email username s \<longleftrightarrow> fmlookup (users s) i \<noteq> None \<or>
     list_ex (\<lambda>k. case fmlookup (users s) k of None \<Rightarrow> False | Some r \<Rightarrow> usEmail r = email \<or> usName r = username)
       (sorted_list_of_fset (fmdom (users s)))"

text \<open>\<open>dbErr\<close> is an error of the database connection, if any; its text never leaves \<^verbatim>\<open>Register\<close>.\<close>

definition Register ::
  "codec \<Rightarrow> int \<Rightarrow> goerror option \<Rightarrow> string \<Rightarrow> string \<Rightarrow> string \<Rightarrow> AuthService \<Rightarrow> (goerror + string \<times> string) \<times> AuthService" where
  "Register c now dbErr email0 username0 password s =
    (let email = ToLower (TrimSpace email0); username = TrimSpace username0
     in if email = [] \<or> username = [] \<or> length password < 8
        then (Inl (New ''email, username, and an 8-character password are required''), s)
        else case bcryptHash c (drawn s) password of
               Inl e \<Rightarrow> (Inl e, s)
             | Inr hash \<Rightarrow>
                (let i = authUUID c (drawn s); s1 = s\<lparr>drawn := drawn s + 1\<rparr>
                 in if dbErr \<noteq> None \<or> userTaken i email username s
                    then (Inl (New ''email or username already registered''), s1)
                    else (Inr (i, sign c now s i),
                          s1\<lparr>users := fmupd i \<lparr>usEmail = email, usName = username, usHash = hash\<rparr> (users s)\<rparr>)))"

definition userByEmail :: "string \<Rightarrow> AuthService \<Rightarrow> string option" where
  "userByEmail email s = find (\<lambda>k. map_option usEmail (fmlookup (users s) k) = Some email) (sorted_list_of_fset (fmdom (users s)))"

definition Login :: "codec \<Rightarrow> int \<Rightarrow> goerror option \<Rightarrow> string \<Rightarrow> string \<Rightarrow> AuthService \<Rightarrow> goerror + string \<times> string" where
  "Login c now dbErr email password s =
    (if dbErr \<noteq> None then Inl (New ''invalid credentials'')
     else case userByEmail (ToLower (TrimSpace email)) s of
            None \<Rightarrow> Inl (New ''invalid credentials'')
          | Some i \<Rightarrow>
             (case fmlookup (users s) i of
                None \<Rightarrow> Inl (New ''invalid credentials'')
              | Some r \<Rightarrow>
                 (if bcryptCompare c (usHash r) password then Inr (i, sign c now s i) else Inl (New ''invalid credentials''))))"

section \<open>The middleware and the ownership check\<close>

text \<open>The user a request acts for, as the context of the request carries it.\<close>

type_synonym authContext = "string option"

definition bearer :: string where
  "bearer = ''Bearer ''"

definition HasPrefix :: "string \<Rightarrow> string \<Rightarrow> bool" where
  "HasPrefix s prefix \<longleftrightarrow> take (length prefix) s = prefix"

definition TrimPrefix :: "string \<Rightarrow> string \<Rightarrow> string" where
  "TrimPrefix s prefix = (if HasPrefix s prefix then drop (length prefix) s else s)"

text \<open>The context for the next handler, or the text of the 401 response.\<close>

definition Middleware :: "codec \<Rightarrow> int \<Rightarrow> AuthService \<Rightarrow> string \<Rightarrow> string + authContext" where
  "Middleware c now s authorization =
    (if \<not> HasPrefix authorization bearer then Inl ''missing bearer token''
     else case Parse c now s (TrimPrefix authorization bearer) of
            Inl _ \<Rightarrow> Inl ''invalid bearer token''
          | Inr claims \<Rightarrow> Inr (Some (clSubject claims)))"

definition UserID :: "authContext \<Rightarrow> string \<times> bool" where
  "UserID ctx = (case ctx of None \<Rightarrow> ([], False) | Some i \<Rightarrow> (i, i \<noteq> []))"

definition RequireOwner :: "authContext \<Rightarrow> string \<Rightarrow> goerror + string" where
  "RequireOwner ctx requested =
    (let (i, authenticated) = UserID ctx
     in if \<not> authenticated then Inr requested
        else if requested \<noteq> [] \<and> requested \<noteq> i then Inl (New ''resource belongs to another user'')
        else Inr i)"

section \<open>Base64 round trip\<close>

lemma takeWhile_nth:
  assumes "distinct xs" and "n < length xs"
  shows "length (takeWhile (\<lambda>x. x \<noteq> xs ! n) xs) = n"
  using assms
proof (induction xs arbitrary: n)
  case (Cons x xs)
  then show ?case by (cases n) (auto dest: nth_mem)
qed simp

lemma alphabet_facts: "distinct alphabet" "length alphabet = 64" "CHR ''.'' \<notin> set alphabet" "CHR 0x0A \<notin> set alphabet" "CHR 0x0D \<notin> set alphabet"
  by (simp_all add: alphabet_def)

lemma sextetOf_sextet [simp]: "n < 64 \<Longrightarrow> sextetOf (sextet n) = Some n"
  using alphabet_facts takeWhile_nth [of alphabet n] by (simp add: sextetOf_def sextet_def)

lemma sextet_in: "n < 64 \<Longrightarrow> sextet n \<in> set alphabet"
  using alphabet_facts(2) by (simp add: sextet_def)

lemma byte_bound: "byteOf a < (256::nat)"
  by simp

lemma sextets_bound [simp]:
  "byteOf a div 4 < (64::nat)" "byteOf a mod 4 * 16 < (64::nat)" "byteOf a mod 4 * 16 + byteOf b div 16 < (64::nat)"
  "byteOf b mod 16 * 4 < (64::nat)" "byteOf b mod 16 * 4 + byteOf d div 64 < (64::nat)" "byteOf d mod 64 < (64::nat)"
proof -
  have b: "byteOf a < (256::nat)" "byteOf b < (256::nat)" "byteOf d < (256::nat)" by simp_all
  show "byteOf a div 4 < (64::nat)" "byteOf a mod 4 * 16 < (64::nat)" "byteOf b mod 16 * 4 < (64::nat)" "byteOf d mod 64 < (64::nat)"
    using b by (simp_all add: less_mult_imp_div_less)
  have "byteOf b div 16 < (16::nat)" "byteOf d div 64 < (4::nat)" "byteOf a mod 4 < (4::nat)" "byteOf b mod 16 < (16::nat)"
    using b by (simp_all add: less_mult_imp_div_less)
  then show "byteOf a mod 4 * 16 + byteOf b div 16 < (64::nat)" "byteOf b mod 16 * 4 + byteOf d div 64 < (64::nat)" by linarith+
qed

lemma encode_alphabet: "set (encode s) \<subseteq> set alphabet"
  by (induction s rule: encode.induct) (auto simp: sextet_in)

lemma high_bits: "byteOf b div 16 < (16::nat)" "byteOf d div 64 < (4::nat)"
proof -
  have "byteOf b < (256::nat)" "byteOf d < (256::nat)" by simp_all
  then show "byteOf b div 16 < (16::nat)" "byteOf d div 64 < (4::nat)" by (simp_all add: less_mult_imp_div_less)
qed

text \<open>The sextets of an encoding.\<close>

lemma decode_sextets: "decodeSextets (map (\<lambda>ch. the (sextetOf ch)) (encode s)) = Some s"
proof (induction s rule: encode.induct)
  case (3 a b)
  then show ?case using high_bits(1) [of b] by simp
next
  case (4 a b c rest)
  then show ?case using high_bits(1) [of b] high_bits(2) [of c] by simp
qed simp_all

lemma decode_encode: "decode (encode s) = Some s"
proof -
  have a: "ch \<in> set alphabet" if "ch \<in> set (encode s)" for ch using encode_alphabet that by blast
  then have "filter (\<lambda>ch. ch \<noteq> CHR 0x0A \<and> ch \<noteq> CHR 0x0D) (encode s) = encode s"
    using alphabet_facts(4,5) by (intro filter_True) blast
  moreover have "\<not> (\<exists>ch\<in>set (encode s). sextetOf ch = None)" using a by (simp add: sextetOf_def)
  ultimately show ?thesis using decode_sextets [of s] by (simp add: decode_def Let_def)
qed

section \<open>Tokens are accepted when they are genuine\<close>

lemma splitOn_append: "sep \<notin> set a \<Longrightarrow> splitOn sep (a @ sep # b) = a # splitOn sep b"
  by (induction a) auto

lemma splitOn_plain: "sep \<notin> set a \<Longrightarrow> splitOn sep a = [a]"
  by (induction a) auto

lemma splitOn_join: "splitOn sep s = ps \<Longrightarrow> s = concat (map (\<lambda>p. p @ [sep]) (butlast ps)) @ last ps \<and> ps \<noteq> []"
proof (induction s arbitrary: ps)
  case (Cons ch s)
  obtain p qs where r: "splitOn sep s = p # qs" using Cons.IH [OF refl] by (metis list.exhaust)
  have "s = concat (map (\<lambda>p. p @ [sep]) (butlast (p # qs))) @ last (p # qs)" using Cons.IH [OF r] by simp
  then show ?case using Cons.prems r by (auto split: if_splits)
qed auto

lemma no_dot: "CHR ''.'' \<notin> set (encode s)"
  using encode_alphabet alphabet_facts(3) by blast

lemma sign_split:
  "splitOn CHR ''.'' (sign c now s i) =
    [encode headerJSON, encode (marshalClaims c \<lparr>clSubject = i, clIssuer = issuer, clExpiry = now + ttl s\<rparr>),
     encode (mac c (secret s) (encode headerJSON @ ''.'' @
       encode (marshalClaims c \<lparr>clSubject = i, clIssuer = issuer, clExpiry = now + ttl s\<rparr>)))]"
  by (simp add: sign_def Let_def splitOn_append no_dot splitOn_plain)

lemma Parse_sign:
  assumes "claims = \<lparr>clSubject = i, clIssuer = issuer, clExpiry = now + ttl s\<rparr>"
    and "unmarshalClaims c (marshalClaims c claims) = Some claims" and "i \<noteq> []"
  shows "Parse c now' s (sign c now s i) = (if now' < now + ttl s then Inr claims else Inl (New ''expired or invalid token''))"
  using assms by (simp add: Parse_def sign_split decode_encode)

lemma Parse_genuine:
  assumes "Parse c now s token = Inr claims"
  obtains p0 p1 p2 payload where "token = p0 @ ''.'' @ p1 @ ''.'' @ p2" "decode p2 = Some (mac c (secret s) (p0 @ ''.'' @ p1))"
    "decode p1 = Some payload" "unmarshalClaims c payload = Some claims" "clSubject claims \<noteq> []" "clIssuer claims = issuer"
    "now < clExpiry claims"
proof -
  obtain p0 p1 p2 where s: "splitOn CHR ''.'' token = [p0, p1, p2]" using assms by (auto simp: Parse_def split: list.splits)
  have t: "token = p0 @ ''.'' @ p1 @ ''.'' @ p2" using splitOn_join [OF s] by simp
  obtain sg where sg: "decode p2 = Some sg" using assms s by (auto simp: Parse_def split: option.splits)
  have m: "sg = mac c (secret s) (p0 @ ''.'' @ p1)" using assms s sg by (auto simp: Parse_def split: if_splits)
  obtain payload where p: "decode p1 = Some payload" using assms s sg m by (auto simp: Parse_def split: option.splits)
  have "unmarshalClaims c payload = Some claims \<and> clSubject claims \<noteq> [] \<and> clIssuer claims = issuer \<and> now < clExpiry claims"
    using assms s sg m p by (auto simp: Parse_def split: option.splits if_splits)
  then show thesis using that [OF t _ p] sg m by simp
qed

section \<open>An account can be entered again\<close>

text \<open>Emails and names are unique.\<close>

definition usersOk :: "AuthService \<Rightarrow> bool" where
  "usersOk s \<longleftrightarrow> (\<forall>i j r r'. fmlookup (users s) i = Some r \<longrightarrow> fmlookup (users s) j = Some r' \<longrightarrow>
     usEmail r = usEmail r' \<or> usName r = usName r' \<longrightarrow> i = j)"

lemma user_keys: "k \<in> set (sorted_list_of_fset (fmdom (users s))) \<longleftrightarrow> fmlookup (users s) k \<noteq> None"
  by (auto simp: set_sorted_keys fmlookup_dom'_iff fmlookup_dom_iff)

lemma userTaken_iff:
  "userTaken i email username s \<longleftrightarrow> fmlookup (users s) i \<noteq> None \<or>
    (\<exists>k r. fmlookup (users s) k = Some r \<and> (usEmail r = email \<or> usName r = username))"
  unfolding userTaken_def list_ex_iff Bex_def user_keys by (force split: option.splits)

lemma userByEmail_unique:
  assumes "usersOk s" and "fmlookup (users s) i = Some r"
  shows "userByEmail (usEmail r) s = Some i"
proof (cases "userByEmail (usEmail r) s")
  case None
  then show ?thesis using assms(2) user_keys [of i s] by (auto simp: userByEmail_def find_None_iff)
next
  case (Some k)
  then have "map_option usEmail (fmlookup (users s) k) = Some (usEmail r)"
    unfolding userByEmail_def by (auto simp: find_Some_iff)
  then show ?thesis using assms Some unfolding usersOk_def by auto
qed

lemma Register_cases:
  assumes "Register c now dbErr email username password s = (ans, s')"
  obtains (refused) e where "ans = Inl e" "users s' = users s"
  | (registered) i hash where "ans = Inr (i, sign c now s i)" "bcryptHash c (drawn s) password = Inr hash"
      "\<not> userTaken i (ToLower (TrimSpace email)) (TrimSpace username) s"
      "users s' = fmupd i \<lparr>usEmail = ToLower (TrimSpace email), usName = TrimSpace username, usHash = hash\<rparr> (users s)"
      "secret s' = secret s" "ttl s' = ttl s"
  using assms by (auto simp: Register_def Let_def split: if_splits sum.splits)

lemma Register_ok:
  assumes "Register c now dbErr email username password s = (ans, s')" and "usersOk s"
  shows "usersOk s'"
  using assms(1)
proof (cases rule: Register_cases)
  case (registered i hash)
  let ?r = "\<lparr>usEmail = ToLower (TrimSpace email), usName = TrimSpace username, usHash = hash\<rparr>"
  have new: "usEmail r \<noteq> usEmail ?r \<and> usName r \<noteq> usName ?r" if "fmlookup (users s) k = Some r" for k r
    using registered(3) that unfolding userTaken_iff by auto
  show ?thesis
    unfolding usersOk_def registered(4)
  proof (intro allI impI)
    fix k j x y
    assume a: "fmlookup (fmupd i ?r (users s)) k = Some x" "fmlookup (fmupd i ?r (users s)) j = Some y"
      and e: "usEmail x = usEmail y \<or> usName x = usName y"
    have at: "n = i \<and> z = ?r \<or> n \<noteq> i \<and> fmlookup (users s) n = Some z" if "fmlookup (fmupd i ?r (users s)) n = Some z" for n z
      using that by (simp split: if_splits)
    show "k = j" using at [OF a(1)] at [OF a(2)] e new [of k x] new [of j y] assms(2) unfolding usersOk_def by metis
  qed
qed (use assms(2) in \<open>simp add: usersOk_def\<close>)

end
