(* ===== verification/Quote_Cache.thy ===== *)
theory Quote_Cache
  imports Engine_Client
begin

text \<open>
  The quote caches (package \<^verbatim>\<open>cache\<close>): the map in memory (quotes.go) and the versioned cache in
  Redis (redis.go), whose script compares versions as decimal strings. The theory proves that this
  comparison is the order of the numbers, and that the cache keeps the newest version whatever the
  order in which writers reach it.
\<close>

section \<open>Quotes in memory\<close>

record Quote =
  cqSequence :: nat
  cqBid :: int
  cqAsk :: int
  cqLast :: int
  cqUpdatedAt :: int

type_synonym memoryQuotes = "(string, Quote) fmap"

definition NewQuotes :: memoryQuotes where
  "NewQuotes = fmempty"

definition memorySet :: "int \<Rightarrow> string \<Rightarrow> Quote \<Rightarrow> memoryQuotes \<Rightarrow> memoryQuotes" where
  "memorySet now market v qs = fmupd market (v\<lparr>cqUpdatedAt := now\<rparr>) qs"

definition memoryGet :: "string \<Rightarrow> memoryQuotes \<Rightarrow> Quote \<times> bool" where
  "memoryGet market qs =
    (fmget \<lparr>cqSequence = 0, cqBid = 0, cqAsk = 0, cqLast = 0, cqUpdatedAt = 0\<rparr> qs market, fmlookup qs market \<noteq> None)"

section \<open>Versions as decimal strings\<close>

text \<open>\<^verbatim>\<open>fmt.Sprint\<close> of an unsigned number.\<close>

definition digit :: "nat \<Rightarrow> char" where
  "digit d = char_of (48 + d)"

fun decimal :: "nat \<Rightarrow> string" where
  "decimal n = (if n < 10 then [digit n] else decimal (n div 10) @ [digit (n mod 10)])"

declare decimal.simps [simp del]

text \<open>The condition under which the script keeps the old value.\<close>

definition keepsOld :: "string \<Rightarrow> string \<Rightarrow> bool" where
  "keepsOld previous next \<longleftrightarrow> length previous > length next \<or> (length previous = length next \<and> previous \<ge> next)"

lemma digit_le: "a < 10 \<Longrightarrow> b < 10 \<Longrightarrow> digit a \<le> digit b \<longleftrightarrow> a \<le> b"
  by (simp add: digit_def less_eq_char_def of_char_of)

lemma snoc_le:
  assumes "length xs = length ys"
  shows "xs @ [x] \<le> ys @ [y] \<longleftrightarrow> xs < ys \<or> (xs = ys \<and> x \<le> (y::'a::linorder))"
  using assms by (induction xs ys rule: list_induct2) (auto simp: le_less)

lemma decimal_nonempty [simp]: "decimal n \<noteq> []"
  by (subst decimal.simps) simp

lemma decimal_small: "n < 10 \<Longrightarrow> decimal n = [digit n]"
  by (simp add: decimal.simps)

lemma decimal_large: "\<not> n < 10 \<Longrightarrow> decimal n = decimal (n div 10) @ [digit (n mod 10)]"
  by (simp add: decimal.simps [of n])

lemma quotient_le:
  fixes n m :: nat
  shows "n \<le> m \<longleftrightarrow> n div 10 < m div 10 \<or> (n div 10 = m div 10 \<and> n mod 10 \<le> m mod 10)"
proof -
  have "n = 10 * (n div 10) + n mod 10" "m = 10 * (m div 10) + m mod 10" "n mod 10 < 10" "m mod 10 < 10" by simp_all
  then show ?thesis by (cases "n div 10" "m div 10" rule: linorder_cases) linarith+
qed

text \<open>The comparison of the strings is the comparison of the numbers.\<close>

lemma keepsOld_iff: "keepsOld (decimal m) (decimal n) \<longleftrightarrow> n \<le> m"
proof (induction m arbitrary: n rule: less_induct)
  case (less m)
  show ?case
  proof (cases "m < 10")
    case m: True
    show ?thesis
    proof (cases "n < 10")
      case True
      then have "digit n \<le> digit m \<longleftrightarrow> n \<le> m" using m by (rule digit_le)
      then show ?thesis using m True by (simp add: keepsOld_def decimal_small le_less)
    next
      case False
      then show ?thesis using m by (simp add: keepsOld_def decimal_small decimal_large)
    qed
  next
    case m: False
    show ?thesis
    proof (cases "n < 10")
      case True
      then show ?thesis using m by (simp add: keepsOld_def decimal_small decimal_large)
    next
      case n: False
      let ?a = "decimal (m div 10)" and ?b = "decimal (n div 10)"
      have IH: "keepsOld ?a (decimal k) \<longleftrightarrow> k \<le> m div 10" for k using less.IH [of "m div 10"] m by simp
      have inj: "?a = ?b \<longleftrightarrow> m div 10 = n div 10"
      proof
        assume ab: "?a = ?b"
        then have "n div 10 \<le> m div 10" using IH [of "n div 10"] by (simp add: keepsOld_def)
        moreover have "\<not> n div 10 < m div 10"
        proof
          assume lt: "n div 10 < m div 10"
          then have "n div 10 < m" using div_le_dividend [of m 10] by linarith
          then show False using less.IH [of "n div 10" "m div 10"] ab lt by (simp add: keepsOld_def)
        qed
        ultimately show "m div 10 = n div 10" by simp
      qed simp
      have lex: "keepsOld (?a @ [x]) (?b @ [y]) \<longleftrightarrow> (keepsOld ?a ?b \<and> ?a \<noteq> ?b) \<or> (?a = ?b \<and> y \<le> x)" for x y
        using snoc_le [of ?b ?a y x] by (auto simp: keepsOld_def)
      have d: "digit (n mod 10) \<le> digit (m mod 10) \<longleftrightarrow> n mod 10 \<le> m mod 10" by (rule digit_le) simp_all
      have "keepsOld (decimal m) (decimal n) \<longleftrightarrow>
          (n div 10 \<le> m div 10 \<and> m div 10 \<noteq> n div 10) \<or> (m div 10 = n div 10 \<and> n mod 10 \<le> m mod 10)"
        unfolding decimal_large [OF m] decimal_large [OF n] lex IH inj d ..
      also have "\<dots> \<longleftrightarrow> n \<le> m" using quotient_le [of n m] by auto
      finally show ?thesis .
    qed
  qed
qed

section \<open>The cache in Redis\<close>

text \<open>
  A key holds the text of the version (absent in values older programs wrote), the quote and the
  time at which it expires. The script runs atomically on the server; times are in milliseconds.
\<close>

record cached =
  chVersion :: "string option"
  chQuote :: Quote
  chExpires :: int

type_synonym redis = "(string, cached) fmap"

definition quoteKey :: "string \<Rightarrow> string" where
  "quoteKey market = ''market:'' @ market @ '':quote''"

definition quoteTTL :: int where
  "quoteTTL = 60000"

definition redisGet :: "int \<Rightarrow> string \<Rightarrow> redis \<Rightarrow> cached option" where
  "redisGet now key r =
    (case fmlookup r key of None \<Rightarrow> None | Some c \<Rightarrow> if now < chExpires c then Some c else None)"

definition setQuote :: "int \<Rightarrow> string \<Rightarrow> Quote \<Rightarrow> string \<Rightarrow> int \<Rightarrow> redis \<Rightarrow> nat \<times> redis" where
  "setQuote now key value next ttl r =
    (case redisGet now key r of
       Some old \<Rightarrow>
         (let previous = (case chVersion old of None \<Rightarrow> ''0'' | Some v \<Rightarrow> v)
          in if keepsOld previous next then (0, r)
             else (1, fmupd key \<lparr>chVersion = Some next, chQuote = value, chExpires = now + ttl\<rparr> r))
     | None \<Rightarrow> (1, fmupd key \<lparr>chVersion = Some next, chQuote = value, chExpires = now + ttl\<rparr> r))"

text \<open>
  A call over the network: \<open>d\<close> says whether it arrives and whether its answer does. The clock of the
  caller and of the server are the same here.
\<close>

definition SetVersioned :: "Delivery \<Rightarrow> int \<Rightarrow> string \<Rightarrow> Quote \<Rightarrow> redis \<Rightarrow> (goerror + bool) \<times> redis" where
  "SetVersioned d now market q r =
    (let (accepted, r') = setQuote now (quoteKey market) (q\<lparr>cqUpdatedAt := now\<rparr>) (decimal (cqSequence q)) quoteTTL r
     in case d of
          Delivered \<Rightarrow> (Inr (accepted = 1), r')
        | RequestLost \<Rightarrow> (Inl (External ''redis''), r)
        | ReplyLost \<Rightarrow> (Inl (External ''redis''), r'))"

definition redisSet :: "Delivery \<Rightarrow> int \<Rightarrow> string \<Rightarrow> Quote \<Rightarrow> redis \<Rightarrow> goerror option \<times> redis" where
  "redisSet d now market q r =
    (case SetVersioned d now market q r of (Inl e, r') \<Rightarrow> (Some e, r') | (Inr _, r') \<Rightarrow> (None, r'))"

definition GetQuote :: "Delivery \<Rightarrow> int \<Rightarrow> string \<Rightarrow> redis \<Rightarrow> goerror + Quote" where
  "GetQuote d now market r =
    (if d \<noteq> Delivered then Inl (External ''redis'')
     else case redisGet now (quoteKey market) r of None \<Rightarrow> Inl (External ''redis: nil'') | Some c \<Rightarrow> Inr (chQuote c))"

section \<open>The newest version wins\<close>

text \<open>Every value carries the decimal text of its own version.\<close>

definition redisOk :: "redis \<Rightarrow> bool" where
  "redisOk r \<longleftrightarrow> (\<forall>k c. fmlookup r k = Some c \<longrightarrow> chVersion c = Some (decimal (cqSequence (chQuote c))))"

text \<open>The version a market has at a time.\<close>

definition versionAt :: "int \<Rightarrow> string \<Rightarrow> redis \<Rightarrow> nat option" where
  "versionAt now market r = map_option (\<lambda>c. cqSequence (chQuote c)) (redisGet now (quoteKey market) r)"

lemma quoteKey_inject [simp]: "quoteKey m = quoteKey m' \<longleftrightarrow> m = m'"
  by (simp add: quoteKey_def)

lemma setQuote_version:
  assumes "redisOk r"
  shows "setQuote now key v (decimal (cqSequence v)) ttl r =
    (case redisGet now key r of
       Some old \<Rightarrow> if cqSequence v \<le> cqSequence (chQuote old) then (0, r)
         else (1, fmupd key \<lparr>chVersion = Some (decimal (cqSequence v)), chQuote = v, chExpires = now + ttl\<rparr> r)
     | None \<Rightarrow> (1, fmupd key \<lparr>chVersion = Some (decimal (cqSequence v)), chQuote = v, chExpires = now + ttl\<rparr> r))"
proof (cases "redisGet now key r")
  case (Some old)
  then have "chVersion old = Some (decimal (cqSequence (chQuote old)))"
    using assms by (auto simp: redisGet_def redisOk_def split: option.splits if_splits)
  then show ?thesis using Some keepsOld_iff by (simp add: setQuote_def)
qed (simp add: setQuote_def)

lemma SetVersioned_ok:
  assumes "SetVersioned d now market q r = (ans, r')" and "redisOk r"
  shows "redisOk r'"
proof -
  let ?q = "q\<lparr>cqUpdatedAt := now\<rparr>" and ?k = "quoteKey market"
  note v = setQuote_version [OF assms(2), of now ?k ?q quoteTTL, simplified]
  show "redisOk r'" using assms v by (cases d; cases "redisGet now ?k r") (auto simp: SetVersioned_def redisOk_def split: if_splits)
qed

text \<open>
  Many writers, in the order in which their calls reach the server, each at its own time; and what
  reaches it for one market: the times and the versions.
\<close>

type_synonym cacheWrite = "int \<times> Delivery \<times> string \<times> Quote"

definition setAll :: "cacheWrite list \<Rightarrow> redis \<Rightarrow> redis" where
  "setAll ws r = fold (\<lambda>(now, d, market, q) r. snd (SetVersioned d now market q r)) ws r"

definition arrived :: "string \<Rightarrow> cacheWrite list \<Rightarrow> (int \<times> nat) list" where
  "arrived market ws = map (\<lambda>(now, d, m, q). (now, cqSequence q)) (filter (\<lambda>(now, d, m, q). m = market \<and> d \<noteq> RequestLost) ws)"

text \<open>
  The register the cache is for one market: a version with the time at which it lapses. A version that
  has not lapsed is only replaced by a newer one; anything replaces one that has.
\<close>

type_synonym lease = "(nat \<times> int) option"

fun renew :: "int \<times> nat \<Rightarrow> lease \<Rightarrow> lease" where
  "renew (now, n) None = Some (n, now + 60000)"
| "renew (now, n) (Some (v, x)) = (if now < x \<and> n \<le> v then Some (v, x) else Some (n, now + 60000))"

definition leaseOf :: "string \<Rightarrow> redis \<Rightarrow> lease" where
  "leaseOf market r = map_option (\<lambda>c. (cqSequence (chQuote c), chExpires c)) (fmlookup r (quoteKey market))"

lemma versionAt_lease:
  "versionAt now market r = (case leaseOf market r of None \<Rightarrow> None | Some (v, x) \<Rightarrow> if now < x then Some v else None)"
  by (simp add: versionAt_def redisGet_def leaseOf_def split: option.split)

lemma SetVersioned_lease:
  assumes "SetVersioned d now market q r = (ans, r')" and "redisOk r"
  shows "leaseOf m r' = (if m = market \<and> d \<noteq> RequestLost then renew (now, cqSequence q) (leaseOf m r) else leaseOf m r)"
proof -
  let ?q = "q\<lparr>cqUpdatedAt := now\<rparr>" and ?k = "quoteKey market"
  note v = setQuote_version [OF assms(2), of now ?k ?q quoteTTL, simplified]
  show ?thesis
    using assms(1) v
    by (cases d; cases "fmlookup r ?k")
      (auto simp: SetVersioned_def leaseOf_def redisGet_def quoteTTL_def split: if_splits)
qed

lemma setAll_lease:
  assumes "redisOk r"
  shows "leaseOf market (setAll ws r) = fold renew (arrived market ws) (leaseOf market r)"
  using assms
proof (induction ws arbitrary: r)
  case (Cons w ws)
  obtain now d m q where w: "w = (now, d, m, q)" by (metis prod.exhaust)
  obtain ans r' where s: "SetVersioned d now m q r = (ans, r')" by (rule prod.exhaust)
  note e = SetVersioned_ok [OF s Cons.prems] and l = SetVersioned_lease [OF s Cons.prems]
  show ?case using Cons.IH [OF e] l w s by (auto simp: setAll_def arrived_def)
qed (simp add: setAll_def arrived_def)

text \<open>As long as a version does not lapse, the newest wins.\<close>

lemma renew_live:
  assumes "now < x" and "x \<le> y" and "\<forall>a\<in>set as. x \<le> fst a + 60000 \<and> fst a \<le> now"
  shows "\<exists>z. fold renew as (Some (v, y)) = Some (fold max (map snd as) v, z) \<and> x \<le> z"
  using assms
proof (induction as arbitrary: v y)
  case (Cons a as)
  obtain t n where a: "a = (t, n)" by (rule prod.exhaust)
  have t: "x \<le> t + 60000" "t < y" and rest: "\<forall>a\<in>set as. x \<le> fst a + 60000 \<and> fst a \<le> now" using Cons.prems a by auto
  show ?case
  proof (cases "n \<le> v")
    case True
    then show ?thesis using Cons.IH [where v = v, OF Cons.prems(1,2) rest] t a by (simp add: max_absorb2)
  next
    case False
    then show ?thesis using Cons.IH [where v = n, OF Cons.prems(1) t(1) rest] a by (simp add: max_absorb1)
  qed
qed simp

lemma setAll_live:
  assumes "redisOk r" and "leaseOf market r = Some (v, x)" and "now < x"
    and "\<forall>a\<in>set (arrived market ws). x \<le> fst a + 60000 \<and> fst a \<le> now"
  shows "versionAt now market (setAll ws r) = Some (Max (insert v (snd ` set (arrived market ws))))"
proof -
  obtain z where z: "leaseOf market (setAll ws r) = Some (fold max (map snd (arrived market ws)) v, z)" "x \<le> z"
    using setAll_lease [OF assms(1), of market ws] renew_live [where as = "arrived market ws" and v = v, OF assms(3) order_refl assms(4)] assms(2) by auto
  then show ?thesis using assms(3) Max.set_eq_fold [of v "map snd (arrived market ws)"] by (simp add: versionAt_lease)
qed

lemma setAll_first:
  assumes "redisOk r" and "versionAt t0 market r = None" and "arrived market ws = (t0, n0) # rest" and "now < t0 + 60000"
    and "\<forall>a\<in>set rest. t0 \<le> fst a \<and> fst a \<le> now"
  shows "versionAt now market (setAll ws r) = Some (Max (insert n0 (snd ` set rest)))"
proof -
  have first: "renew (t0, n0) (leaseOf market r) = Some (n0, t0 + 60000)"
    using assms(2) by (cases "leaseOf market r") (auto simp: versionAt_lease split: if_splits)
  obtain z where z: "leaseOf market (setAll ws r) = Some (fold max (map snd rest) n0, z)" "t0 + 60000 \<le> z"
    using setAll_lease [OF assms(1), of market ws] renew_live [where as = rest and v = n0, OF assms(4) order_refl] assms(3,5) first by auto
  then show ?thesis using assms(4) Max.set_eq_fold [of n0 "map snd rest"] by (simp add: versionAt_lease)
qed

end
