(* ===== verification/Broadcast.thy ===== *)
theory Broadcast
  imports Quote_Cache
begin

text \<open>
  The fan-out of updates to WebSocket clients (package \<^verbatim>\<open>ws\<close>, hub.go and http.go). A Go channel is a
  bounded buffer with a flag for \<^verbatim>\<open>close\<close>; a send to a closed channel and a second \<^verbatim>\<open>close\<close> would
  panic, which the model shows as \<open>None\<close>. The theory proves that publishing never panics or blocks and
  that a subscriber gets the updates of its channel in order, as many as its buffer has room for.
\<close>

datatype payload = OrderUpdate string | QuoteUpdate Quote

record Message =
  msgChannel :: string
  msgType :: string
  msgData :: payload

record channel =
  chBuffer :: "Message list"
  chCapacity :: nat
  chClosed :: bool

record Hub =
  subscribers :: "(string, nat fset) fmap"
  channels :: "(nat, channel) fmap"
  nextChannel :: nat

definition NewHub :: Hub where
  "NewHub = \<lparr>subscribers = fmempty, channels = fmempty, nextChannel = 0\<rparr>"

definition Subscribe :: "string \<Rightarrow> int \<Rightarrow> Hub \<Rightarrow> nat \<times> Hub" where
  "Subscribe name capacity0 h =
    (let capacity = (if capacity0 < 1 then 1 else capacity0); ch = nextChannel h
     in (ch, \<lparr>subscribers = fmupd name (finsert ch (fmget {||} (subscribers h) name)) (subscribers h),
              channels = fmupd ch \<lparr>chBuffer = [], chCapacity = nat capacity, chClosed = False\<rparr> (channels h),
              nextChannel = ch + 1\<rparr>))"

definition closeChannel :: "nat \<Rightarrow> Hub \<Rightarrow> Hub option" where
  "closeChannel ch h =
    (case fmlookup (channels h) ch of
       None \<Rightarrow> None
     | Some c \<Rightarrow> if chClosed c then None else Some (h\<lparr>channels := fmupd ch (c\<lparr>chClosed := True\<rparr>) (channels h)\<rparr>))"

text \<open>The function \<^verbatim>\<open>Subscribe\<close> returns beside the channel.\<close>

definition cancelSubscription :: "string \<Rightarrow> nat \<Rightarrow> Hub \<Rightarrow> Hub option" where
  "cancelSubscription name ch h =
    closeChannel ch
      (case fmlookup (subscribers h) name of
         None \<Rightarrow> h
       | Some set0 \<Rightarrow>
          (let set1 = set0 |-| {|ch|}
           in h\<lparr>subscribers := (if set1 = {||} then fmdrop name (subscribers h) else fmupd name set1 (subscribers h))\<rparr>))"

text \<open>A send that does not wait: it appends, or drops the message when the buffer is full.\<close>

definition offer :: "Message \<Rightarrow> nat \<Rightarrow> Hub \<Rightarrow> Hub option" where
  "offer m ch h =
    (case fmlookup (channels h) ch of
       None \<Rightarrow> None
     | Some c \<Rightarrow>
        (if chClosed c then None
         else if length (chBuffer c) < chCapacity c
         then Some (h\<lparr>channels := fmupd ch (c\<lparr>chBuffer := chBuffer c @ [m]\<rparr>) (channels h)\<rparr>)
         else Some h))"

fun offerAll :: "Message \<Rightarrow> nat list \<Rightarrow> Hub \<Rightarrow> Hub option" where
  "offerAll m [] h = Some h"
| "offerAll m (ch # chs) h = (case offer m ch h of None \<Rightarrow> None | Some h' \<Rightarrow> offerAll m chs h')"

text \<open>The loop over the set of channels visits each once; the order does not show in the result.\<close>

definition Publish :: "Message \<Rightarrow> Hub \<Rightarrow> Hub option" where
  "Publish m h = offerAll m (sorted_list_of_fset (fmget {||} (subscribers h) (msgChannel m))) h"

text \<open>The receive of the loop that writes to the client: the next message, or none yet.\<close>

definition receive :: "nat \<Rightarrow> Hub \<Rightarrow> Message option \<times> Hub" where
  "receive ch h =
    (case fmlookup (channels h) ch of
       None \<Rightarrow> (None, h)
     | Some c \<Rightarrow>
        (case chBuffer c of
           [] \<Rightarrow> (None, h)
         | m # ms \<Rightarrow> (Some m, h\<lparr>channels := fmupd ch (c\<lparr>chBuffer := ms\<rparr>) (channels h)\<rparr>)))"

section \<open>A client of the stream\<close>

text \<open>
  \<^verbatim>\<open>ServeHTTP\<close>: without a channel name the answer is 400; \<open>upgraded\<close> says whether the
  connection became a WebSocket; then the client is subscribed with room for 64 messages.
\<close>

definition openStream :: "string \<Rightarrow> bool \<Rightarrow> Hub \<Rightarrow> (nat + nat option) \<times> Hub" where
  "openStream name upgraded h =
    (if name = [] then (Inl 400, h)
     else if \<not> upgraded then (Inr None, h)
     else let (ch, h') = Subscribe name 64 h in (Inr (Some ch), h'))"

text \<open>
  One turn of its loop: it waits while there is no message, writes the next one, and when the write
  fails it returns, which cancels the subscription. The flag says whether the loop goes on.
\<close>

definition streamTurn :: "string \<Rightarrow> nat \<Rightarrow> bool \<Rightarrow> Hub \<Rightarrow> (bool \<times> Hub) option" where
  "streamTurn name ch written h =
    (case receive ch h of
       (None, h1) \<Rightarrow> Some (True, h1)
     | (Some m, h1) \<Rightarrow>
        (if written then Some (True, h1)
         else case cancelSubscription name ch h1 of None \<Rightarrow> None | Some h2 \<Rightarrow> Some (False, h2)))"

section \<open>The origin check\<close>

text \<open>\<open>parseHost\<close> is the host \<^verbatim>\<open>url.Parse\<close> finds, or nothing when it fails.\<close>

definition checkOrigin :: "(string \<Rightarrow> string option) \<Rightarrow> string \<Rightarrow> string \<Rightarrow> string \<Rightarrow> bool" where
  "checkOrigin parseHost allowed host origin =
    (if origin = [] then True
     else case parseHost origin of None \<Rightarrow> False | Some h \<Rightarrow> h = host \<or> origin = allowed)"

section \<open>Invariant\<close>

definition subscribed :: "string \<Rightarrow> nat \<Rightarrow> Hub \<Rightarrow> bool" where
  "subscribed name ch h \<longleftrightarrow> ch |\<in>| fmget {||} (subscribers h) name"

definition channelOk :: "Hub \<Rightarrow> nat \<Rightarrow> channel \<Rightarrow> bool" where
  "channelOk h ch c \<longleftrightarrow> length (chBuffer c) \<le> chCapacity c \<and> 0 < chCapacity c \<and> ch < nextChannel h"

text \<open>Subscribed channels exist and are open, each under one name; buffers keep to their capacity.\<close>

definition hubOk :: "Hub \<Rightarrow> bool" where
  "hubOk h \<longleftrightarrow> (\<forall>name ch. subscribed name ch h \<longrightarrow> (\<exists>c. fmlookup (channels h) ch = Some c \<and> \<not> chClosed c)) \<and>
     (\<forall>ch c. fmlookup (channels h) ch = Some c \<longrightarrow> channelOk h ch c) \<and>
     (\<forall>n n' ch. subscribed n ch h \<longrightarrow> subscribed n' ch h \<longrightarrow> n = n')"

lemma hubOkI:
  assumes "\<And>name ch. subscribed name ch h \<Longrightarrow> \<exists>c. fmlookup (channels h) ch = Some c \<and> \<not> chClosed c"
    and "\<And>ch c. fmlookup (channels h) ch = Some c \<Longrightarrow> channelOk h ch c"
    and "\<And>n n' ch. subscribed n ch h \<Longrightarrow> subscribed n' ch h \<Longrightarrow> n = n'"
  shows "hubOk h"
  using assms unfolding hubOk_def by blast

lemma hubOkD:
  assumes "hubOk h"
  shows "subscribed name ch h \<Longrightarrow> \<exists>c. fmlookup (channels h) ch = Some c \<and> \<not> chClosed c"
    and "fmlookup (channels h) ch = Some c \<Longrightarrow> channelOk h ch c"
    and "subscribed n ch h \<Longrightarrow> subscribed n' ch h \<Longrightarrow> n = n'"
  using assms unfolding hubOk_def by blast+

lemma NewHub_ok: "hubOk NewHub"
  by (simp add: hubOk_def NewHub_def subscribed_def)

lemma Subscribe_ok:
  assumes "hubOk h" and "Subscribe name capacity h = (ch, h')"
  shows "hubOk h'" and "subscribed n k h' \<longleftrightarrow> subscribed n k h \<or> (n = name \<and> k = ch)" and "fmlookup (channels h) ch = None"
    and "k \<noteq> ch \<Longrightarrow> fmlookup (channels h') k = fmlookup (channels h) k"
proof -
  let ?c = "\<lparr>chBuffer = [], chCapacity = nat (if capacity < 1 then 1 else capacity), chClosed = False\<rparr>"
  have h': "ch = nextChannel h" "subscribers h' = fmupd name (finsert ch (fmget {||} (subscribers h) name)) (subscribers h)"
      "channels h' = fmupd ch ?c (channels h)" "nextChannel h' = Suc ch"
    using assms(2) by (auto simp: Subscribe_def Let_def)
  show new: "fmlookup (channels h) ch = None"
    using hubOkD(2) [OF assms(1), of ch] h'(1) by (cases "fmlookup (channels h) ch") (auto simp: channelOk_def)
  have sub: "subscribed n k h' \<longleftrightarrow> subscribed n k h \<or> (n = name \<and> k = ch)" for n k by (auto simp: subscribed_def h'(2))
  have unused: "\<not> subscribed n ch h" for n using hubOkD(1) [OF assms(1), of n ch] new by auto
  show "subscribed n k h' \<longleftrightarrow> subscribed n k h \<or> (n = name \<and> k = ch)" by (rule sub)
  show "k \<noteq> ch \<Longrightarrow> fmlookup (channels h') k = fmlookup (channels h) k" by (simp add: h'(3))
  show "hubOk h'"
  proof (rule hubOkI)
    show "\<exists>c. fmlookup (channels h') k = Some c \<and> \<not> chClosed c" if "subscribed n k h'" for n k
      using that hubOkD(1) [OF assms(1), of n k] by (auto simp: sub h'(3))
    show "channelOk h' k c" if "fmlookup (channels h') k = Some c" for k c
      using that hubOkD(2) [OF assms(1), of k c] h'(1,3,4) by (auto simp: channelOk_def split: if_splits)
    show "n = n'" if "subscribed n k h'" "subscribed n' k h'" for n n' k
      using that hubOkD(3) [OF assms(1), of n k n'] unused by (auto simp: sub)
  qed
qed

text \<open>A step that changes one channel and keeps it open.\<close>

lemma channel_update_ok:
  assumes "hubOk h" and "fmlookup (channels h) ch = Some c" and "chClosed c' = chClosed c" and "channelOk h ch c'"
  shows "hubOk (h\<lparr>channels := fmupd ch c' (channels h)\<rparr>)"
proof (rule hubOkI)
  let ?h = "h\<lparr>channels := fmupd ch c' (channels h)\<rparr>"
  have sub: "subscribed n k ?h = subscribed n k h" for n k by (simp add: subscribed_def)
  show "\<exists>d. fmlookup (channels ?h) k = Some d \<and> \<not> chClosed d" if "subscribed n k ?h" for n k
    using that hubOkD(1) [OF assms(1), of n k] assms(2,3) by (auto simp: sub)
  show "channelOk ?h k d" if "fmlookup (channels ?h) k = Some d" for k d
    using that hubOkD(2) [OF assms(1), of k d] assms(4) by (auto simp: channelOk_def split: if_splits)
  show "n = n'" if "subscribed n k ?h" "subscribed n' k ?h" for n n' k
    using that hubOkD(3) [OF assms(1), of n k n'] by (simp add: sub)
qed

lemma receive_ok:
  assumes "hubOk h" and "receive ch h = (m, h')"
  shows "hubOk h'"
proof (cases "fmlookup (channels h) ch")
  case (Some c)
  show ?thesis
  proof (cases "chBuffer c")
    case (Cons x xs)
    then have "h' = h\<lparr>channels := fmupd ch (c\<lparr>chBuffer := xs\<rparr>) (channels h)\<rparr>" using assms(2) Some by (simp add: receive_def)
    then show ?thesis using channel_update_ok [OF assms(1) Some, of "c\<lparr>chBuffer := xs\<rparr>"] hubOkD(2) [OF assms(1) Some] Cons
      by (simp add: channelOk_def)
  qed (use assms Some in \<open>simp add: receive_def\<close>)
qed (use assms in \<open>simp add: receive_def\<close>)

lemma cancelSubscription_ok:
  assumes "hubOk h" and "subscribed name ch h"
  obtains h' where "cancelSubscription name ch h = Some h'" "hubOk h'" "\<And>n k. subscribed n k h' \<longleftrightarrow> subscribed n k h \<and> k \<noteq> ch"
proof -
  obtain c where c: "fmlookup (channels h) ch = Some c" "\<not> chClosed c" using hubOkD(1) [OF assms] by blast
  obtain set0 where set0: "fmlookup (subscribers h) name = Some set0"
    using assms(2) by (cases "fmlookup (subscribers h) name") (auto simp: subscribed_def fmget_def)
  let ?subs = "if set0 |-| {|ch|} = {||} then fmdrop name (subscribers h) else fmupd name (set0 |-| {|ch|}) (subscribers h)"
  let ?h = "h\<lparr>subscribers := ?subs, channels := fmupd ch (c\<lparr>chClosed := True\<rparr>) (channels h)\<rparr>"
  have r: "cancelSubscription name ch h = Some ?h" using c set0 by (simp add: cancelSubscription_def closeChannel_def Let_def)
  have name: "subscribed name k ?h \<longleftrightarrow> k |\<in>| set0 \<and> k \<noteq> ch" for k by (auto simp: subscribed_def fmget_def)
  have other: "subscribed n k ?h \<longleftrightarrow> subscribed n k h" if "n \<noteq> name" for n k using that by (auto simp: subscribed_def fmget_def)
  have only: "n = name" if "subscribed n ch h" for n using hubOkD(3) [OF assms(1) that assms(2)] .
  have sub: "subscribed n k ?h \<longleftrightarrow> subscribed n k h \<and> k \<noteq> ch" for n k
  proof (cases "n = name")
    case True
    have "subscribed name k h \<longleftrightarrow> k |\<in>| set0" using set0 by (simp add: subscribed_def fmget_def)
    then show ?thesis using name [of k] True by simp
  next
    case False
    then show ?thesis using other [OF False, of k] only [of n] by metis
  qed
  have "hubOk ?h"
  proof (rule hubOkI)
    show "\<exists>d. fmlookup (channels ?h) k = Some d \<and> \<not> chClosed d" if "subscribed n k ?h" for n k
      using that hubOkD(1) [OF assms(1), of n k] unfolding sub by auto
    show "channelOk ?h k d" if "fmlookup (channels ?h) k = Some d" for k d
      using that hubOkD(2) [OF assms(1), of k] c(1) by (auto simp: channelOk_def split: if_splits)
    show "n = n'" if "subscribed n k ?h" "subscribed n' k ?h" for n n' k
      using that hubOkD(3) [OF assms(1), of n k n'] unfolding sub by blast
  qed
  then show thesis by (rule that [OF r _ sub])
qed

lemma receive_subscribed: "receive ch h = (m, h') \<Longrightarrow> subscribed n k h' = subscribed n k h"
  by (auto simp: receive_def subscribed_def split: option.splits list.splits)

lemma streamTurn_ok:
  assumes "hubOk h" and "subscribed name ch h"
  obtains go h' where "streamTurn name ch written h = Some (go, h')" "hubOk h'"
    "\<And>n k. subscribed n k h' \<longleftrightarrow> subscribed n k h \<and> (go \<or> k \<noteq> ch)"
proof -
  obtain m h1 where r: "receive ch h = (m, h1)" by (rule prod.exhaust)
  note h1 = receive_ok [OF assms(1) r] receive_subscribed [OF r]
  show thesis
  proof (cases "m = None \<or> written")
    case True
    then have "streamTurn name ch written h = Some (True, h1)" using r by (cases m) (auto simp: streamTurn_def)
    then show thesis using that [of True h1] h1 by simp
  next
    case False
    have "subscribed name ch h1" using assms(2) h1(2) by simp
    then obtain h2 where "cancelSubscription name ch h1 = Some h2" "hubOk h2" "\<And>n k. subscribed n k h2 \<longleftrightarrow> subscribed n k h1 \<and> k \<noteq> ch"
      by (rule cancelSubscription_ok [OF h1(1)]) (rule that)
    then show thesis using that [of False h2] r False h1(2) by (auto simp: streamTurn_def)
  qed
qed

section \<open>Publishing\<close>

text \<open>The channel after an offer.\<close>

definition offered :: "Message \<Rightarrow> channel \<Rightarrow> channel" where
  "offered m c = (if length (chBuffer c) < chCapacity c then c\<lparr>chBuffer := chBuffer c @ [m]\<rparr> else c)"

lemma offer_ok:
  assumes "hubOk h" and "fmlookup (channels h) ch = Some c" and "\<not> chClosed c"
  obtains h' where "offer m ch h = Some h'" "hubOk h'" "subscribers h' = subscribers h"
    "\<And>k. fmlookup (channels h') k = (if k = ch then Some (offered m c) else fmlookup (channels h) k)"
proof (cases "length (chBuffer c) < chCapacity c")
  case True
  let ?c = "c\<lparr>chBuffer := chBuffer c @ [m]\<rparr>"
  have "channelOk h ch ?c" using hubOkD(2) [OF assms(1,2)] True by (simp add: channelOk_def)
  then have ok: "hubOk (h\<lparr>channels := fmupd ch ?c (channels h)\<rparr>)" by (intro channel_update_ok [OF assms(1,2)]) simp_all
  show thesis
    by (rule that [OF _ ok]) (use assms True in \<open>simp_all add: offer_def offered_def\<close>)
next
  case False
  show thesis
    by (rule that [of h]) (use assms False in \<open>auto simp: offer_def offered_def\<close>)
qed

lemma offerAll_ok:
  assumes "hubOk h" and "distinct chs" and "\<And>ch. ch \<in> set chs \<Longrightarrow> \<exists>c. fmlookup (channels h) ch = Some c \<and> \<not> chClosed c"
  shows "\<exists>h'. offerAll m chs h = Some h' \<and> hubOk h' \<and> subscribers h' = subscribers h \<and>
    (\<forall>k. fmlookup (channels h') k = (if k \<in> set chs then map_option (offered m) (fmlookup (channels h) k) else fmlookup (channels h) k))"
  using assms
proof (induction chs arbitrary: h)
  case (Cons ch chs)
  obtain c where c: "fmlookup (channels h) ch = Some c" "\<not> chClosed c" using Cons.prems(3) [of ch] by auto
  obtain h1 where h1: "offer m ch h = Some h1" "hubOk h1" "subscribers h1 = subscribers h"
      "\<And>k. fmlookup (channels h1) k = (if k = ch then Some (offered m c) else fmlookup (channels h) k)"
    by (rule offer_ok [OF Cons.prems(1) c, of m]) (rule that)
  have open1: "\<exists>d. fmlookup (channels h1) k = Some d \<and> \<not> chClosed d" if "k \<in> set chs" for k
    using Cons.prems(2,3) that h1(4) by auto
  obtain h' where h': "offerAll m chs h1 = Some h'" "hubOk h'" "subscribers h' = subscribers h1"
      "\<And>k. fmlookup (channels h') k = (if k \<in> set chs then map_option (offered m) (fmlookup (channels h1) k) else fmlookup (channels h1) k)"
    using Cons.IH [OF h1(2) _ open1] Cons.prems(2) by auto
  show ?case using h1 h' c(1) Cons.prems(2) by auto
qed simp

lemma Publish_ok:
  assumes "hubOk h"
  shows "\<exists>h'. Publish m h = Some h' \<and> hubOk h' \<and> subscribers h' = subscribers h \<and>
    (\<forall>k. fmlookup (channels h') k =
      (if subscribed (msgChannel m) k h then map_option (offered m) (fmlookup (channels h) k) else fmlookup (channels h) k))"
proof -
  let ?chs = "sorted_list_of_fset (fmget {||} (subscribers h) (msgChannel m))"
  have s: "k \<in> set ?chs \<longleftrightarrow> subscribed (msgChannel m) k h" for k by (simp add: subscribed_def)
  show ?thesis using offerAll_ok [OF assms, of ?chs m] hubOkD(1) [OF assms] unfolding Publish_def s by auto
qed

end
