(* ===== verification/Metrics.thy ===== *)
theory Metrics
  imports Prelude
begin

text \<open>
  The counters of package \<^verbatim>\<open>metrics\<close> (metrics.go): unsigned 64-bit numbers that wrap, and the longest
  pause of a snapshot, kept by a compare-and-swap loop that other observers may disturb. The gauges of
  the Go runtime and the text format of the report are left out.
\<close>

definition add64 :: "nat \<Rightarrow> nat \<Rightarrow> nat" where
  "add64 a b = (a + b) mod 2 ^ 64"

datatype Stage = StageLockWait | StageWAL | StageProjection | StageEngine | StageQuote | StageSnapshotPause

record Registry =
  stageCounts :: "Stage \<Rightarrow> nat"
  stageTimes :: "Stage \<Rightarrow> nat"
  snapshotPauseMax :: nat
  requestCount :: nat
  errorCount :: nat
  requestTime :: nat
  orderCount :: nat
  snapshotCount :: nat

definition NewRegistry :: Registry where
  "NewRegistry = \<lparr>stageCounts = (\<lambda>_. 0), stageTimes = (\<lambda>_. 0), snapshotPauseMax = 0, requestCount = 0, errorCount = 0,
     requestTime = 0, orderCount = 0, snapshotCount = 0\<rparr>"

text \<open>
  The loop that raises the maximum to \<open>d\<close>. Between the load of \<open>old\<close> and the swap other observers may
  have stored another value: \<open>seen\<close> lists the values the swaps of this loop find. A swap succeeds when
  it finds \<open>old\<close>; a swap past the end of the list is not disturbed.
\<close>

fun raiseMax :: "nat \<Rightarrow> nat list \<Rightarrow> nat \<Rightarrow> nat" where
  "raiseMax d [] old = (if d > old then d else old)"
| "raiseMax d (x # seen) old = (if d > old then (if x = old then d else raiseMax d seen x) else old)"

definition Observe :: "Stage \<Rightarrow> nat \<Rightarrow> nat list \<Rightarrow> Registry \<Rightarrow> Registry" where
  "Observe stage d seen m =
    (let m1 = m\<lparr>stageCounts := (stageCounts m)(stage := add64 (stageCounts m stage) 1),
                stageTimes := (stageTimes m)(stage := add64 (stageTimes m stage) d)\<rparr>
     in if stage = StageSnapshotPause then m1\<lparr>snapshotPauseMax := raiseMax d seen (snapshotPauseMax m1)\<rparr> else m1)"

definition OrderAccepted :: "Registry \<Rightarrow> Registry" where
  "OrderAccepted m = m\<lparr>orderCount := add64 (orderCount m) 1\<rparr>"

definition SnapshotTaken :: "Registry \<Rightarrow> Registry" where
  "SnapshotTaken m = m\<lparr>snapshotCount := add64 (snapshotCount m) 1\<rparr>"

text \<open>What the middleware counts of a request: its path, the status of the response and its time.\<close>

definition countRequest :: "string \<Rightarrow> nat \<Rightarrow> nat \<Rightarrow> Registry \<Rightarrow> Registry" where
  "countRequest path status d m =
    (if path = ''/ws'' then m
     else m\<lparr>requestCount := add64 (requestCount m) 1, requestTime := add64 (requestTime m) d,
            errorCount := (if status \<ge> 400 then add64 (errorCount m) 1 else errorCount m)\<rparr>)"

text \<open>While other observers only raise the maximum, the loop ends at the larger of it and \<open>d\<close>.\<close>

lemma raiseMax_result:
  assumes "sorted (old # seen)"
  shows "raiseMax d seen old = max d old \<or> (\<exists>x\<in>set seen. raiseMax d seen old = max d x)" and "d \<le> raiseMax d seen old"
    and "old \<le> raiseMax d seen old"
proof -
  have "(raiseMax d seen old = max d old \<or> (\<exists>x\<in>set seen. raiseMax d seen old = max d x)) \<and> d \<le> raiseMax d seen old \<and>
      old \<le> raiseMax d seen old"
    using assms
  proof (induction d seen old rule: raiseMax.induct)
    case (2 d x seen old)
    then show ?case by (cases "d > old"; cases "x = old") (auto simp: max_def)
  qed auto
  then show "raiseMax d seen old = max d old \<or> (\<exists>x\<in>set seen. raiseMax d seen old = max d x)" "d \<le> raiseMax d seen old"
    "old \<le> raiseMax d seen old" by blast+
qed

end
