(* ===== verification/Http_Safety.thy ===== *)
theory Http_Safety
  imports Http_Server Recorded_Operations
begin

text \<open>
  What the HTTP API preserves and protects: every request keeps the invariant of the exchange, a
  request without a valid token gets nowhere, and a valid token opens only the accounts of its user.
\<close>

section \<open>Publications\<close>

text \<open>Publishing quotes touches the hub, the cache, the calls of Redis and the counters only.\<close>

definition sameBut :: "'p Server \<Rightarrow> 'p Server \<Rightarrow> bool" where
  "sameBut s t \<longleftrightarrow> svTrading t = svTrading s \<and> svEngine t = svEngine s \<and> svAuth t = svAuth s \<and>
     svCodec t = svCodec s \<and> svNet t = svNet s \<and> svUUID t = svUUID s \<and> svNow t = svNow s \<and> svClients t = svClients s \<and>
     svDatabase t = svDatabase s"

lemma sameBut_refl [simp]: "sameBut s s" by (simp add: sameBut_def)

lemma sameBut_trans: "sameBut s t \<Longrightarrow> sameBut t u \<Longrightarrow> sameBut s u" by (simp add: sameBut_def)

lemma redisCall_same: "redisCall s = (d, t) \<Longrightarrow> sameBut s t"
  by (auto simp: redisCall_def sameBut_def split: list.splits)

lemma hubPublish_same: "sameBut s (hubPublish m s)"
  by (auto simp: hubPublish_def sameBut_def split: option.split)

lemma publishQuote_same: "sameBut s (publishQuote q s)"
proof (cases "svQuotes s")
  case None
  then show ?thesis by (simp add: publishQuote_def Let_def hubPublish_same)
next
  case (Some r)
  obtain d s1 where c: "redisCall s = (d, s1)" by (rule prod.exhaust)
  obtain ans r' where v: "SetVersioned d (svNow s) (mqSymbol q) (quoteOf (svNow s) q) r = (ans, r')" by (rule prod.exhaust)
  have k: "sameBut s (s1\<lparr>svQuotes := Some r'\<rparr>)" using redisCall_same [OF c] by (simp add: sameBut_def)
  then have "sameBut s (hubPublish m (s1\<lparr>svQuotes := Some r'\<rparr>))" for m using sameBut_trans hubPublish_same by blast
  then show ?thesis using Some c v k by (simp add: publishQuote_def Let_def)
qed

lemma fold_same:
  assumes "\<And>x s. sameBut s (f x s)"
  shows "sameBut s (fold f xs s)"
  using assms by (induction xs arbitrary: s) (auto intro: sameBut_trans)

lemma serverPublish_same: "sameBut s (serverPublish qs s)"
proof -
  have "sameBut s (fold publishQuote qs s)" by (intro fold_same publishQuote_same)
  then show ?thesis by (simp add: serverPublish_def Let_def sameBut_def)
qed

lemma putTrading_fields: "sameBut (s\<lparr>svTrading := Some q'\<rparr>) (putTrading q q' s)"
  unfolding putTrading_def by (intro fold_same serverPublish_same)

lemma putTrading_simps [simp]:
  "svTrading (putTrading q q' s) = Some q'" "svAuth (putTrading q q' s) = svAuth s" "svNet (putTrading q q' s) = svNet s"
  "svClients (putTrading q q' s) = svClients s" "svCodec (putTrading q q' s) = svCodec s"
  using putTrading_fields [where s = s and q = q and q' = q'] by (simp_all add: sameBut_def)

lemma hubPublish_simps [simp]:
  "svTrading (hubPublish m s) = svTrading s" "svAuth (hubPublish m s) = svAuth s" "svNet (hubPublish m s) = svNet s"
  using hubPublish_same [of s m] by (simp_all add: sameBut_def)

section \<open>Every request keeps the exchange\<close>

lemma readyFrom_reads:
  assumes "healthyRouter net cs" and "readyFrom net ps cs = (r, cs')" and "set ps \<subseteq> {..<length cs}"
  shows "healthyRouter net cs' \<and> routerBook cs' = routerBook cs \<and> length cs' = length cs"
  using assms
proof (induction ps arbitrary: cs)
  case (Cons p ps)
  obtain x cs1 where x: "atClient net p Ready cs = (x, cs1)" by (rule prod.exhaust)
  obtain c' where c': "Ready (net p (calls (cs ! p))) (cs ! p) = (x, c')" "cs1 = cs[p := c']"
    using x by (auto simp: atClient_def Let_def split: prod.splits)
  have p: "p < length cs" using Cons.prems(3) by simp
  let ?h = "srvPrice get_best_bid ''__health_probe__''"
  obtain r1 where "rpc (net p (calls (cs ! p))) ?h (cs ! p) = (r1, c')"
    using c'(1) by (auto simp: Ready_def Let_def split: prod.splits sum.splits if_splits)
  note g = rpc_good [OF healthy_client [OF Cons.prems(1) p] handler_read [OF srv_reads(2)] this]
  have "peer c' = peer (cs ! p)" using g(4) srv_reads(2) by metis
  then have "healthyRouter net cs1 \<and> routerBook cs1 = routerBook cs \<and> length cs1 = length cs"
    using healthy_update [OF Cons.prems(1) g(1), of p] c'(2) routerBook_update [OF p, of c'] by (auto simp: routerBook_def fun_eq_iff)
  then show ?case using Cons.prems(2,3) Cons.IH [of cs1] x by (cases x) auto
qed simp

lemma routerReady_reads:
  assumes "healthyRouter net cs" and "routerReady net cs = (r, cs')"
  shows "healthyRouter net cs'" and "routerBook cs' = routerBook cs"
proof -
  have "set [0..<length cs] \<subseteq> {..<length cs}" by auto
  then show "healthyRouter net cs'" "routerBook cs' = routerBook cs"
    using readyFrom_reads [OF assms(1), of "[0..<length cs]" r cs'] assms(2) by (simp_all add: routerReady_def)
qed

text \<open>The drain of the worker and a placement with its wait are runs of requests, and so of the exchange.\<close>

lemma drainOrders_requests:
  assumes "drainOrders q = Some q'"
  shows "request_step\<^sup>*\<^sup>* (q, D) (q', D)"
proof (induction rule: drainOrders.raw_induct [OF _ assms])
  case (1 drain q r)
  show ?case
  proof (cases "drainRound q")
    case None
    then have "r = q\<lparr>qRunning := False\<rparr>" using 1 by simp
    then show ?thesis using request_step.rest [OF None, of D] by auto
  next
    case (Some q1)
    then have "request_step\<^sup>*\<^sup>* (q1, D) (r, D)" using 1 by simp
    then show ?thesis using request_step.work [OF Some, of D] by (meson converse_rtranclp_into_rtranclp)
  qed
qed

lemma PlaceWait_requests:
  assumes "PlaceWait client ctxErr waitErr od q = (r, q')" and "submission od"
  shows "request_step\<^sup>*\<^sup>* (q, D) (q', D)"
proof -
  obtain r1 q1 where p: "Place client ctxErr \<lparr>plCtx = ctxErr, plOrder = od\<rparr> q = (r1, q1)" by (rule prod.exhaust)
  have s1: "request_step (q, D) (q1, D)" using request_step.place [OF p] assms(2) by simp
  have "q' = q1 \<or> drainOrders q1 = Some q'" using assms(1) p by (auto simp: PlaceWait_def split: option.splits if_splits)
  then show ?thesis using s1 drainOrders_requests [of q1 q' D] by (meson converse_rtranclp_into_rtranclp r_into_rtranclp)
qed

lemma PlaceWait_run:
  assumes "PlaceWait client ctxErr waitErr od q = (r, q')" and "submission od"
  shows "exchange_step\<^sup>*\<^sup>* (q, D) (q', D)"
  by (rule request_run [OF PlaceWait_requests [OF assms]])

text \<open>
  What a request must fit for the guarantee: the numbers of an order are Go integers, a deposit keeps
  the sum of the deposits within 63 bits, and no sell order rests in a market that is resolved.
\<close>

fun fits :: "request \<Rightarrow> int \<Rightarrow> (router, 'p) queue \<Rightarrow> bool" where
  "fits (PostOrder a ctxErr waitErr (Some r)) D q \<longleftrightarrow> in_i64 (doPrice r) \<and> in_i64 (doQuantity r)"
| "fits (PostDeposit a (Some (user, cents))) D q \<longleftrightarrow> D + cents \<le> int64_max"
| "fits (PostResolve a ctxErr outcome i) D q \<longleftrightarrow> noSells i (qService q)"
| "fits req D q \<longleftrightarrow> True"

definition moved :: "(router, 'p) queue \<Rightarrow> int \<Rightarrow> 'p Server \<Rightarrow> int \<Rightarrow> bool" where
  "moved q D s' D' \<longleftrightarrow> (\<exists>q'. svTrading s' = Some q' \<and> exchange_step\<^sup>*\<^sup>* (q, D) (q', D'))"

lemma moved_same: "svTrading s' = Some q \<Longrightarrow> moved q D s' D"
  by (auto simp: moved_def)

lemma moved_step: "exchange_step (q, D) (q', D') \<Longrightarrow> svTrading s' = Some q' \<Longrightarrow> moved q D s' D'"
  by (auto simp: moved_def)

lemma createMarketHandler_moved:
  assumes "createMarketHandler ctx req s = (resp, s')" and "svTrading s = Some q"
  shows "moved q D s' D"
proof (cases "svTrading s' = Some q")
  case False
  then obtain i symbol r t where c: "CreateMarketFor i symbol (fst (UserID ctx)) (qService q) = (r, t)"
      "svTrading s' = Some (q\<lparr>qService := t\<rparr>)"
    using assms by (auto simp: createMarketHandler_def reply_def split: option.splits if_splits prod.splits)
  show ?thesis by (rule moved_step [OF exchange_step.create_market [OF c(1)] c(2)])
qed (rule moved_same)

lemma depositHandler_moved:
  assumes "depositHandler ctx req s = (resp, s')" and "svTrading s = Some q"
    and "\<And>user cents. req = Some (user, cents) \<Longrightarrow> D + cents \<le> int64_max"
  shows "\<exists>D'. moved q D s' D' \<and> (rsStatus resp \<noteq> 204 \<longrightarrow> D' = D)"
proof (cases "svTrading s' = Some q \<and> rsStatus resp \<noteq> 204")
  case True
  then show ?thesis using moved_same by blast
next
  case False
  then obtain user cents userID r t where c: "req = Some (user, cents)" "Deposit userID cents (qService q) = (r, t)"
      "svTrading s' = Some (q\<lparr>qService := t\<rparr>)" "rsStatus resp = 204 \<longleftrightarrow> r = None"
    using assms(1,2) by (auto simp: depositHandler_def reply_def unavailable_def split: option.splits prod.splits sum.splits)
  have "moved q D s' (if r = None then D + cents else D)"
    by (rule moved_step [OF exchange_step.deposit [OF c(2) assms(3) [OF c(1)]] c(3)])
  then show ?thesis using c(4) by auto
qed

text \<open>The two ways through the handler of orders.\<close>

definition orderStatus :: "goerror option \<Rightarrow> nat" where
  "orderStatus ans = (case ans of
      None \<Rightarrow> 201
    | Some e \<Rightarrow> if errors_Is e ErrRecoveryRequired \<or> errors_Is e ErrOrderQueueFull \<or> errors_Is e DeadlineExceeded \<or> errors_Is e Canceled
        then 503 else 400)"

lemma durableOrder_cases:
  assumes "durableOrderHandler ctx ctxErr waitErr req s = (resp, s')" and "svTrading s = Some q"
  obtains (refused) "s' = s" "rsStatus resp = 400 \<or> rsStatus resp = 403" "req = None \<or> (\<exists>r e. req = Some r \<and> RequireOwner ctx (doUserID r) = Inl e)"
  | (placed) r userID i ans q' where "req = Some r" "RequireOwner ctx (doUserID r) = Inr userID"
      "PlaceWait (svClients s) ctxErr waitErr (orderOf (r\<lparr>doID := i, doUserID := userID\<rparr>)) q = (ans, q')"
      "svTrading s' = Some q'" "rsStatus resp = orderStatus ans"
proof (cases req)
  case None
  then show thesis using assms by (intro refused) (auto simp: durableOrderHandler_def reply_def)
next
  case (Some r)
  let ?i = "if doID r = [] then svUUID s (svClients s) else doID r"
  have r1: "(if doID r = [] then r\<lparr>doID := svUUID s (svClients s)\<rparr> else r) = r\<lparr>doID := ?i\<rparr>" by simp
  show thesis
  proof (cases "RequireOwner ctx (doUserID r)")
    case (Inl e)
    then have "(resp, s') = reply 403 (ErrorText e) s"
      using assms Some by (simp add: durableOrderHandler_def Let_def r1)
    then show thesis using Some Inl by (intro refused) (auto simp: reply_def)
  next
    case (Inr userID)
    obtain ans q' where w: "PlaceWait (svClients s) ctxErr waitErr (orderOf (r\<lparr>doID := ?i, doUserID := userID\<rparr>)) q = (ans, q')"
      by (rule prod.exhaust)
    have "svTrading s' = Some q' \<and> rsStatus resp = orderStatus ans"
      using assms Some Inr w by (cases ans) (auto simp: durableOrderHandler_def Let_def r1 reply_def orderStatus_def simp del: if_split)
    then show thesis using placed [OF Some Inr w] by blast
  qed
qed

lemma durableOrderHandler_moved:
  assumes "durableOrderHandler ctx ctxErr waitErr req s = (resp, s')" and "svTrading s = Some q"
    and "\<And>r. req = Some r \<Longrightarrow> in_i64 (doPrice r) \<and> in_i64 (doQuantity r)"
  shows "moved q D s' D"
  using assms(1,2)
proof (cases rule: durableOrder_cases)
  case (placed r userID i ans q')
  have "submission (orderOf (r\<lparr>doID := i, doUserID := userID\<rparr>))"
    using assms(3) [OF placed(1)] by (simp add: submission_def orderOf_def Order0_def)
  then show ?thesis using PlaceWait_run [OF placed(3)] placed(4) by (auto simp: moved_def)
qed (use assms(2) moved_same in simp)

lemma cancelOrderHandler_moved:
  assumes "cancelOrderHandler ctx ctxErr user i s = (resp, s')" and "svTrading s = Some q"
  shows "moved q D s' D"
proof (cases "svTrading s' = Some q")
  case False
  then obtain userID r t where c: "Cancel ctxErr i userID (qService q) = (r, t)" "svTrading s' = Some (q\<lparr>qService := t\<rparr>)"
    using assms by (auto simp: cancelOrderHandler_def reply_def split: option.splits prod.splits sum.splits)
  show ?thesis by (rule moved_step [OF exchange_step.cancel [OF c(1)] c(2)])
qed (rule moved_same)

lemma resolveMarketHandler_moved:
  assumes "resolveMarketHandler ctx ctxErr outcome i s = (resp, s')" and "svTrading s = Some q" and "noSells i (qService q)"
  shows "moved q D s' D"
proof (cases "svTrading s' = Some q")
  case False
  then obtain yes owner r t where c: "ResolveFor ctxErr i yes owner (qService q) = (r, t)" "svTrading s' = Some (q\<lparr>qService := t\<rparr>)"
    using assms(1,2) by (auto simp: resolveMarketHandler_def reply_def split: option.splits if_splits prod.splits)
  show ?thesis by (rule moved_step [OF exchange_step.resolve [OF c(1) assms(3)] c(2)])
qed (rule moved_same)

lemma freshQuote_moved:
  assumes "freshQuote symbol cs s = (resp, s')" and "svTrading s = Some q"
  shows "moved q D s' D"
proof -
  obtain r t where c: "QuoteOf symbol (qService q) = (r, t)" by (rule prod.exhaust)
  have "svTrading (cacheQuote symbol quote u) = svTrading u" for quote and u :: "'a Server"
    by (auto simp: cacheQuote_def Let_def redisCall_def split: option.split list.split prod.split)
  then have "svTrading s' = Some (q\<lparr>qService := t\<rparr>)"
    using assms c by (cases r) (auto simp: freshQuote_def reply_def Let_def)
  then show ?thesis by (rule moved_step [OF exchange_step.quote [OF c]])
qed

lemma quoteHandler_moved:
  assumes "quoteHandler symbol s = (resp, s')" and "svTrading s = Some q"
  shows "moved q D s' D"
proof (cases "gateway s")
  case None
  then show ?thesis using assms by (intro moved_same) (auto simp: quoteHandler_def reply_def)
next
  case g: (Some cs)
  show ?thesis
  proof (cases "svQuotes s")
    case None
    then have "freshQuote symbol cs s = (resp, s')" using assms(1) g by (simp add: quoteHandler_def)
    then show ?thesis by (rule freshQuote_moved [OF _ assms(2)])
  next
    case (Some r)
    obtain d s1 where c: "redisCall s = (d, s1)" by (rule prod.exhaust)
    have s1: "svTrading s1 = Some q" using redisCall_same [OF c] assms(2) by (simp add: sameBut_def)
    show ?thesis
    proof (cases "GetQuote d (svNow s) symbol r")
      case (Inl e)
      then have "freshQuote symbol cs s1 = (resp, s')" using assms(1) g Some c by (simp add: quoteHandler_def)
      then show ?thesis by (rule freshQuote_moved [OF _ s1])
    next
      case (Inr quote)
      then show ?thesis using assms(1) g Some c s1 by (intro moved_same) (auto simp: quoteHandler_def reply_def)
    qed
  qed
qed

text \<open>Requests other than the health check move the exchange along its runs.\<close>

lemma secured_moved:
  assumes "secured a next s = (resp, s')" and "svTrading s = Some q"
    and "\<And>ctx. next ctx s = (resp, s') \<Longrightarrow> \<exists>D'. moved q D s' D' \<and> (P \<longrightarrow> D' = D)"
  shows "\<exists>D'. moved q D s' D' \<and> (P \<longrightarrow> D' = D)"
  using assms moved_same [of s q D] by (auto simp: secured_def reply_def split: option.splits sum.splits)

lemma route_moved:
  assumes "route req s = (resp, s')" and "svTrading s = Some q" and "fits req D q" and "req \<noteq> GetHealth"
  shows "\<exists>D'. moved q D s' D' \<and> (rsStatus resp \<noteq> 204 \<longrightarrow> D' = D)"
proof -
  have reads: "\<exists>D'. moved q D s' D' \<and> (rsStatus resp \<noteq> 204 \<longrightarrow> D' = D)" if "svTrading s' = Some q" using moved_same [OF that] by blast
  have same: "\<exists>D'. moved q D s' D' \<and> (rsStatus resp \<noteq> 204 \<longrightarrow> D' = D)" if "moved q D s' D" using that by blast
  show ?thesis
  proof (cases req)
    case (PostMarket a b)
    then have "secured a (\<lambda>ctx. createMarketHandler ctx b) s = (resp, s')" using assms(1) by simp
    then show ?thesis by (rule secured_moved [OF _ assms(2)]) (blast intro: same createMarketHandler_moved assms(2))
  next
    case (PostOrder a x y b)
    then have "secured a (\<lambda>ctx. durableOrderHandler ctx x y b) s = (resp, s')" using assms(1) by simp
    then show ?thesis
      by (rule secured_moved [OF _ assms(2)])
        (rule same, erule durableOrderHandler_moved [OF _ assms(2)], use assms(3) PostOrder in auto)
  next
    case (DeleteOrder a x user i)
    then have "secured a (\<lambda>ctx. cancelOrderHandler ctx x user i) s = (resp, s')" using assms(1) by simp
    then show ?thesis by (rule secured_moved [OF _ assms(2)]) (blast intro: same cancelOrderHandler_moved assms(2))
  next
    case (PostDeposit a b)
    then have "secured a (\<lambda>ctx. depositHandler ctx b) s = (resp, s')" using assms(1) by simp
    then show ?thesis
      by (rule secured_moved [OF _ assms(2)])
        (erule depositHandler_moved [OF _ assms(2)], use assms(3) PostDeposit in auto)
  next
    case (PostResolve a x y i)
    then have "secured a (\<lambda>ctx. resolveMarketHandler ctx x y i) s = (resp, s')" using assms(1) by simp
    then show ?thesis
      by (rule secured_moved [OF _ assms(2)])
        (rule same, erule resolveMarketHandler_moved [OF _ assms(2)], use assms(3) PostResolve in auto)
  next
    case (GetQuoteRequest symbol)
    then have "quoteHandler symbol s = (resp, s')" using assms(1) by simp
    then show ?thesis using quoteHandler_moved [OF _ assms(2)] same by blast
  qed (use assms reads in \<open>auto simp: HelloWorldHandler_def notFound_def registerHandler_def loginHandler_def marketsHandler_def
      marketHandler_def secured_def orderHandler_def balanceHandler_def positionHandler_def reply_def Let_def
      split: option.splits sum.splits if_splits prod.splits\<close>)
qed

lemma healthHandler_sound:
  assumes "healthHandler s = (resp, s')" and "svTrading s = Some q"
    and "queueOk (routedTrading (svNet s)) routerBook (healthyRouter (svNet s)) D q"
  shows "\<exists>q'. svTrading s' = Some q' \<and> queueOk (routedTrading (svNet s)) routerBook (healthyRouter (svNet s)) D q'"
proof -
  let ?ok = "queueOk (routedTrading (svNet s)) routerBook (healthyRouter (svNet s)) D"
  have step: "?ok (q\<lparr>qService := (qService q)\<lparr>engineState := cs'\<rparr>\<rparr>)" if r: "routerReady (svNet s) (engineState (qService q)) = (x, cs')" for x cs'
  proof -
    have so: "sound (routedTrading (svNet s)) routerBook (healthyRouter (svNet s)) D (qService q)" using assms(3) by (simp add: queueOk_def)
    have "sound (routedTrading (svNet s)) routerBook (healthyRouter (svNet s)) D ((qService q)\<lparr>engineState := cs'\<rparr>)"
    proof (rule sound_same [OF so])
      show "failure (qService q) = None \<and> healthyRouter (svNet s) (engineState ((qService q)\<lparr>engineState := cs'\<rparr>)) \<and>
          routerBook (engineState ((qService q)\<lparr>engineState := cs'\<rparr>)) = routerBook (engineState (qService q))"
        if f: "failure ((qService q)\<lparr>engineState := cs'\<rparr>) = None"
        using routerReady_reads [OF _ r] so f by (simp add: sound_def)
    qed (simp_all add: book_eq_iff)
    then show ?thesis using assms(3) by (simp add: queueOk_def)
  qed
  obtain s1 where s1: "sameBut s s1" "s' = s \<or> s' = s1 \<or>
      (\<exists>cs r cs'. gateway s1 = Some cs \<and> routerReady (svNet s1) cs = (r, cs') \<and> s' = setGateway cs' s1)"
  proof (cases "svDatabase s")
    case None
    then show thesis using assms(1) by (intro that [of s]) (auto simp: healthHandler_def reply_def)
  next
    case (Some ping)
    obtain up s1 where u: "(case svQuotes s of None \<Rightarrow> (True, s) | Some _ \<Rightarrow> (let (d, s1) = redisCall s in (d = Delivered, s1))) = (up, s1)"
      by (rule prod.exhaust)
    have "sameBut s s1" using u redisCall_same [of s] by (auto simp: Let_def split: option.splits prod.splits)
    then show thesis
      using assms(1) Some u
      by (intro that [of s1]) (auto simp: healthHandler_def reply_def Let_def split: option.splits prod.splits)
  qed
  have t1: "svTrading s1 = Some q" "svNet s1 = svNet s" using s1(1) assms(2) by (simp_all add: sameBut_def)
  consider "svTrading s' = Some q" | x cs' where "routerReady (svNet s) (engineState (qService q)) = (x, cs')" "s' = setGateway cs' s1"
    using s1(2) t1 assms(2) by (auto simp: gateway_def split: option.splits)
  then show ?thesis
  proof cases
    case 1
    then show ?thesis using assms(3) by blast
  next
    case 2
    then show ?thesis using step [OF 2(1)] t1 by (simp add: setGateway_def)
  qed
qed

lemma serve_sound:
  assumes "serve d req s = (resp, s')" and "svTrading s = Some q"
    and "queueOk (routedTrading (svNet s)) routerBook (healthyRouter (svNet s)) D q" and "fits req D q"
  shows "\<exists>q' D'. svTrading s' = Some q' \<and> queueOk (routedTrading (svNet s)) routerBook (healthyRouter (svNet s)) D' q' \<and>
    (rsStatus resp \<noteq> 204 \<longrightarrow> D' = D)"
proof -
  obtain s1 where s1: "route req s = (resp, s1)" "svTrading s' = svTrading s1" using assms(1) by (auto simp: serve_def Let_def split: prod.splits)
  show ?thesis
  proof (cases "req = GetHealth")
    case True
    then have "healthHandler s = (resp, s1)" using s1(1) by simp
    then show ?thesis using healthHandler_sound [OF _ assms(2,3)] s1(2) by metis
  next
    case False
    obtain D' where "moved q D s1 D'" and D': "rsStatus resp \<noteq> 204 \<longrightarrow> D' = D" using route_moved [OF s1(1) assms(2,4) False] by blast
    then obtain q' where q': "svTrading s1 = Some q'" "exchange_step\<^sup>*\<^sup>* (q, D) (q', D')" by (auto simp: moved_def)
    then show ?thesis using routed.exchange_run_ok [OF q'(2), of "svNet s"] assms(3) s1(2) D' by auto
  qed
qed

section \<open>What a token opens\<close>

text \<open>The header of a request behind the authentication, and the user it names.\<close>

fun authorizationOf :: "request \<Rightarrow> string option" where
  "authorizationOf (PostMarket a req) = Some a"
| "authorizationOf (PostOrder a ctxErr waitErr req) = Some a"
| "authorizationOf (GetOrder a i) = Some a"
| "authorizationOf (DeleteOrder a ctxErr user i) = Some a"
| "authorizationOf (PostDeposit a req) = Some a"
| "authorizationOf (GetBalance a user) = Some a"
| "authorizationOf (GetPosition a user market) = Some a"
| "authorizationOf (PostResolve a ctxErr outcome i) = Some a"
| "authorizationOf req = None"

fun namedUser :: "request \<Rightarrow> string option" where
  "namedUser (PostOrder a ctxErr waitErr (Some r)) = Some (doUserID r)"
| "namedUser (DeleteOrder a ctxErr user i) = Some user"
| "namedUser (PostDeposit a (Some (user, cents))) = Some user"
| "namedUser (GetBalance a user) = Some user"
| "namedUser (GetPosition a user market) = Some user"
| "namedUser req = None"

lemma no_token:
  assumes "authorizationOf req = Some a" and "svAuth s = Some auth" and "Middleware (svCodec s) (nowSeconds s) auth a = Inl text0"
  shows "route req s = (\<lparr>rsStatus = 401, rsBody = Plain text0\<rparr>, s)"
  using assms by (cases req) (simp_all add: secured_def reply_def)

lemma RequireOwner_other: "u \<noteq> [] \<Longrightarrow> v \<noteq> [] \<Longrightarrow> v \<noteq> u \<Longrightarrow> RequireOwner (Some u) v = Inl (New ''resource belongs to another user'')"
  by (simp add: RequireOwner_def UserID_def)

lemma other_user:
  assumes "namedUser req = Some v" and "authorizationOf req = Some a" and "svAuth s = Some auth" and "svTrading s = Some q"
    and "Middleware (svCodec s) (nowSeconds s) auth a = Inr (Some u)" and "u \<noteq> []" and "v \<noteq> []" and "v \<noteq> u"
  shows "route req s = (\<lparr>rsStatus = 403, rsBody = ErrorText (New ''resource belongs to another user'')\<rparr>, s)"
proof -
  note other = RequireOwner_other [OF assms(6-8)]
  show ?thesis
  proof (cases req)
    case (PostOrder b x y r)
    then obtain r0 where "r = Some r0" "doUserID r0 = v" using assms(1) by (cases r) auto
    then show ?thesis using PostOrder assms(2-5) other by (simp add: secured_def durableOrderHandler_def Let_def reply_def)
  next
    case (PostDeposit b r)
    then obtain cents where "r = Some (v, cents)" using assms(1) by (cases r) auto
    then show ?thesis using PostDeposit assms(2-5) other by (simp add: secured_def depositHandler_def reply_def)
  qed (use assms other in \<open>auto simp: secured_def cancelOrderHandler_def balanceHandler_def positionHandler_def reply_def\<close>)
qed

end
