(* ===== verification/Startup.thy ===== *)
theory Startup
  imports Engine_Recovery Exchange_Durability Http_Safety
begin

text \<open>
  The start of the API server (server.go, \<^verbatim>\<open>NewServer\<close>): the environment, the engines, the schema,
  the accounts, the durable state and the recovery of the engines, each of which may make the start
  panic; then the periodic checkpoint and what runs at shutdown. The theory proves what a server started
  on the files and tables of an earlier run is.
\<close>

section \<open>The environment\<close>

text \<open>\<^verbatim>\<open>os.Getenv\<close> gives the empty string for a variable that is not set.\<close>

definition envOr :: "(string \<Rightarrow> string) \<Rightarrow> string \<Rightarrow> string \<Rightarrow> string" where
  "envOr env key fallback = (if env key \<noteq> [] then env key else fallback)"

text \<open>\<^verbatim>\<open>strconv.Atoi\<close>: an optional sign and decimal digits, within 64 bits.\<close>

definition digitOf :: "char \<Rightarrow> int" where
  "digitOf ch = of_char ch - 48"

definition Atoi :: "string \<Rightarrow> int option" where
  "Atoi s =
    (let neg = (s \<noteq> [] \<and> hd s = CHR ''-'');
         ds = (if s \<noteq> [] \<and> (hd s = CHR ''-'' \<or> hd s = CHR ''+'') then tl s else s);
         v = fold (\<lambda>ch n. 10 * n + digitOf ch) ds 0;
         n = (if neg then - v else v)
     in if ds = [] \<or> list_ex (\<lambda>ch. digitOf ch < 0 \<or> digitOf ch > 9) ds \<or> \<not> in_i64 n then None else Some n)"

definition batchSize :: "(string \<Rightarrow> string) \<Rightarrow> goerror + int" where
  "batchSize env =
    (let configured = env ''ORDER_BATCH_SIZE'';
         refused = Inl (New ''ORDER_BATCH_SIZE must be between 1 and 32'')
     in if configured = [] then Inr 32
        else case Atoi configured of
               None \<Rightarrow> refused
             | Some n \<Rightarrow> (if n < 1 \<or> n > 32 then refused else Inr n))"

section \<open>The start\<close>

text \<open>
  What the process finds: its environment, the engines behind their addresses, the files, the tables
  (those of \<^verbatim>\<open>users\<close> apart) and the code outside the program. The \<open>visit\<close> functions are the orders in
  which the loops over the maps of markets and orders run; \<open>timeout\<close> is the error of the context
  of the recovery when it has ended.
\<close>

record world =
  environ :: "string \<Rightarrow> string"
  engines :: "string \<Rightarrow> goerror + Exchange"
  network :: network
  storage :: disk
  database :: tables
  accounts :: "(string, userRow) fmap"
  cache :: redis
  uuids :: "nat \<Rightarrow> string"
  requestUUIDs :: "nat \<Rightarrow> string"
  lineLen :: "walLine \<Rightarrow> nat"
  eventHash :: "walLine \<Rightarrow> string"
  tokens :: codec
  clock :: int
  redisNet :: "Delivery list"
  pace :: nat
  visitMarkets :: "string fset \<Rightarrow> string list"
  visitOrders :: "string fset \<Rightarrow> string list"
  visitQuotes :: "string fset \<Rightarrow> string list"
  timeout :: "goerror option"

text \<open>
  \<^verbatim>\<open>Migrate\<close> runs its 17 statements one by one. On tables that have the current columns and keys each
  of them has no effect besides creating what is not there.
\<close>

fun execEach :: "nat \<Rightarrow> tables \<Rightarrow> goerror option \<times> tables" where
  "execEach 0 db = (None, db)"
| "execEach (Suc n) db =
    (case dbTry db of
       (Some e, db') \<Rightarrow> (Some (Wrap ''migrate'' e), db')
     | (None, db') \<Rightarrow> execEach n db')"

definition Migrate :: "tables \<Rightarrow> goerror option \<times> tables" where
  "Migrate db = execEach 17 db"

definition serverConfig :: "world \<Rightarrow> int \<Rightarrow> (router, tables) Config" where
  "serverConfig w limit =
    \<lparr>WALPath = ''data/orders.wal'', SnapshotPath = ''data/orderbook.snapshot'', EngineOf = Some (routedTrading (network w)),
     ProjectorOf = Some pgProjector, SyncWAL = True, OrderBatchSize = limit,
     DisableEngineBatch = (envOr (environ w) ''ENGINE_RPC_BATCH'' ''true'' = ''false''), PublishQuotes = True,
     newUUID = uuids w, recordLen = lineLen w\<rparr>"

definition newRouter :: "world \<Rightarrow> goerror + router" where
  "newRouter w = NewRouter (engines w) (envOr (environ w) ''ENGINE_ADDRS'' (envOr (environ w) ''ENGINE_ADDR'' ''localhost:50051''))"

definition recoverEngines :: "world \<Rightarrow> (router, tables) Service \<Rightarrow> (router, tables) outcome" where
  "recoverEngines w s =
    RecoverEngine (timeout w) (visitMarkets w (fmdom (markets s))) (visitOrders w (fmdom (orders s)))
      (visitQuotes w (fmdom (markets s))) s"

text \<open>The server without its trading service, which joins when the recovery is done.\<close>

definition apiServer :: "world \<Rightarrow> router \<Rightarrow> AuthService \<Rightarrow> tables Server" where
  "apiServer w cs auth =
    \<lparr>svDatabase = Some None, svEngine = Some cs, svTrading = None, svHub = NewHub, svQuotes = Some (cache w),
     svAuth = Some auth, svMetrics = Some NewRegistry, svCodec = tokens w, svNet = network w, svUUID = requestUUIDs w,
     svNow = clock w, svRedisNet = redisNet w, svClients = 0, svElapsed = pace w\<rparr>"

text \<open>\<open>Inl\<close> is a panic with its text. The quotes of the recovery are published as those of requests are.\<close>

definition NewServer :: "world \<Rightarrow> goerror + tables Server" where
  "NewServer w =
    (case newRouter w of
       Inl e \<Rightarrow> Inl (Wrap ''initialize engine routing'' e)
     | Inr cs \<Rightarrow>
        (case Migrate (database w) of
           (Some e, db) \<Rightarrow> Inl (Wrap ''migrate database'' e)
         | (None, db) \<Rightarrow>
            (case NewAuth (accounts w) (envOr (environ w) ''JWT_SECRET'' ''development-secret-change-me'') of
               Inl e \<Rightarrow> Inl (Wrap ''initialize authentication'' e)
             | Inr auth \<Rightarrow>
                (case batchSize (environ w) of
                   Inl e \<Rightarrow> Inl e
                 | Inr limit \<Rightarrow>
                    (case NewWithConfig (eventHash w) (serverConfig w limit) (storage w) cs db of
                       Inl e \<Rightarrow> Inl (Wrap ''initialize durable state'' e)
                     | Inr s \<Rightarrow>
                        (case recoverEngines w s of
                           (Some e, _) \<Rightarrow> Inl (Wrap ''recover matching engine state'' e)
                         | (None, t) \<Rightarrow> Inr (putTrading (newQueue s) (newQueue t) (apiServer w cs auth))))))))"

section \<open>The ticker and the shutdown\<close>

definition tick :: "'p Server \<Rightarrow> 'p Server" where
  "tick s =
    (case svTrading s of
       None \<Rightarrow> s
     | Some q \<Rightarrow>
        (case Snapshot (qService q) of (r, t) \<Rightarrow>
           (let s1 = s\<lparr>svTrading := Some (q\<lparr>qService := t\<rparr>)\<rparr>
            in if r = None then s1\<lparr>svMetrics := map_option SnapshotTaken (svMetrics s1)\<rparr> else s1)))"

text \<open>A last checkpoint, whose error is only logged, and the end of the worker and the log.\<close>

definition shutdown :: "('e, 'p) queue \<Rightarrow> ('e, 'p) queue option" where
  "shutdown q =
    (let q1 = q\<lparr>qService := snd (Snapshot (qService q))\<rparr>
     in case Close q1 of None \<Rightarrow> None | Some (_, q2) \<Rightarrow> Some q2)"

section \<open>What starts\<close>

lemma splitComma_nonempty [simp]: "splitComma s \<noteq> []"
  by (induction s) (auto split: list.split)

lemma connectAll_fresh:
  assumes "connectAll connect seen as = Inr cs" and "\<And>a x. connect a = Inr x \<Longrightarrow> x = emptyExchange"
  shows "cs = freshRouter (length as)"
  using assms(1)
proof (induction "as" arbitrary: seen cs)
  case (Cons a "as")
  then obtain c ds where c: "NewClient connect (TrimSpace a) = Inr c" "connectAll connect (TrimSpace a # seen) as = Inr ds" "cs = c # ds"
    by (cases "connectAll connect (TrimSpace a # seen) as") (auto simp: Let_def split: if_splits sum.splits)
  have "c = \<lparr>peer = emptyExchange, calls = 0\<rparr>" using c(1) assms(2) by (auto simp: NewClient_def split: if_splits sum.splits)
  then show ?case using Cons.IH [OF c(2)] c(3) by (simp add: freshRouter_def)
qed (simp add: freshRouter_def)

lemma newRouter_fresh:
  assumes "newRouter w = Inr cs" and "\<And>a x. engines w a = Inr x \<Longrightarrow> x = emptyExchange"
  obtains n where "0 < n" "n \<le> 2" "cs = freshRouter n"
proof -
  let ?parts = "splitComma (envOr (environ w) ''ENGINE_ADDRS'' (envOr (environ w) ''ENGINE_ADDR'' ''localhost:50051''))"
  have "length ?parts \<le> 2 \<and> connectAll (engines w) [] ?parts = Inr cs"
    using assms(1) by (auto simp: newRouter_def NewRouter_def Let_def split: if_splits)
  then show thesis using that [of "length ?parts"] connectAll_fresh [of "engines w" "[]" ?parts cs] assms(2) by auto
qed

lemma Migrate_calm: "dbScript db = [] \<Longrightarrow> Migrate db = (None, db)"
proof -
  have "execEach n db = (None, db)" if "dbScript db = []" for n
    using that by (induction n) (simp_all add: dbTry_def dbCall_def)
  then show "dbScript db = [] \<Longrightarrow> Migrate db = (None, db)" by (simp add: Migrate_def)
qed

lemma batchSize_range: "batchSize env = Inr n \<Longrightarrow> 1 \<le> n \<and> n \<le> 32"
  by (auto simp: batchSize_def Let_def split: if_splits option.splits)

section \<open>A restart\<close>

text \<open>
  The durable state a server finds after any run of an earlier one, whatever the limits of the two are.
\<close>

lemma durable_restart:
  assumes "files.good c ph s" and "failure s = None" and "uuidCount s < 2 ^ 64" and "lineLen w = recordLen c"
    and "storage w = (disk s)\<lparr>ioScript := []\<rparr>" and "1 \<le> limit" "limit \<le> 32"
    and "projectorOk (serverConfig w limit) db (loggedEvents (disk s))"
  obtains t where "NewWithConfig h (serverConfig w limit) (storage w) cs db = Inr t" "ledger.truncate t = ledger.truncate s"
    "failure t = None" "cfg t = serverConfig w limit" "engineState t = cs"
proof -
  have d: "durable s" "cfg s = c" using assms(1-3) by (simp_all add: files.good_def loggedTo_def phaseOk_def)
  have "goodFiles (lineLen w) (disk s)" using whole_good(2) d assms(4) by (simp add: durable_def)
  then have "goodFiles (recordLen (serverConfig w limit)) (storage w)" using assms(5) by (simp add: goodFiles_def serverConfig_def)
  then obtain t where "NewWithConfig h (serverConfig w limit) (storage w) cs db = Inr t" "ledger.truncate t = diskLedger (storage w)"
      "failure t = None" "cfg t = serverConfig w limit" "engineState t = cs"
    using NewWithConfig_ok [of "serverConfig w limit" "storage w" db h cs] assms(5-8) by (auto simp: serverConfig_def)
  moreover have "diskLedger (storage w) = ledger.truncate s" using d(1) assms(5) by (simp add: durable_def)
  ultimately show thesis using that by simp
qed

lemma truncate_parts:
  assumes "ledger.truncate t = ledger.truncate s"
  shows "funded D t = funded D s" "marketsOk t = marketsOk s" "liveInOpen t = liveInOpen s"
proof -
  have "book t = book s" using assms by (simp add: ledger.truncate_def book_eq_iff)
  then show "funded D t = funded D s" "marketsOk t = marketsOk s" "liveInOpen t = liveInOpen s"
    using funded_eq_book [of t s D] by (simp_all add: book_eq_iff marketsOk_def liveInOpen_def)
qed

lemma recoverEngines_sound:
  assumes "recoverEngines w s = (None, t)" and "cfg s = serverConfig w limit" and "engineState s = freshRouter n" and "0 < n"
    and "budget (network w)" and "funded D s" and "marketsOk s" and "liveInOpen s"
    and "\<And>A. distinct (visitOrders w A) \<and> set (visitOrders w A) = fset A"
  shows "queueOk (routedTrading (network w)) routerBook (healthyRouter (network w)) D (newQueue t)"
proof -
  note fresh = fresh_router [OF assms(5,4) freshRouter_def]
  have e: "EngineOf (cfg s) = Some (routedTrading (network w))" using assms(2) by (simp add: serverConfig_def)
  have h: "healthyRouter (network w) (engineState s)" "\<And>symbol. routerBook (engineState s) symbol = fmempty"
    using fresh assms(3) by simp_all
  have "sound (routedTrading (network w)) routerBook (healthyRouter (network w)) D t"
    using routed.RecoverEngine_result [OF assms(1) [unfolded recoverEngines_def] e assms(6-8) h] assms(9) by (simp add: fmdom'_alt_def)
  then show ?thesis by (simp add: queueOk_def newQueue_def)
qed

lemma server_restart:
  assumes "files.good c ph (qService q)" and "queueOk (routedTrading net) routerBook (healthyRouter net) D q"
    and "failure (qService q) = None" and "uuidCount (qService q) < 2 ^ 64" and "lineLen w = recordLen c"
    and "storage w = (disk (qService q))\<lparr>ioScript := []\<rparr>" and "dbScript (database w) = []"
    and "\<And>c'. ProjectorOf (c' :: (router, tables) Config) = Some pgProjector \<Longrightarrow> projectorOk c' (database w) (loggedEvents (disk (qService q)))"
    and "budget (network w)" and "\<And>a x. engines w a = Inr x \<Longrightarrow> x = emptyExchange"
    and "\<And>A. distinct (visitOrders w A) \<and> set (visitOrders w A) = fset A"
    and "newRouter w = Inr cs" and "batchSize (environ w) = Inr limit"
    and "NewAuth (accounts w) (envOr (environ w) ''JWT_SECRET'' ''development-secret-change-me'') = Inr auth"
  shows "case NewServer w of
      Inl e \<Rightarrow> \<exists>e'. e = Wrap ''recover matching engine state'' e'
    | Inr sv \<Rightarrow> svNet sv = network w \<and> (\<exists>q'. svTrading sv = Some q' \<and>
        queueOk (routedTrading (network w)) routerBook (healthyRouter (network w)) D q')"
proof -
  obtain n where n: "0 < n" "cs = freshRouter n" by (rule newRouter_fresh [OF assms(12,10)])
  have pr: "ProjectorOf (serverConfig w limit) = Some pgProjector" by (simp add: serverConfig_def)
  note size = batchSize_range [OF assms(13)]
  obtain s where s: "NewWithConfig (eventHash w) (serverConfig w limit) (storage w) cs (database w) = Inr s"
      "ledger.truncate s = ledger.truncate (qService q)" "failure s = None" "cfg s = serverConfig w limit" "engineState s = cs"
    using durable_restart [OF assms(1,3-6) _ _ assms(8) [OF pr]] size by blast
  have ok: "funded D s" "marketsOk s" "liveInOpen s"
    using assms(2) truncate_parts [OF s(2)] by (simp_all add: queueOk_def sound_def wellFormed_def)
  obtain r t where r: "recoverEngines w s = (r, t)" by (rule prod.exhaust)
  have start: "NewServer w = (case r of Some e \<Rightarrow> Inl (Wrap ''recover matching engine state'' e)
      | None \<Rightarrow> Inr (putTrading (newQueue s) (newQueue t) (apiServer w cs auth)))"
    using assms(12-14) Migrate_calm [OF assms(7)] s(1) r by (simp add: NewServer_def split: option.split)
  show ?thesis
  proof (cases r)
    case None
    have "queueOk (routedTrading (network w)) routerBook (healthyRouter (network w)) D (newQueue t)"
      using recoverEngines_sound [OF r [unfolded None] s(4) _ n(1) assms(9) ok assms(11)] s(5) n(2) by simp
    then show ?thesis using start None by (simp add: apiServer_def)
  qed (use start in simp)
qed

section \<open>Checkpoints of the ticker and the shutdown\<close>

text \<open>A whole checkpoint is three steps of the exchange, so a tick at any moment keeps its invariant.\<close>

lemma Snapshot_run:
  assumes "Snapshot (qService q) = (r, s)"
  shows "exchange_step\<^sup>*\<^sup>* (q, D) (q\<lparr>qService := s\<rparr>, D)"
proof -
  obtain x s1 where f: "freezeCheckpoint (qService q) = (x, s1)" by (rule prod.exhaust)
  let ?q1 = "q\<lparr>qService := s1\<rparr>"
  have 1: "exchange_step (q, D) (?q1, D)" by (rule exchange_step.freeze_state [OF f])
  show ?thesis
  proof (cases x)
    case (Inl e)
    then show ?thesis using 1 f assms by (auto simp: Snapshot_def checkpoint_def)
  next
    case (Inr sn)
    obtain r2 s2 where w: "writeSnapshot sn s1 = (r2, s2)" by (rule prod.exhaust)
    have 2: "exchange_step (?q1, D) (q\<lparr>qService := s2\<rparr>, D)" using exchange_step.write_snapshot [of sn ?q1 r2 s2 D] w by simp
    show ?thesis
    proof (cases r2)
      case (Some e)
      then show ?thesis using 1 2 f w Inr assms by (auto simp: Snapshot_def checkpoint_def)
    next
      case None
      then have d: "dropPrevious s2 = (r, s)" using f w Inr assms by (simp add: Snapshot_def checkpoint_def)
      have "exchange_step (q\<lparr>qService := s2\<rparr>, D) (q\<lparr>qService := s\<rparr>, D)"
        using exchange_step.drop_segment [of "q\<lparr>qService := s2\<rparr>" r s D] d by simp
      then show ?thesis using 1 2 by (meson converse_rtranclp_into_rtranclp r_into_rtranclp)
    qed
  qed
qed

lemma tick_run:
  assumes "svTrading s = Some q"
  obtains q' where "svTrading (tick s) = Some q'" "exchange_step\<^sup>*\<^sup>* (q, D) (q', D)"
proof -
  obtain r t where t: "Snapshot (qService q) = (r, t)" by (rule prod.exhaust)
  have "svTrading (tick s) = Some (q\<lparr>qService := t\<rparr>)" using assms t by (simp add: tick_def Let_def)
  then show thesis using that Snapshot_run [OF t] by blast
qed

lemma Snapshot_cfg:
  assumes "Snapshot s = (r, t)"
  shows "cfg t = cfg s"
proof -
  obtain x s1 where f: "freezeCheckpoint s = (x, s1)" by (rule prod.exhaust)
  have c1: "cfg s1 = cfg s" using freeze_keeps(1) [OF f] by (simp add: keeps_def)
  show ?thesis
  proof (cases x)
    case (Inr sn)
    obtain r2 s2 where w: "writeSnapshot sn s1 = (r2, s2)" by (rule prod.exhaust)
    have "cfg s2 = cfg s1" using writeSnapshot_keeps(1) [OF w] by (simp add: keeps_def)
    moreover have "cfg t = cfg s2 \<or> t = s2"
      using assms f w Inr dropPrevious_keeps(1) [of s2 r t] by (cases r2) (auto simp: Snapshot_def checkpoint_def keeps_def)
    ultimately show ?thesis using c1 by auto
  qed (use assms f c1 in \<open>auto simp: Snapshot_def checkpoint_def\<close>)
qed

text \<open>A shutdown ends, with every waiting placement answered.\<close>

lemma shutdown_ends:
  assumes "0 < OrderBatchSize (cfg (qService q))"
  shows "\<exists>q'. shutdown q = Some q' \<and> qPending q' = [] \<and> \<not> qRunning q' \<and>
    map fst (qDone q') = map fst (qDone q) @ map fst (qPending q)"
proof -
  obtain r t where t: "Snapshot (qService q) = (r, t)" by (rule prod.exhaust)
  let ?q = "q\<lparr>qService := t, qClosed := True\<rparr>"
  have "cfg t = cfg (qService q)" using Snapshot_cfg [OF t] .
  then have "0 < OrderBatchSize (cfg (qService ?q))" using assms by simp
  from drainOrders_result [OF this] show ?thesis using t by (auto simp: shutdown_def Close_def Let_def split: prod.split)
qed

end
