(* ===== verification/Acknowledgements.thy ===== *)
theory Acknowledgements
  imports Http_Safety
begin

text \<open>
  What an acknowledgement means: an order answered without an error - alone, in a batch, through the
  queue, as an alias of an equal order of its batch or as the repetition of an older one, or with 201 by
  the API - is an order of the ledger under its ID, with the user, market, side, price and quantity
  that were asked for. It keeps them in every later state.
\<close>

section \<open>Recorded orders\<close>

lemma sameParams_rel: "sameParams a b \<Longrightarrow> sameParams b a" "sameParams a b \<Longrightarrow> sameParams b c \<Longrightarrow> sameParams a c"
  by (simp_all add: sameParams_def)

interpretation names: recorded_state named named
proof
  fix s t :: "('a, 'b) Service"
  assume "same_ledger s t" "named s"
  then show "named t" by (rule named_same)
next
  fix s t :: "('a, 'b) Service"
  assume "book t = book s" "named s"
  then show "named t" using named_book by blast
qed (rule commit_named, simp_all)

lemma kept_iff: "kept.good od s \<longleftrightarrow> named s \<and> recordedAs od s" "names.good s \<longleftrightarrow> named s"
  by (auto simp: kept.good_def names.good_def)

lemma commit_new:
  assumes "commitMany es s = (None, t)" and "fits_terms T s" and "list_all (plainEvent T) es" and "e \<in> set es" and "eType e = EventOrder"
    and "oID (eOrder e) = oID od" and "sameParams (eOrder e) od"
  shows "recordedAs od t"
proof -
  have "orders t = orders (apply_all es (book s))" using commitMany_ok(3) [OF assms(1)] by (simp add: book_eq_iff)
  then obtain y where y: "fmlookup (orders t) (oID od) = Some y" using apply_all_orders [of "book s" "oID od" es] assms(4-6) by auto
  have "orderTerms y = T (oID od)" using commit_fits [OF assms(1-3)] y unfolding fits_terms_def by blast
  moreover have "orderTerms (eOrder e) = T (oID od)" using assms(3-6) unfolding list_all_iff plainEvent_def by metis
  ultimately have "sameParams y od" using assms(7) terms_params [of y "eOrder e" od] by simp
  then show ?thesis using y by (auto simp: recordedAs_def)
qed

section \<open>A single order\<close>

lemma prepareOrder_repeat: "prepareOrder s od = Inr [] \<Longrightarrow> recordedAs od s"
  by (auto simp: prepareOrder_def reservationEvents_def recordedAs_def Let_def split: if_splits option.splits sum.splits prod.splits)

lemma placeSingle_recorded:
  assumes "placeSingle ctxErr od s = (None, t)" and "named s"
  shows "recordedAs od t"
proof (cases "\<exists>first rest. prepareOrder s od = Inr (first # rest) \<and> ctxErr = None \<and> failure s = None")
  case False
  then show ?thesis
    using assms prepareOrder_repeat [of s od] by (auto simp: placeSingle_def split: option.splits sum.splits list.splits)
next
  case True
  then obtain first rest where p: "prepareOrder s od = Inr (first # rest)" "ctxErr = None" "failure s = None" by blast
  note e = prepared_event [OF p(1)] and fit = prepared_fits [OF p(1)]
  obtain r1 u where u: "commitMany (first # rest) s = (r1, u)" by (rule prod.exhaust)
  have "r1 = None" using assms(1) p u by (cases r1) (auto simp: placeSingle_def)
  then have ok: "commitMany (first # rest) s = (None, u)" using u by simp
  have "recordedAs od u" using commit_new [OF ok fit _ e(1,2) sameParams_rel(1) [OF e(4)]] by simp
  then have gu: "kept.good od u" using commit_named [OF ok fit(2) assms(2)] by (simp add: kept_iff)
  have "submitSingle (eOrder first) (fmget Market0 (markets s) (oMarketID (eOrder first))) u = (None, t)"
    using assms p ok by (simp add: placeSingle_def)
  then have "kept.good od t"
    using kept.submitSingle_good [OF _ gu commitMany_ok(2) [OF ok] commit_fits [OF ok fit] e(3)] e(2) by simp
  then show ?thesis by (simp add: kept_iff)
qed

section \<open>A batch\<close>

text \<open>
  What the admission says of the first \<open>k\<close> placements: an admitted one has its event, an alias points
  to an admitted one with its ID, and any other without an error repeats an order of the ledger.
\<close>

abbreviation idAt :: "placement list \<Rightarrow> nat \<Rightarrow> string" where
  "idAt requests i \<equiv> oID (plOrder (requests ! i))"

definition eventOf :: "Order \<Rightarrow> Event \<Rightarrow> bool" where
  "eventOf od e \<longleftrightarrow> eType e = EventOrder \<and> oID (eOrder e) = oID od \<and> sameParams (eOrder e) od"

definition accounted :: "'a ledger_scheme \<Rightarrow> placement list \<Rightarrow> nat \<Rightarrow> admission \<Rightarrow> bool" where
  "accounted s requests k a \<longleftrightarrow> length (aOutcomes a) = length requests \<and>
     (\<forall>i\<in>set (aAdmitted a). i < k \<and> (\<exists>e\<in>set (aInitial a). eventOf (plOrder (requests ! i)) e)) \<and>
     (\<forall>x i. fmlookup (aByID a) x = Some i \<longrightarrow> i \<in> set (aAdmitted a) \<and> idAt requests i = x) \<and>
     (\<forall>i j. fmlookup (aAliases a) i = Some j \<longrightarrow> i < k \<and> i \<notin> set (aAdmitted a) \<and> j \<in> set (aAdmitted a) \<and>
        idAt requests j = idAt requests i \<and> sameParams (plOrder (requests ! j)) (plOrder (requests ! i))) \<and>
     (\<forall>i<k. i \<notin> set (aAdmitted a) \<longrightarrow> fmlookup (aAliases a) i = None \<longrightarrow> aOutcomes a ! i = None \<longrightarrow>
        recordedAs (plOrder (requests ! i)) s)"

lemma accounted_event:
  assumes "accounted s requests k a" and "i \<in> set (aAdmitted a)"
  obtains e where "e \<in> set (aInitial a)" "eventOf (plOrder (requests ! i)) e"
  using assms by (auto simp: accounted_def)

lemma accounted_alias:
  assumes "accounted s requests k a" and "fmlookup (aAliases a) i = Some j"
  shows "j \<in> set (aAdmitted a)" and "recordedAs (plOrder (requests ! j)) t \<Longrightarrow> recordedAs (plOrder (requests ! i)) t"
proof -
  have *: "j \<in> set (aAdmitted a)" "idAt requests j = idAt requests i" "sameParams (plOrder (requests ! j)) (plOrder (requests ! i))"
    using assms by (simp_all add: accounted_def)
  then show "j \<in> set (aAdmitted a)" by simp
  show "recordedAs (plOrder (requests ! j)) t \<Longrightarrow> recordedAs (plOrder (requests ! i)) t"
    using * sameParams_rel(2) by (auto simp: recordedAs_def)
qed

lemma accounted_repeat:
  "accounted s requests k a \<Longrightarrow> i < k \<Longrightarrow> i \<notin> set (aAdmitted a) \<Longrightarrow> fmlookup (aAliases a) i = None \<Longrightarrow> aOutcomes a ! i = None \<Longrightarrow>
    recordedAs (plOrder (requests ! i)) s"
  by (simp add: accounted_def)

lemma accounted_refused:
  assumes "accounted s requests k a" and "k < length requests" and "r = None \<Longrightarrow> recordedAs (plOrder (requests ! k)) s"
  shows "accounted s requests (Suc k) (setOutcome k r a)"
proof -
  have "aOutcomes (setOutcome k r a) ! i = (if i = k then r else aOutcomes a ! i)" for i
    using assms(1,2) by (simp add: accounted_def setOutcome_def nth_list_update)
  then show ?thesis
    using assms unfolding accounted_def by (auto simp: setOutcome_def less_Suc_eq)
qed

lemma accounted_admit:
  assumes "accounted s requests k a" and "prepareOrder s (plOrder (requests ! k)) = Inr (first # rest)"
  shows "accounted s requests (Suc k) (admit s k (plOrder (requests ! k)) first rest c sh a)"
proof -
  have "eventOf (plOrder (requests ! k)) (first\<lparr>eOrder := (eOrder first)\<lparr>oSequence := n\<rparr>\<rparr>)" for n
    using prepared_event(1,2,4) [OF assms(2)] by (simp add: eventOf_def sameParams_def)
  then show ?thesis using assms(1) unfolding accounted_def by (auto simp: admit_def less_Suc_eq)
qed

lemma accounted_step:
  assumes "accounted s requests k a" and "k < length requests"
  shows "accounted s requests (Suc k) (admitOne s requests k a)"
proof -
  let ?od = "plOrder (requests ! k)"
  note refuse = accounted_refused [OF assms]
  show ?thesis
  proof (cases "plCtx (requests ! k)")
    case (Some e)
    then show ?thesis using refuse [of "Some e"] by (simp add: admitOne_def Let_def)
  next
    case ctx: None
    show ?thesis
    proof (cases "fmlookup (aByID a) (oID ?od)")
      case (Some orig)
      have "accounted s requests (Suc k) (a\<lparr>aAliases := fmupd k orig (aAliases a)\<rparr>)" if "sameParams (plOrder (requests ! orig)) ?od"
        using that assms Some unfolding accounted_def by (auto simp: less_Suc_eq)
      then show ?thesis using refuse [of "Some _"] Some ctx by (simp add: admitOne_def Let_def)
    next
      case new: None
      show ?thesis
      proof (cases "prepareOrder s ?od")
        case (Inl e)
        then show ?thesis using refuse [of "Some e"] ctx new by (simp add: admitOne_def Let_def)
      next
        case (Inr es)
        show ?thesis
        proof (cases es)
          case Nil
          then show ?thesis using refuse [of None] prepareOrder_repeat [of s ?od] Inr ctx new by (simp add: admitOne_def Let_def)
        next
          case (Cons first rest)
          note adm = accounted_admit [OF assms(1) Inr [unfolded Cons]]
          show ?thesis using ctx new Inr Cons refuse [of "Some _"] adm by (simp add: admitOne_def Let_def)
        qed
      qed
    qed
  qed
qed

lemma admitAll_accounted: "accounted s requests (length requests) (admitAll s requests)"
proof -
  have "accounted s requests k (fold (admitOne s requests) [0..<k] (admission0 (length requests)))" if "k \<le> length requests" for k
    using that
  proof (induction k)
    case (Suc k)
    then show ?case using accounted_step [of s requests k] by simp
  qed (simp add: accounted_def admission0_def)
  then show ?thesis by (simp add: admitAll_def)
qed

text \<open>The outcomes after the batch.\<close>

lemma fold_update_all: "k < length os \<Longrightarrow> fold (\<lambda>i os. os[i := r]) xs os ! k = (if k \<in> set xs then r else os ! k)"
  by (induction xs arbitrary: os) (auto simp: nth_list_update)

lemma fold_update_alias:
  assumes "k < length os" and "\<forall>i\<in>set xs. f i \<notin> set xs"
  shows "fold (\<lambda>i os. os[i := os ! f i]) xs os ! k = (if k \<in> set xs then os ! f k else os ! k)"
  using assms
proof (induction xs arbitrary: os)
  case (Cons x xs)
  then have "os[x := os ! f x] ! f i = os ! f i" if "i \<in> set (x # xs)" for i using that by (intro nth_list_update_neq) auto
  then show ?case using Cons.IH [of "os[x := os ! f x]"] Cons.prems by (auto simp: nth_list_update)
qed simp

lemma settle_value:
  assumes "accounted s requests (length requests) a" and "i < length requests"
  shows "settleOutcomes r a ! i = (if fmlookup (aAliases a) i \<noteq> None \<or> i \<in> set (aAdmitted a) then r else aOutcomes a ! i)"
proof -
  let ?xs = "sorted_list_of_fset (fmdom (aAliases a))" and ?os = "fold (\<lambda>i os. os[i := r]) (aAdmitted a) (aOutcomes a)"
  have len: "length ?os = length requests" using assms(1) fold_length [of "\<lambda>x. x" "\<lambda>i os. os[i := r]"] by (simp add: accounted_def)
  have os: "?os ! j = (if j \<in> set (aAdmitted a) then r else aOutcomes a ! j)" if "j < length requests" for j
    using fold_update_all [of j "aOutcomes a"] that assms(1) by (simp add: accounted_def)
  have al: "j \<notin> set (aAdmitted a) \<and> fmget 0 (aAliases a) j \<in> set (aAdmitted a)" if "j |\<in>| fmdom (aAliases a)" for j
    using that assms(1) by (auto simp: accounted_def fmlookup_dom_iff fmget_def)
  have dom: "set ?xs = fset (fmdom (aAliases a))" by simp
  have "\<forall>j\<in>set ?xs. fmget 0 (aAliases a) j \<notin> set ?xs" using al dom by blast
  note v = fold_update_alias [OF _ this, of i ?os]
  have lt: "j < length requests" if "j \<in> set (aAdmitted a)" for j using that assms(1) by (auto simp: accounted_def)
  show ?thesis
  proof (cases "i |\<in>| fmdom (aAliases a)")
    case True
    then have "?os ! fmget 0 (aAliases a) i = r" using al os lt by simp
    then show ?thesis using v assms(2) len True by (simp add: settleOutcomes_def fmlookup_dom_iff)
  next
    case False
    then show ?thesis using v assms(2) len os by (simp add: settleOutcomes_def fmdom_notD)
  qed
qed

lemma batch_new:
  assumes "commitMany (aInitial (admitAll s requests)) s = (None, u)" and "i \<in> set (aAdmitted (admitAll s requests))"
  shows "recordedAs (plOrder (requests ! i)) u"
proof -
  obtain e where e: "e \<in> set (aInitial (admitAll s requests))" "eventOf (plOrder (requests ! i)) e"
    by (rule accounted_event [OF admitAll_accounted assms(2)])
  obtain T where T: "fits_terms T s" "list_all (plainEvent T) (aInitial (admitAll s requests))"
    using admitAll_plain [of s requests] by (auto simp: admissionPlain_def)
  show ?thesis using commit_new [OF assms(1) T e(1)] e(2) by (simp add: eventOf_def)
qed

lemma placeBatch_recorded:
  assumes "placeBatchWithQuotes requests s = ((os, qs), t)" and "named s" and "j < length requests" and "os ! j = None"
  shows "recordedAs (plOrder (requests ! j)) t"
proof -
  let ?a = "admitAll s requests" and ?ids = "map (\<lambda>i. idAt requests i) (aAdmitted (admitAll s requests))"
  have acc: "accounted s requests (length requests) ?a" by (rule admitAll_accounted)
  note settled = settle_value [OF acc assms(3)] and repeated = accounted_repeat [OF acc assms(3)]
  have old: "recordedAs od s \<Longrightarrow> recordedAs od t" for od using kept.placeBatch_good [OF assms(1), of od] assms(2) by (simp add: kept_iff)
  obtain r1 u where u: "commitMany (aInitial ?a) s = (r1, u)" by (rule prod.exhaust)
  obtain r2 qs2 v where v: "completeBatch ?ids u = ((r2, qs2), v)" by (metis prod.exhaust)
  consider (latched) e where "failure s = Some e" | (empty) "failure s = None" "aAdmitted ?a = []"
    | (failed) e where "failure s = None" "aAdmitted ?a \<noteq> []" "r1 = Some e"
    | (submitted) "failure s = None" "aAdmitted ?a \<noteq> []" "r1 = None"
    by (cases "failure s"; cases r1; cases "aAdmitted ?a") auto
  then show ?thesis
  proof cases
    case latched
    then show ?thesis using assms by (auto simp: placeBatchWithQuotes_def)
  next
    case empty
    then have "os = aOutcomes ?a" using assms(1) by (auto simp: placeBatchWithQuotes_def Let_def)
    moreover have "fmlookup (aAliases ?a) j = None" using accounted_alias(1) [OF acc, of j] empty(2) by (cases "fmlookup (aAliases ?a) j") auto
    ultimately show ?thesis using repeated old empty(2) assms(4) by auto
  next
    case failed
    then have "os = settleOutcomes (Some e) ?a" using assms(1) u by (auto simp: placeBatchWithQuotes_def Let_def)
    then show ?thesis using settled [of "Some e"] repeated old assms(4) by (auto split: if_splits)
  next
    case submitted
    then have t: "os = settleOutcomes r2 ?a" "t = v" using assms(1) u v by (auto simp: placeBatchWithQuotes_def Let_def)
    have ok: "commitMany (aInitial ?a) s = (None, u)" using u submitted(3) by simp
    have nu: "named u" using admitAll_plain [of s requests] commit_named [OF ok _ assms(2)] by (auto simp: admissionPlain_def)
    have "fmlookup (orders u) k \<noteq> None" if "k \<in> set ?ids" for k
      using that batch_new [OF ok] by (auto simp: recordedAs_def)
    then have new: "recordedAs (plOrder (requests ! k)) t" if "k \<in> set (aAdmitted ?a)" for k
      using kept.completeBatch_good [OF v, of "plOrder (requests ! k)"] batch_new [OF ok that] nu commitMany_ok(2) [OF ok] submitted(2) t(2)
      by (simp add: kept_iff)
    show ?thesis
    proof (cases "fmlookup (aAliases ?a) j")
      case (Some k)
      then show ?thesis using accounted_alias [OF acc Some] new by blast
    next
      case None
      then show ?thesis using settled [of r2] t(1) repeated old new assms(4) by (auto split: if_splits)
    qed
  qed
qed

section \<open>The queue and the API\<close>

text \<open>The answers of one round, and of the worker until it stops.\<close>

definition answeredBy :: "(nat \<times> placement) list \<Rightarrow> ('e, 'p) Service \<Rightarrow> (nat \<times> goerror option) list \<Rightarrow> bool" where
  "answeredBy pending s answers \<longleftrightarrow>
     (\<forall>c. (c, None) \<in> set answers \<longrightarrow> (\<exists>p. (c, p) \<in> set pending \<and> recordedAs (plOrder p) s))"

lemma drainRound_recorded:
  assumes "drainRound q = Some q'" and "named (qService q)"
  shows "\<exists>answers. qDone q' = qDone q @ answers \<and> answeredBy (qPending q) (qService q') answers"
    and "set (qPending q') \<subseteq> set (qPending q)" and "named (qService q')"
    and "recordedAs od (qService q) \<Longrightarrow> recordedAs od (qService q')"
proof -
  let ?n = "min (length (qPending q)) (nat (OrderBatchSize (cfg (qService q))))"
  let ?rs = "take ?n (qPending q)"
  obtain os qs s where p: "placeBatchWithQuotes (map snd ?rs) (qService q) = ((os, qs), s)" by (metis prod.exhaust)
  have q': "q' = q\<lparr>qPending := drop ?n (qPending q), qService := publishQuotes qs s, qDone := qDone q @ zip (map fst ?rs) os\<rparr>"
    using assms(1) p by (auto simp: drainRound_def Let_def split: if_splits)
  note rec = placeBatch_recorded [OF p assms(2)]
  have at: "recordedAs x (qService q') = recordedAs x s" for x using q' by (simp add: publishQuotes_def recordedAs_def)
  show "named (qService q')" using names.drainRound_good [OF assms(1)] assms(2) by (simp add: kept_iff)
  show "recordedAs od (qService q) \<Longrightarrow> recordedAs od (qService q')"
    using kept.drainRound_good [OF assms(1), of od] assms(2) by (simp add: kept_iff)
  show "set (qPending q') \<subseteq> set (qPending q)" using q' set_drop_subset by fastforce
  have "\<exists>x. (c, x) \<in> set (qPending q) \<and> recordedAs (plOrder x) (qService q')" if none: "(c, None) \<in> set (zip (map fst ?rs) os)" for c
  proof -
    obtain j where "j < length (zip (map fst ?rs) os)" "zip (map fst ?rs) os ! j = (c, None)" using none unfolding in_set_conv_nth by blast
    then have j: "j < length ?rs" "j < length os" "fst (?rs ! j) = c" "os ! j = None" by simp_all
    have "(c, snd (?rs ! j)) \<in> set ?rs" using j(1,3) by (metis nth_mem prod.collapse)
    then have "(c, snd (?rs ! j)) \<in> set (qPending q)" by (meson in_set_takeD)
    moreover have "recordedAs (plOrder (snd (?rs ! j))) s" using rec [of j] j by simp
    ultimately show ?thesis using at by blast
  qed
  then show "\<exists>answers. qDone q' = qDone q @ answers \<and> answeredBy (qPending q) (qService q') answers"
    using q' by (intro exI [of _ "zip (map fst ?rs) os"]) (simp add: answeredBy_def)
qed

lemma drainOrders_recorded:
  assumes "drainOrders q = Some q'"
  shows "named (qService q) \<longrightarrow> named (qService q') \<and> (\<forall>od. recordedAs od (qService q) \<longrightarrow> recordedAs od (qService q')) \<and>
    (\<exists>answers. qDone q' = qDone q @ answers \<and> answeredBy (qPending q) (qService q') answers)"
proof (induction rule: drainOrders.raw_induct [OF _ assms])
  case (1 drain q r)
  show ?case
  proof (cases "drainRound q")
    case None
    then have "r = q\<lparr>qRunning := False\<rparr>" using 1 by simp
    then show ?thesis by (simp add: answeredBy_def)
  next
    case (Some q1)
    then have go: "drain q1 = Some r" using 1(2) by simp
    show ?thesis
    proof
      assume nm: "named (qService q)"
      note rd = drainRound_recorded [OF Some nm] and ih = 1(1) [OF go, rule_format, OF rd(3)]
      obtain a1 where a1: "qDone q1 = qDone q @ a1" "answeredBy (qPending q) (qService q1) a1" using rd(1) by blast
      obtain a2 where a2: "qDone r = qDone q1 @ a2" "answeredBy (qPending q1) (qService r) a2" using ih by blast
      have "answeredBy (qPending q) (qService r) (a1 @ a2)"
        unfolding answeredBy_def
      proof (intro allI impI)
        fix c
        assume "(c, None) \<in> set (a1 @ a2)"
        then consider "(c, None) \<in> set a1" | "(c, None) \<in> set a2" by auto
        then show "\<exists>p. (c, p) \<in> set (qPending q) \<and> recordedAs (plOrder p) (qService r)"
        proof cases
          case 1
          then show ?thesis using a1(2) ih unfolding answeredBy_def by blast
        next
          case 2
          then show ?thesis using a2(2) rd(2) unfolding answeredBy_def by blast
        qed
      qed
      moreover have "qDone r = qDone q @ a1 @ a2" using a1(1) a2(1) by simp
      ultimately show "named (qService r) \<and> (\<forall>od. recordedAs od (qService q) \<longrightarrow> recordedAs od (qService r)) \<and>
          (\<exists>answers. qDone r = qDone q @ answers \<and> answeredBy (qPending q) (qService r) answers)"
        using ih rd(4) by blast
    qed
  qed
qed

text \<open>A client whose number is new gets the answer to its own placement.\<close>

lemma PlaceWait_recorded:
  assumes "PlaceWait client ctxErr waitErr od q = (None, q')" and "named (qService q)"
    and "client \<notin> fst ` set (qPending q)" and "client \<notin> fst ` set (qDone q)"
  shows "recordedAs od (qService q')" and "named (qService q')"
proof -
  have "recordedAs od (qService q') \<and> named (qService q')"
  proof (cases "OrderBatchSize (cfg (qService q)) > 1")
    case False
    obtain r s where p: "placeSingle ctxErr od (qService q) = (r, s)" by (rule prod.exhaust)
    then have "r = None" "qService q' = s" using assms(1) False by (auto simp: PlaceWait_def Place_def split: option.splits)
    then show ?thesis using placeSingle_recorded [of ctxErr od "qService q" s] names.placeSingle_good [OF p] p assms(2) by (simp add: kept_iff)
  next
    case True
    let ?p = "\<lparr>plCtx = ctxErr, plOrder = od\<rparr>"
    obtain r q1 where e: "enqueue client ctxErr ?p q = (r, q1)" by (rule prod.exhaust)
    have r: "r = None" using assms(1) True e by (cases r) (simp_all add: PlaceWait_def Place_def)
    have q1: "qPending q1 = qPending q @ [(client, ?p)]" "qDone q1 = qDone q" "qService q1 = qService q"
      using e r by (auto simp: enqueue_def split: option.splits if_splits)
    obtain q2 where d: "drainOrders q1 = Some q2" "map fst (qDone q2) = map fst (qDone q1) @ map fst (qPending q1)"
      using drainOrders_result [of q1] True q1(3) by auto
    have m: "q' = q2" "waitErr = None" "map_of (rev (qDone q2)) client = None \<or> map_of (rev (qDone q2)) client = Some None"
      using assms(1) True e r d(1) by (auto simp: PlaceWait_def Place_def split: option.splits)
    have n1: "named (qService q1)" using assms(2) q1(3) by simp
    obtain answers where a: "qDone q2 = qDone q1 @ answers" "answeredBy (qPending q1) (qService q2) answers" "named (qService q2)"
      using drainOrders_recorded [OF d(1), rule_format, OF n1] by blast
    have "client \<in> set (map fst (qDone q2))" unfolding d(2) q1(1) by simp
    then have "client \<in> fst ` set (rev (qDone q2))" by simp
    then have "map_of (rev (qDone q2)) client = Some None" using m(3) map_of_eq_None_iff by metis
    then have "(client, None) \<in> set (qDone q2)" using map_of_SomeD by fastforce
    then have "(client, None) \<in> set answers" using a(1) q1(2) assms(4) by force
    then obtain p where p: "(client, p) \<in> set (qPending q1)" "recordedAs (plOrder p) (qService q2)" using a(2) by (auto simp: answeredBy_def)
    have "p = ?p" using p(1) q1(1) assms(3) by force
    then show ?thesis using m(1) p(2) a(3) by simp
  qed
  then show "recordedAs od (qService q')" "named (qService q')" by simp_all
qed

text \<open>Whatever happens later, a recorded order stays, with its terms.\<close>

lemma recorded_forever:
  assumes "exchange_step\<^sup>*\<^sup>* (q, D) (q', D')" and "named (qService q)" and "recordedAs od (qService q)"
  shows "recordedAs od (qService q')"
proof -
  have phase: "kept.good od t" if "keeps s t" "kept.good od s" for s t :: "('a, 'b) Service"
    using that named_book [of t s] recordedAs_book [of t s] by (simp add: kept_iff keeps_def)
  have "kept.good od (qService q')"
    using assms(1)
  proof (induction "(q', D')" arbitrary: q' D' rule: rtranclp_induct)
    case base
    then show ?case using assms(2,3) by (simp add: kept_iff)
  next
    case (step y)
    obtain q1 D1 where y: "y = (q1, D1)" by (rule prod.exhaust)
    note ih = step.hyps(3) [OF y]
    from step.hyps(2) y have "exchange_step (q1, D1) (q', D')" by simp
    then show ?case
    proof (cases rule: exchange_parts)
      case request
      then show ?thesis using kept.request_good ih by blast
    next
      case (freeze_state x s)
      then show ?thesis using phase [OF freeze_keeps(1) [OF freeze_state(1)] ih] by simp
    next
      case (write_snapshot sn r s)
      then show ?thesis using phase [OF writeSnapshot_keeps(1) [OF write_snapshot(1)] ih] by simp
    next
      case (drop_segment r s)
      then show ?thesis using phase [OF dropPrevious_keeps(1) [OF drop_segment(1)] ih] by simp
    qed
  qed
  then show ?thesis by (simp add: kept_iff)
qed

end
