(* ===== verification/Sample_Services.thy ===== *)
theory Sample_Services
  imports Sample_Exchange Startup Acknowledgements
begin

text \<open>
  Concrete parts around the sample exchange: a codec for tokens, an account, a cached quote, a hub
  with one subscriber, an API server, and a service with an empty projection.
\<close>

section \<open>Tokens\<close>

text \<open>Claims as text: the parts between commas, the expiry in unary.\<close>

definition sampleCodec :: codec where
  "sampleCodec = \<lparr>mac = (\<lambda>key m. key @ m),
     marshalClaims = (\<lambda>cl. clSubject cl @ '','' @ clIssuer cl @ '','' @ replicate (nat (clExpiry cl)) CHR ''i''),
     unmarshalClaims = (\<lambda>s. case splitOn CHR '','' s of
        [sub, iss, expiry] \<Rightarrow> Some \<lparr>clSubject = sub, clIssuer = iss, clExpiry = int (length expiry)\<rparr> | _ \<Rightarrow> None),
     bcryptHash = (\<lambda>n pw. Inr (replicate n CHR ''s'' @ '':'' @ pw)),
     bcryptCompare = (\<lambda>hash pw. dropWhile (\<lambda>c. c = CHR ''s'') hash = '':'' @ pw),
     authUUID = (\<lambda>n. replicate (Suc n) CHR ''u'')\<rparr>"

definition sampleAuth :: AuthService where
  "sampleAuth = \<lparr>secret = ''0123456789abcdef'', ttl = 86400, users = fmempty, drawn = 0\<rparr>"

definition sampleClaims :: "string \<Rightarrow> Claims" where
  "sampleClaims user = \<lparr>clSubject = user, clIssuer = issuer, clExpiry = 86400\<rparr>"

lemma sample_claims:
  assumes "CHR '','' \<notin> set user"
  shows "unmarshalClaims sampleCodec (marshalClaims sampleCodec (sampleClaims user)) = Some (sampleClaims user)"
proof -
  have "CHR '','' \<notin> set issuer" by (simp add: issuer_def)
  then show ?thesis using assms by (simp add: sampleCodec_def sampleClaims_def splitOn_append splitOn_plain)
qed

lemma sample_bcrypt: "bcryptHash sampleCodec n pw = Inr h \<Longrightarrow> bcryptCompare sampleCodec h pw"
proof -
  have "dropWhile (\<lambda>c. c = CHR ''s'') (replicate n CHR ''s'' @ CHR '':'' # pw) = CHR '':'' # pw" by (induction n) auto
  then show "bcryptHash sampleCodec n pw = Inr h \<Longrightarrow> bcryptCompare sampleCodec h pw" by (auto simp: sampleCodec_def)
qed

section \<open>An API server\<close>

definition sampleServer :: "unit Server" where
  "sampleServer = \<lparr>svDatabase = Some None, svEngine = Some (freshRouter 2), svTrading = Some (newQueue sampleService), svHub = NewHub,
     svQuotes = None, svAuth = Some sampleAuth, svMetrics = Some NewRegistry, svCodec = sampleCodec, svNet = sampleNet,
     svUUID = (\<lambda>n. replicate (Suc n) CHR ''i''), svNow = 0, svRedisNet = [], svClients = 0, svElapsed = 3\<rparr>"

lemma sample_server [simp]:
  "svTrading sampleServer = Some (newQueue sampleService)" "svNet sampleServer = sampleNet" "svAuth sampleServer = Some sampleAuth"
  "svCodec sampleServer = sampleCodec" "nowSeconds sampleServer = 0"
  by (simp_all add: sampleServer_def nowSeconds_def)

definition sampleToken :: string where
  "sampleToken = bearer @ sign sampleCodec 0 sampleAuth ''alice''"

lemma sample_middleware: "Middleware sampleCodec 0 sampleAuth sampleToken = Inr (Some ''alice'')"
proof -
  have "Parse sampleCodec 0 sampleAuth (sign sampleCodec 0 sampleAuth ''alice'') = Inr (sampleClaims ''alice'')"
    using Parse_sign [of "sampleClaims ''alice''" "''alice''" 0 sampleAuth sampleCodec 0] sample_claims [of "''alice''"]
    by (simp add: sampleClaims_def sampleAuth_def)
  then show ?thesis by (simp add: Middleware_def sampleToken_def HasPrefix_def TrimPrefix_def sampleClaims_def)
qed

section \<open>A cached quote and a subscriber\<close>

definition quoteAt :: "nat \<Rightarrow> Quote" where
  "quoteAt n = \<lparr>cqSequence = n, cqBid = 40, cqAsk = 45, cqLast = 0, cqUpdatedAt = 0\<rparr>"

definition sampleRedis :: redis where
  "sampleRedis = snd (SetVersioned Delivered 0 ''S'' (quoteAt 9) fmempty)"

lemma sample_redis: "redisOk sampleRedis" "leaseOf ''S'' sampleRedis = Some (9, 60000)"
proof -
  obtain ans r where s: "SetVersioned Delivered 0 ''S'' (quoteAt 9) fmempty = (ans, r)" by (rule prod.exhaust)
  have ok: "redisOk fmempty" by (simp add: redisOk_def)
  show "redisOk sampleRedis" "leaseOf ''S'' sampleRedis = Some (9, 60000)"
    using SetVersioned_ok [OF s ok] SetVersioned_lease [OF s ok, of "''S''"] s by (simp_all add: sampleRedis_def quoteAt_def leaseOf_def)
qed

definition sampleHub :: Hub where
  "sampleHub = snd (Subscribe ''market:m1'' 1 NewHub)"

lemma sample_hub: "hubOk sampleHub" "subscribed ''market:m1'' 0 sampleHub"
proof -
  obtain ch h where s: "Subscribe ''market:m1'' 1 NewHub = (ch, h)" by (rule prod.exhaust)
  show "hubOk sampleHub" using Subscribe_ok(1) [OF NewHub_ok s] s by (simp add: sampleHub_def)
  show "subscribed ''market:m1'' 0 sampleHub" by (simp add: sampleHub_def Subscribe_def NewHub_def subscribed_def Let_def)
qed

section \<open>A projected service\<close>

definition sampleWorld :: world where
  "sampleWorld = \<lparr>environ = (\<lambda>_. []), engines = (\<lambda>_. Inr emptyExchange), network = sampleNet, storage = emptyDisk,
     database = emptyTables, accounts = fmempty, cache = fmempty, uuids = (\<lambda>n. replicate (Suc n) CHR ''u''),
     requestUUIDs = (\<lambda>n. replicate (Suc n) CHR ''r''), lineLen = (\<lambda>_. 100), eventHash = (\<lambda>_. ''h''), tokens = sampleCodec,
     clock = 0, redisNet = [], pace = 3, visitMarkets = sorted_list_of_fset, visitOrders = sorted_list_of_fset,
     visitQuotes = sorted_list_of_fset, timeout = None\<rparr>"

lemma sample_router: "environ w = environ sampleWorld \<Longrightarrow> engines w = engines sampleWorld \<Longrightarrow> newRouter w = Inr (freshRouter 1)"
proof -
  have "splitComma ''localhost:50051'' = [''localhost:50051'']" "TrimSpace ''localhost:50051'' = ''localhost:50051''" by code_simp+
  then show "environ w = environ sampleWorld \<Longrightarrow> engines w = engines sampleWorld \<Longrightarrow> newRouter w = Inr (freshRouter 1)"
    by (simp add: newRouter_def NewRouter_def envOr_def sampleWorld_def NewClient_def freshRouter_def)
qed

definition projectedConfig :: "(router, tables) Config" where
  "projectedConfig = serverConfig sampleWorld 32"

lemma projected_config [simp]:
  "ProjectorOf projectedConfig = Some pgProjector" "EngineOf projectedConfig = Some (routedTrading sampleNet)"
  "newUUID projectedConfig = (\<lambda>n. replicate (Suc n) CHR ''u'')" "recordLen projectedConfig = (\<lambda>_. 100)" "SyncWAL projectedConfig"
  "OrderBatchSize projectedConfig = 32" "WALPath projectedConfig \<noteq> []" "SnapshotPath projectedConfig \<noteq> []"
  "DisableEngineBatch projectedConfig = False"
  by (simp_all add: projectedConfig_def serverConfig_def sampleWorld_def envOr_def)

definition projectedService :: "(router, tables) Service" where
  "projectedService = newService projectedConfig emptyDisk (freshRouter 2) emptyTables"

lemma projected_service: "projectedTo projectedService"
proof -
  have "inj (\<lambda>n. replicate (Suc n) CHR ''u'')" by (rule injI) (metis length_replicate nat.inject)
  then show ?thesis
    by (simp add: projectedTo_def freshUUIDs_def projectedService_def newService_def emptyTables_def
        tablesOk_def mirrored_def tradesOk_def Balance_def PositionOf_def)
qed

definition creditEvent :: "string \<Rightarrow> int \<Rightarrow> Event" where
  "creditEvent user cents = Event0\<lparr>eType := EventBalance, eUserID := user, eAmount := cents\<rparr>"

lemma projected_deposit: "\<exists>t. Deposit ''alice'' 500 projectedService = (None, t)"
  by (simp add: Deposit_def commit_def commitMany_def next_event_def Let_def appendMany_def openWAL_def syncDirectory_def writeLine_def
        osTry_def osCall_def setWal_def emptyDisk_def maxWALRecord_def projectedService_def newService_def
      pgProjector_def project_def
      pgApplyBatch_def dbTry_def dbCall_def transaction_def admitAllIDs_def eventTexts_def emptyTables_def Event0_def
      eventStmts_def balanceStmt_def hasNul_def Market0_def Order0_def Trade0_def)


text \<open>One deposit, as a run of the exchange.\<close>

lemma projected_start: "newService projectedConfig (emptyDisk\<lparr>ioScript := []\<rparr>) (freshRouter 2) (emptyTables\<lparr>dbScript := []\<rparr>) = projectedService"
  by (simp add: projectedService_def emptyDisk_def emptyTables_def)

lemma projected_uuids: "inj (newUUID projectedConfig)" "newUUID projectedConfig n \<noteq> []"
proof -
  show "inj (newUUID projectedConfig)" unfolding projected_config by (rule injI) (metis length_replicate nat.inject)
qed simp

lemma sample_world [simp]:
  "uuids sampleWorld = newUUID projectedConfig" "network sampleWorld = sampleNet" "lineLen sampleWorld = (\<lambda>_. 100)"
  "environ sampleWorld = (\<lambda>_. [])" "engines sampleWorld = (\<lambda>_. Inr emptyExchange)" "visitOrders sampleWorld = sorted_list_of_fset"
  by (simp_all add: sampleWorld_def)

lemma projected_run:
  obtains q where "logged_step\<^sup>*\<^sup>* ((newQueue projectedService, 0), Idle) ((q, 500), Idle)" "failure (qService q) = None"
    "uuidCount (qService q) = 1" "Balance (qService q) ''alice'' = 500"
proof -
  obtain s where s: "Deposit ''alice'' 500 projectedService = (None, s)" using projected_deposit by blast
  then have c: "commitMany [Event0\<lparr>eType := EventBalance, eUserID := ''alice'', eAmount := 500\<rparr>] projectedService = (None, s)"
    by (simp add: Deposit_def commit_def projectedService_def newService_def)
  let ?q = "(newQueue projectedService)\<lparr>qService := s\<rparr>"
  have "request_step (newQueue projectedService, 0) (?q, 500)"
    using request_step.deposit [of "''alice''" 500 "newQueue projectedService" None s 0] s by (simp add: newQueue_def)
  then have "logged_step\<^sup>*\<^sup>* ((newQueue projectedService, 0), Idle) ((?q, 500), Idle)" using logged_step.request by blast
  moreover have "uuidCount s = 1" using commit_counts(1) [OF c, of "bound projectedService"] by (simp add: plainEvent_def projectedService_def newService_def)
  moreover have "Balance s ''alice'' = 500"
    using commitMany_ok(3) [OF c]
    by (simp add: book_eq_iff apply_all_def apply_event_def addBalance_def Balance_def Let_def i64_def projectedService_def newService_def)
  ultimately show thesis using that [of ?q] commitMany_ok(2) [OF c] by simp
qed

text \<open>A server whose service has the order that a client sends again.\<close>

definition repeatServer :: "unit Server" where
  "repeatServer = sampleServer\<lparr>svTrading := Some (newQueue (heldService\<lparr>cfg := sampleConfig\<lparr>OrderBatchSize := 1\<rparr>\<rparr>))\<rparr>"

lemma repeat_server: "svTrading repeatServer = Some (newQueue (heldService\<lparr>cfg := sampleConfig\<lparr>OrderBatchSize := 1\<rparr>\<rparr>))"
  by (simp add: repeatServer_def)

text \<open>A service without engine on files that hold its state: one open market and one account with 5 dollars.\<close>

definition openService :: "(router, unit) Service" where
  "openService = sampleService\<lparr>cfg := sampleConfig\<lparr>EngineOf := None, OrderBatchSize := 1\<rparr>, markets := fmupd ''m1'' heldMarket fmempty,
     balances := fmupd ''bob'' 500 fmempty,
     disk := emptyDisk\<lparr>snapshotFile := Some \<lparr>snSequence = 0, snMarkets = fmupd ''m1'' heldMarket fmempty, snOrders = fmempty,
       snBalances = fmupd ''bob'' 500 fmempty, snPositions = fmempty\<rparr>\<rparr>\<rparr>"

definition openOrder :: Order where
  "openOrder = Order0\<lparr>oID := ''o1'', oUserID := ''bob'', oMarketID := ''m1'', oSide := BuyYes, oPrice := 40, oQuantity := 10\<rparr>"

lemma open_fields [simp]:
  "markets openService = fmupd ''m1'' heldMarket fmempty" "orders openService = fmempty" "engineOrders openService = fmempty"
  "balances openService = fmupd ''bob'' 500 fmempty" "positions openService = fmempty" "sequence openService = 0"
  "failure openService = None" "uuidCount openService = 0" "ioScript (disk openService) = []"
  "cfg openService = sampleConfig\<lparr>EngineOf := None, OrderBatchSize := 1\<rparr>"
  by (simp_all add: openService_def emptyDisk_def)

lemma open_logged: "loggedTo (cfg openService) Idle openService"
proof -
  have "durable openService"
    by (simp add: durable_def openService_def emptyDisk_def wholeFiles_def wholeLog_def diskLedger_def baseLedger_def
        ledger.truncate_def logEvents_def rebuildIndex_def loadLedger_def increasing_def sampleService_def newService_def)
  then show ?thesis by (simp add: loggedTo_def named_def phaseOk_def)
qed

lemma open_order: "submission openOrder"
  by (simp add: submission_def openOrder_def Order0_def in_i64_def)

lemma open_place:
  "\<exists>q'. PlaceWait 0 None None openOrder (newQueue openService) = (None, q') \<and> failure (qService q') = None \<and> uuidCount (qService q') < 2 ^ 64"
proof -
  obtain first where p: "prepareOrder openService openOrder = Inr [first]" "eID first = []"
    by (simp add: prepareOrder_def openOrder_def Order0_def u64_def translate_def Balance_def i64_def Let_def reservationEvents_def)
  have c: "recordLen (cfg openService) = (\<lambda>_. 100)" by (simp add: sampleConfig_def)
  obtain u where u: "commitMany [first] openService = (None, u)" "ioScript (disk u) = []" using calm_commit [of openService "[first]"] c by auto
  have k: "failure u = None" "cfg u = cfg openService" using commitMany_ok(2,4) [OF u(1)] by simp_all
  obtain t where t: "commitMany [Event0\<lparr>eType := EventOrder, eOrder := (eOrder first)\<lparr>oStatus := Open\<rparr>\<rparr>] u = (None, t)"
    using calm_commit [of u "[Event0\<lparr>eType := EventOrder, eOrder := (eOrder first)\<lparr>oStatus := Open\<rparr>\<rparr>]"] k c u(2) by auto
  have "placeSingle None openOrder openService = (None, t)" using p u(1) k t by (simp add: placeSingle_def submitSingle_def commit_def)
  moreover have "uuidCount t = 2"
    using commit_counts(1) [OF u(1), of "\<lambda>_. orderTerms (eOrder first)"] commit_counts(1) [OF t, of "\<lambda>_. orderTerms (eOrder first)"] p(2) prepared_event(1,3) [OF p(1)]
      prepared_plain(1) [OF p(1), of "\<lambda>_. orderTerms (eOrder first)"]
    by (simp add: plainEvent_def)
  ultimately show ?thesis using commitMany_ok(2) [OF t] by (auto simp: PlaceWait_def Place_def newQueue_def)
qed

text \<open>An order of 2^31 shares on an account that can pay for it.\<close>

definition largeOrder :: Order where
  "largeOrder = Order0\<lparr>oID := ''big'', oUserID := ''bob'', oMarketID := ''m1'', oSide := BuyYes, oPrice := 1, oQuantity := 2147483648\<rparr>"

definition richService :: "(router, tables) Service" where
  "richService = projectedService\<lparr>markets := fmupd ''m1'' heldMarket fmempty, balances := fmupd ''bob'' 3000000000 fmempty\<rparr>"

end
