(* ===== verification/Spec2Isabelle.thy ===== *)
theory Spec2Isabelle
  imports Engine_Recovery Sample_Services Book_Quotes
begin

text \<open>
  A verification of the prediction market exchange: a Go backend that keeps accounts and orders
  durably (src/go-backend) and a C++ engine that matches orders (src/engine).

  \<^bold>\<open>The program.\<close> Users trade YES and NO shares of markets for 1 to 99 cents; a pair of shares pays 100 cents.
  The API (internal/server/routes.go) authenticates a request (internal/auth) and calls the trading service
  (internal/trading). An order is validated and its cash or shares are reserved in a first durable commit, then it goes to
  the engine of its symbol (internal/engine, over gRPC to src/engine/src), then the fills are recorded in a
  second commit. A commit appends one line to the write-ahead log, projects its events into PostgreSQL
  (internal/store), and applies them to the ledger in memory; any error in between latches the service until a
  restart. Orders wait in a bounded queue whose worker submits them in batches. Checkpoints rotate the log, write a snapshot and delete
  what it covers, beside the requests. Quotes read after a commit go to Redis (internal/cache) and to
  WebSocket clients (internal/ws). A restart (internal/server/server.go) loads the files and submits the live orders to
  empty engines again; the documents of the repository ask for a restart of the API together with all engines.

  \<^bold>\<open>The model, by theory.\<close> Operations keep the names of the code; an operation that may fail returns
  \<open>goerror option\<close> or a sum with the error on the left, beside the new state.

  \<^item> Prelude: 64- and 32-bit conversions, maps read with a zero value, sums over maps, errors with \<^verbatim>\<open>errors.Is\<close>.
  \<^item> Trading_Types, Ledger, Wal, Quotes, Orders, Market_Ops (service.go, quotes.go): the data, \<^verbatim>\<open>apply\<close>, \<^verbatim>\<open>commitMany\<close>
    with the log and the replay, quotes, placing one order, and every other operation. Batches (order_batch.go): admission
    of a batch, its completion, the queue and its worker. Checkpoint (checkpoint.go, \<^verbatim>\<open>NewWithConfig\<close>, \<^verbatim>\<open>Close\<close>).
  \<^item> Engine_Client (package engine): clients, adapters and the router that spreads symbols by FNV-1a. Order_Book
    (orderbook.cpp) and Matching_Server (exchange.cpp, grpc_server.cpp): the books with price levels, tombstones
    and compaction, and the handlers.
  \<^item> Projection (projector.go), Quote_Cache (quotes.go, redis.go), Broadcast (hub.go, http.go), Auth_Service
    (auth/service.go), Metrics (metrics.go), Http_Server (routes.go), Startup (server.go).

  \<^bold>\<open>What is proved, by theory.\<close>

  \<^item> Ledger, Accounting, Fills, Placement, Settlement, Account_Effects: the 64-bit ledger is the unbounded one
    modulo 2^64 (C20); each event keeps the value of the books; the effect of each operation on each account (C15 to C18, C23).
  \<^item> Engine_Contract states what the service needs of an engine as the locale \<open>matching_engine\<close>; Coupling, Exchange_Invariant,
    Exchange_Ops, Batch_Admission, Batch_Completion, Order_Queue, Exchange_Steps and Engine_Recovery prove inside it that every operation
    keeps the ledger funded, well formed and in step with the books of the engine, by rule induction over
    \<open>exchange_step\<close> (C1, C2, C13, C14, C19, C21). Book_Representation, Book_Matching, Book_Quotes and Matching_Server prove the contract for
    the C++ engine (C7 to C9, C11, C12), and Engine_Client interprets the locale as \<open>routed\<close> for the router over lossy calls (C10).
  \<^item> Recovery and Durability: the files determine the accounting state through commits, failures and
    the phases of checkpoints (C3 to C6). Recorded_Operations is the locale \<open>recorded_state\<close> of whatever commits keep, with the
    lemma for every operation, and interprets it for the terms of a recorded order, which never change; Exchange_Durability
    interprets it for the files and, with Projected_Service, for the SQL tables in all their columns (C24, C25).
    Projection itself is atomic and idempotent (C26), and narrower than the ledger (C27).
  \<^item> Quotes, Quote_Cache and Broadcast: C22 and C28 to C31. Auth_Service: C33 to C35. Http_Safety: every request is a run of the exchange, and
    what tokens protect (C36 to C38). Acknowledgements: an order answered without an error is in the ledger with the
    terms that were asked for, and stays there (C32, C39).
    Startup: a restarted server runs a sound exchange with the same deposits (C40).
  \<^item> Sample_Book, Sample_Exchange and Sample_Services are concrete instances, on which the witnesses of
    the properties run.

  \<^bold>\<open>Parameters.\<close> Code outside the repository is an argument: the outcome of each file operation (\<open>ioScript\<close>),
  of each call of PostgreSQL (\<open>dbScript\<close>), of each call of an engine (\<open>network\<close>) and of Redis; UUIDs, the length of a
  log line, HMAC, bcrypt, JSON of claims, the clock; errors of contexts; and the orders in which Go visits maps.

  \<^bold>\<open>Bounds.\<close> The matching loop has as fuel two more than the orders and price levels of the book (\<open>matchFuel\<close>), which C8 proves to be enough; every other
  loop is structural, except the worker, a partial function proved to return (C13). The engine draws 32-bit order IDs, up
  to 32 per call: statements about runs assume that each client makes at most 134217727 successful calls (\<open>budget\<close>),
  so that IDs do not repeat; C12 shows what happens afterwards. Sequence numbers wrap after 2^64 events, so
  durability is stated for fewer. Runs assume deposits that fit in 63 bits in total and resolutions of markets without
  resting sell orders; without the first balances wrap (C20), without the second reserved shares are not paid (C15).

  \<^bold>\<open>Not modelled.\<close> Crashes are crashes of the process: what a power loss does to writes that were not synced is
  left out, as are the bytes of a log line (a line is a record with a length, or torn) and of a snapshot, which is read
  back as it was written: the error of \<^verbatim>\<open>json.Unmarshal\<close> in \<^verbatim>\<open>loadSnapshot\<close> has no counterpart, the errors of reading the file do. The
  book's own 32-bit counter of IDs, used for an order without one, is unbounded; \<^verbatim>\<open>RemoveOrder\<close> of the gRPC server asks
  \<^verbatim>\<open>has_order\<close> first, which here is the result of the removal; and the ratio of deleted orders that starts a compaction is
  compared in integers, not doubles. Operations under a lock are one step; a placement that waits is answered after the worker
  has drained the queue, with the error of its context if that ended meanwhile; interleavings are those of requests, rounds of the worker and phases of checkpoints. Deadlines, logging, CORS, the text
  of the metrics report, the statements of \<^verbatim>\<open>Migrate\<close> that upgrade an older schema, text beyond ASCII, and the closing of
  connections are left out. The pool of database.go, cmd/api and cmd/loadtest, the generated code in
  internal/engine/pb and the benchmarks are glue, tools or not written by hand, and have no model.
\<close>

section \<open>The exchange as a whole\<close>

text \<open>
  C1. In every state the exchange can reach from an empty one - whatever the clients request as
  long as the deposits fit in 63 bits and a market is resolved while no sell order rests in it (C15
  shows why), whichever engine calls and file operations fail, and however rounds of the worker and
  phases of checkpoints interleave with the requests - the books are worth exactly the accepted
  deposits, every order, market and index entry is well formed, and unless a failure is latched
  no order is between its reservation and the engine and the engines' books are the live orders
  of the open markets.
\<close>

theorem exchange_reachable:
  assumes "budget net" and "0 < n" and "EngineOf c = Some (routedTrading net)"
    and "exchange_step\<^sup>*\<^sup>* (newQueue (newService c d (freshRouter n) p), 0) (q, D)"
  shows "funded D (qService q) \<and> wellFormed (qService q) \<and>
    (failure (qService q) = None \<longrightarrow>
       allEntered (qService q) \<and> coupled (routerBook (engineState (qService q))) (qService q))"
  using routed.exchange_run_ok [OF assms(4)] fresh_exchange [OF assms(1-3)] by (auto simp: queueOk_def sound_def)

theorem exchange_reachable_witness:
  "\<exists>q. exchange_step\<^sup>*\<^sup>* (newQueue sampleService, 0) (q, 500) \<and> funded 500 (qService q) \<and> wellFormed (qService q)"
proof -
  obtain q where r: "exchange_step\<^sup>*\<^sup>* (newQueue sampleService, 0) (q, 500)" using sample_run by blast
  show ?thesis
    using exchange_reachable [OF sample_budget _ _ r [unfolded sampleService_def]] r by (auto simp: sampleService_def)
qed

text \<open>
  C2. Conservation and range: in every reachable state the cash in balances, the cash reserved by
  live buy orders and 100 cents for every YES share add up to the accepted deposits; every market
  has as many YES as NO shares, held or reserved; no balance or position is negative or exceeds
  what was deposited.
\<close>

theorem exchange_conserves:
  assumes "budget net" and "0 < n" and "EngineOf c = Some (routedTrading net)"
    and "exchange_step\<^sup>*\<^sup>* (newQueue (newService c d (freshRouter n) p), 0) (q, D)"
  shows "cash (qService q) + reserved (qService q) + 100 * totalYes (qService q) = D \<and>
    (\<forall>m. sharesYes (qService q) m = sharesNo (qService q) m) \<and>
    (\<forall>u. 0 \<le> Balance (qService q) u \<and> Balance (qService q) u \<le> D) \<and>
    (\<forall>u m. 0 \<le> pYes (PositionOf (qService q) u m) \<and> 100 * pYes (PositionOf (qService q) u m) \<le> D \<and>
       0 \<le> pNo (PositionOf (qService q) u m) \<and> 100 * pNo (PositionOf (qService q) u m) \<le> D)"
proof -
  have "funded D (qService q)"
    using routed.exchange_run_ok [OF assms(4)] fresh_exchange [OF assms(1-3)] by (auto simp: queueOk_def sound_def)
  note accounts = funded_accounts [OF this]
  show ?thesis by (intro conjI allI accounts)
qed

theorem exchange_conserves_witness:
  "\<exists>q. exchange_step\<^sup>*\<^sup>* (newQueue sampleService, 0) (q, 500) \<and>
    cash (qService q) + reserved (qService q) + 100 * totalYes (qService q) = 500 \<and> Balance (qService q) ''alice'' \<le> 500"
proof -
  obtain q where r: "exchange_step\<^sup>*\<^sup>* (newQueue sampleService, 0) (q, 500)" using sample_run by blast
  show ?thesis using exchange_conserves [OF sample_budget _ _ r [unfolded sampleService_def]] r by (auto simp: sampleService_def)
qed

section \<open>Durability\<close>

text \<open>
  C3. Whatever point of a run a crash hits - between commits, or before, between or after the
  phases of a checkpoint that commits interleave with, also when a phase failed - starting a
  service on the files left behind succeeds and has exactly the accounting state of the moment of
  the crash: every acknowledged commit is there.
\<close>

theorem crash_recovery:
  assumes "storage_step\<^sup>*\<^sup>* (s0, Idle) (s, ph)" and "durable s0"
    and "0 \<le> OrderBatchSize (cfg s)" and "OrderBatchSize (cfg s) \<le> 32"
    and "WALPath (cfg s) \<noteq> []" and "SnapshotPath (cfg s) \<noteq> []"
    and "projectorOk (cfg s) p (loggedEvents (disk s))"
  shows "\<exists>t. NewWithConfig h (cfg s) ((disk s)\<lparr>ioScript := []\<rparr>) e p = Inr t \<and>
    ledger.truncate t = ledger.truncate s \<and> failure t = None"
  using crash_recovers [OF assms(1,2), where h = h and e = e and p = p] assms(3-7) by blast

theorem crash_recovery_witness:
  "\<exists>s t. storage_step\<^sup>*\<^sup>* (sampleService, Idle) (s, Idle) \<and>
    NewWithConfig (\<lambda>_. ''h'') sampleConfig ((disk s)\<lparr>ioScript := []\<rparr>) (freshRouter 2) () = Inr t \<and>
    ledger.truncate t = ledger.truncate s"
proof -
  obtain s where s: "commitMany [Event0] sampleService = (None, s)" using sample_commit by blast
  have st: "storage_step\<^sup>*\<^sup>* (sampleService, Idle) (s, Idle)" using committed [OF s, of Idle] by auto
  have c: "cfg s = sampleConfig" using commitMany_ok(4) [OF s] by simp
  show ?thesis
    using crash_recovery [OF st torn_durable(2), of "()" "\<lambda>_. ''h''" "freshRouter 2"] st c projectorOk_none [of sampleConfig] by auto
qed

text \<open>
  C4. A commit is atomic across a crash: when it returns an error (a failed or torn write, a
  failed sync, a failed projection), a service started on the files has either the state before
  the commit or the state after all of its events, never a part of them.
\<close>

theorem failed_commit_atomic:
  assumes "commitMany events s = (Some err, t)" and "durable s" and "failure s = None" and "events \<noteq> []"
    and "sequence s + length events < 2 ^ 64" and "recordLen (cfg s) Torn + 1 \<le> maxWALRecord"
    and "0 \<le> OrderBatchSize (cfg s)" and "OrderBatchSize (cfg s) \<le> 32"
    and "WALPath (cfg s) \<noteq> []" and "SnapshotPath (cfg s) \<noteq> []"
    and "projectorOk (cfg s) p (loggedEvents (disk t))"
  shows "\<exists>u. NewWithConfig h (cfg s) ((disk t)\<lparr>ioScript := []\<rparr>) e p = Inr u \<and> failure u = None \<and>
    (ledger.truncate u = ledger.truncate s \<or> ledger.truncate u = apply_all (fst (nextAll events s)) (ledger.truncate s))"
proof -
  obtain es s1 where n: "nextAll events s = (es, s1)" by (rule prod.exhaust)
  note files = commit_failed_files [OF assms(1-6) n]
  have "goodFiles (recordLen (cfg s)) ((disk t)\<lparr>ioScript := []\<rparr>)" using files(1) by (simp add: goodFiles_def)
  then obtain u where "NewWithConfig h (cfg s) ((disk t)\<lparr>ioScript := []\<rparr>) e p = Inr u"
      "ledger.truncate u = diskLedger (disk t)" "failure u = None"
    using NewWithConfig_ok [OF assms(7-10), of "(disk t)\<lparr>ioScript := []\<rparr>" p h e] assms(11) by auto
  then show ?thesis using files(2) n by auto
qed

theorem failed_commit_atomic_witness:
  "\<exists>err t u. commitMany [Event0] tornService = (Some err, t) \<and>
    NewWithConfig (\<lambda>_. ''h'') sampleConfig ((disk t)\<lparr>ioScript := []\<rparr>) (freshRouter 2) () = Inr u \<and> failure u = None"
proof -
  obtain err t where t: "commitMany [Event0] tornService = (Some err, t)" using torn_commit by blast
  show ?thesis
    using failed_commit_atomic [OF t torn_durable(1), of "()" "\<lambda>_. ''h''" "freshRouter 2"] t projectorOk_none [of sampleConfig]
    by (auto simp: maxWALRecord_def)
qed

text \<open>
  C5. The snapshot file holds all of the accounting state: loading the frozen state gives it back,
  with the index of engine orders rebuilt from the orders.
\<close>

theorem snapshot_roundtrip:
  assumes "indexed s"
  shows "loadLedger (frozen s) = ledger.truncate s"
  by (rule frozen_load [OF assms])

theorem snapshot_roundtrip_witness: "loadLedger (frozen sampleService) = emptyLedger"
proof -
  have "indexed sampleService" using fresh_ledger(2) [of sampleConfig emptyDisk "freshRouter 2" "()"]
    by (simp add: wellFormed_def sampleService_def)
  then show ?thesis using snapshot_roundtrip [of sampleService] by (simp add: emptyLedger_def ledger.truncate_def)
qed

text \<open>
  C6. In memory a commit is all or nothing too. An error leaves the books, the configuration, the
  engine and the publications as they were and latches a failure that asks for recovery; a success applies
  every event to the books, leaves the rest as it was and latches nothing. This is about the running
  process: after an error the counter of sequence numbers may have advanced, and the log and the tables
  may already hold the batch, so that a restart applies it (C4).
\<close>

theorem commit_all_or_nothing:
  assumes "commitMany events s = (r, t)" and "failure s = None"
  shows "cfg t = cfg s \<and> engineState t = engineState s \<and> published t = published s \<and>
    (case r of
      None \<Rightarrow> failure t = None \<and> book t = book (apply_all events (book s))
    | Some e \<Rightarrow> failure t = Some e \<and> errors_Is e ErrRecoveryRequired \<and> book t = book s)"
  using commitMany_ok [of events s t] commitMany_err [of events s _ t] assms by (cases r) (simp_all add: keeps_def)

theorem commit_all_or_nothing_witness:
  "\<exists>err t. commitMany [Event0] tornService = (Some err, t) \<and> failure t = Some err \<and> book t = book tornService \<and>
     engineState t = engineState tornService"
proof -
  obtain err t where t: "commitMany [Event0] tornService = (Some err, t)" using torn_commit by blast
  show ?thesis using commit_all_or_nothing [OF t] t by auto
qed

section \<open>The matching engine\<close>

text \<open>
  C7. An incoming order trades by price and time: every fill meets the best resting order of the
  other side (the best price, then the lowest order ID), at its price and within the limit, for as
  much as both have left; what remains of the order rests only if nothing crosses it; the book
  stays well formed and uncrossed. Tombstones, erased levels and compaction do not show.
\<close>

theorem price_time_priority:
  assumes "bookGood lim ob" and "lim \<le> bID new" and "0 < bID new" and "\<not> bDeleted new" and "0 < bQuantity new"
  shows "case book_add_order new ob of ((od, ts), ob') \<Rightarrow>
    bookGood (Suc (bID new)) ob' \<and> bID od = bID new \<and> fairFills (sideText (bSide new)) (restsOf ob) ts \<and>
    matchBook (restsOf ob) (sideText (bSide new)) (bPrice new) (bQuantity new)
      \<lparr>erOrderID = bID new, erTrades = ts\<rparr> = Some (restsOf ob')"
  using book_add_order_spec [OF assms] by (auto split: prod.split)

theorem price_time_priority_witness:
  "fairFills ''buy'' (restsOf restingBook) [\<lparr>etBuyOrderID = 2, etSellOrderID = 1, etPrice = 40, etQuantity = 4\<rparr>] \<and>
    bookGood 3 (snd (book_add_order bid50 restingBook))"
  using price_time_priority [OF resting_good, of bid50] resting_trade
  by (auto simp: bid50_def newOrder_def numeral_3_eq_3 numeral_2_eq_2 split: prod.splits)

text \<open>
  C8. The matching loop ends: with the fuel the model gives it, it never runs out on a book the
  engine can have, and it returns the order with what is left of it, a well-formed book and the
  fills, having stopped because the order is used up or nothing crosses it.
\<close>

theorem matching_loop_ends:
  assumes "bookInv ob" and "bookOrdered ob"
  shows "\<exists>q' ob' ts. init_trades_with_order (matchFuel ob) od ob ex = Some (od\<lparr>bQuantity := q'\<rparr>, ob', ex @ ts) \<and>
    bookInv ob' \<and> bookOrdered ob' \<and> q' \<le> bQuantity od \<and>
    (q' = 0 \<or> noCross (sideText (bSide od)) (bPrice od) (restsOf ob'))"
proof -
  obtain q' ob' ts where r: "init_trades_with_order (matchFuel ob) od ob ex = Some (od\<lparr>bQuantity := q'\<rparr>, ob', ex @ ts)"
      "matched od ob q' ob' ts"
    using init_trades_result [OF assms matchFuel_enough] by blast
  have "q' \<le> bQuantity od" using r(2) replayFills_shrinks(1) unfolding matched_def by blast
  then show ?thesis using r unfolding matched_def by blast
qed

theorem matching_loop_ends_witness:
  "init_trades_with_order (matchFuel restingBook) bid50 restingBook [] \<noteq> None"
  using matching_loop_ends [of restingBook bid50 "[]"] bookGoodD(1,2) [OF resting_good] by auto

text \<open>
  C9. A quote is the best price of the orders that rest: no order bids more than the best bid or
  asks less than the best ask, -1 stands for an empty side, and a book is never quoted crossed.
\<close>

theorem quotes_are_best:
  assumes "bookGood lim ob"
  shows "(if \<exists>p. restingAt Buy ob p
      then restingAt Buy ob (get_best_bid ob) \<and> (\<forall>p. restingAt Buy ob p \<longrightarrow> p \<le> get_best_bid ob) else get_best_bid ob = -1) \<and>
    (if \<exists>p. restingAt Sell ob p
      then restingAt Sell ob (get_best_ask ob) \<and> (\<forall>p. restingAt Sell ob p \<longrightarrow> get_best_ask ob \<le> p) else get_best_ask ob = -1) \<and>
    (get_best_bid ob = -1 \<or> get_best_ask ob = -1 \<or> get_best_bid ob < get_best_ask ob)"
proof -
  note inv = bookGoodD(1) [OF assms]
  have "if \<exists>p. restingAt Buy ob p
      then restingAt Buy ob (get_best_bid ob) \<and> (\<forall>p. restingAt Buy ob p \<longrightarrow> p \<le> get_best_bid ob) else get_best_bid ob = -1"
    using best_bid_spec(1) [OF inv] best_bid_spec(2) [OF inv] by auto
  moreover have "if \<exists>p. restingAt Sell ob p
      then restingAt Sell ob (get_best_ask ob) \<and> (\<forall>p. restingAt Sell ob p \<longrightarrow> get_best_ask ob \<le> p) else get_best_ask ob = -1"
    using best_ask_spec(1) [OF inv] best_ask_spec(2) [OF inv] by auto
  ultimately show ?thesis using quote_uncrossed [OF assms] by blast
qed

theorem quotes_are_best_witness:
  "get_best_ask restingBook = 40 \<and> get_best_bid restingBook = -1 \<and> restingAt Sell restingBook 40"
proof -
  have "get_best_ask restingBook = 40" "get_best_bid restingBook = -1"
    by (simp_all add: get_best_ask_def get_best_bid_def resting_book ask40_def newOrder_def fmget_def)
  then show ?thesis using quotes_are_best [OF resting_good] by (metis numeral_neq_neg_one)
qed

text \<open>
  C10. A batch that the router spreads over several engines acts on the book of every symbol as
  if its orders had been matched one after the other, in the order of the batch, and the results
  come back in that order.
\<close>

theorem routed_batch_sequential:
  assumes "healthyRouter net cs" and "routedAddOrders net cs ods = (Inr batch, cs')"
  shows "healthyRouter net cs' \<and> length (ebResults batch) = length ods \<and>
    (\<forall>symbol. matchAll symbol (routerBook cs symbol) (zip ods (ebResults batch)) = Some (routerBook cs' symbol))"
  using routedAddOrders_good [OF assms] by blast

theorem routed_batch_sequential_witness:
  "\<exists>batch cs'. routedAddOrders sampleNet twoBooks twoOrders = (Inr batch, cs') \<and> length (ebResults batch) = 2 \<and>
    matchAll ''B'' (routerBook twoBooks ''B'') (zip twoOrders (ebResults batch)) = Some (routerBook cs' ''B'')"
proof -
  obtain batch cs' where r: "routedAddOrders sampleNet twoBooks twoOrders = (Inr batch, cs')" using two_submitted by blast
  show ?thesis using routed_batch_sequential [OF two_healthy r] r by (auto simp: twoOrders_def)
qed

text \<open>
  C11. A batch that reaches an engine is validated before any of it is executed: it is accepted
  exactly when it has 1 to 32 orders, each for a listed symbol, with a positive quantity and a
  price of 1 to 99 cents; a rejected batch changes nothing.
\<close>

theorem batch_validated_first:
  "((\<exists>batch. fst (exch_add_orders ss x) = Inr batch) \<longleftrightarrow>
     1 \<le> length ss \<and> length ss \<le> 32 \<and> (\<forall>s\<in>set ss. fmlookup (symbol_map x) (subSymbol s) \<noteq> None \<and>
        0 < subQuantity s \<and> 0 < subPrice s \<and> subPrice s < 100)) \<and>
   ((\<exists>err. fst (exch_add_orders ss x) = Inl err) \<longrightarrow> snd (exch_add_orders ss x) = x)"
proof (cases "ss = [] \<or> length ss > 32 \<or> checkSubmissions ss x \<noteq> None")
  case True
  then show ?thesis using checkSubmissions_None [of ss x]
    by (cases "checkSubmissions ss x") (auto simp: exch_add_orders_def not_le Suc_le_eq)
next
  case False
  then show ?thesis using checkSubmissions_None [of ss x]
    by (auto simp: exch_add_orders_def Let_def Suc_le_eq case_prod_beta)
qed

theorem batch_validated_first_witness:
  "snd (exch_add_orders [\<lparr>subSymbol = ''S'', subPrice = 40, subQuantity = 1, subSide = Buy\<rparr>] emptyExchange) = emptyExchange"
  using batch_validated_first [of "[\<lparr>subSymbol = ''S'', subPrice = 40, subQuantity = 1, subSide = Buy\<rparr>]" emptyExchange]
  by (cases "fst (exch_add_orders [\<lparr>subSymbol = ''S'', subPrice = 40, subQuantity = 1, subSide = Buy\<rparr>] emptyExchange)")
    (auto simp: emptyExchange_def)

text \<open>
  C12. Order IDs of an engine have 32 bits, drawn from a counter of 64. Through every history of the
  engine - single orders, batches, refused batches, cancellations, books that come and go - the IDs
  count up from the counter, modulo \<open>2 ^ 32\<close>: two orders get the same ID exactly when their positions
  differ by a multiple of \<open>2 ^ 32\<close>. So from a new engine the first \<open>2 ^ 32 - 1\<close> IDs are distinct and
  none is 0, the value the book reads as no ID; the next one is 0.
\<close>

theorem order_ids_wrap:
  assumes "engine_history x ids x'" and "0 < next_order_id x" and "next_order_id x < 2 ^ 64"
  shows "(\<forall>k<length ids. ids ! k = (next_order_id x + k) mod 2 ^ 32) \<and>
    next_order_id x' = (next_order_id x + length ids) mod 2 ^ 64 \<and>
    (\<forall>j<length ids. \<forall>k<length ids. ids ! j = ids ! k \<longleftrightarrow> j mod 2 ^ 32 = k mod 2 ^ 32) \<and>
    (next_order_id x + length ids \<le> 2 ^ 32 \<longrightarrow> distinct ids \<and> 0 \<notin> set ids) \<and>
    (next_order_id x \<le> 2 ^ 32 \<and> 2 ^ 32 < next_order_id x + length ids \<longrightarrow> ids ! (2 ^ 32 - next_order_id x) = 0)"
proof -
  let ?n = "next_order_id x"
  note h = history_draws [OF assms(1,3)]
  have at: "\<forall>k<length ids. ids ! k = (?n + k) mod 2 ^ 32" by (rule idsFrom_nth [OF conjunct1 [OF h]])
  have low: "distinct ids \<and> 0 \<notin> set ids" if "?n + length ids \<le> 2 ^ 32"
  proof -
    have "ids ! k = ?n + k" if "k < length ids" for k using at that \<open>?n + length ids \<le> 2 ^ 32\<close> by simp
    then show ?thesis using assms(2) by (auto simp: distinct_conv_nth in_set_conv_nth)
  qed
  have "ids ! (2 ^ 32 - ?n) = 0" if w: "?n \<le> 2 ^ 32 \<and> 2 ^ 32 < ?n + length ids"
  proof -
    have "2 ^ 32 - ?n < length ids" "?n + (2 ^ 32 - ?n) = 2 ^ 32" using w by auto
    then show ?thesis using at by (metis mod_self)
  qed
  then show ?thesis using at low conjunct2 [OF h] mod_shift [of ?n] by simp
qed

theorem order_ids_wrap_witness:
  "\<exists>b x'. exch_add_orders [\<lparr>subSymbol = ''S'', subPrice = 40, subQuantity = 1, subSide = Buy\<rparr>,
       \<lparr>subSymbol = ''S'', subPrice = 41, subQuantity = 2, subSide = Buy\<rparr>] (exch_add_book ''S'' emptyExchange) = (Inr b, x') \<and>
     length (ebResults b) = 2 \<and> distinct (map erOrderID (ebResults b)) \<and> map erOrderID (ebResults b) ! 0 = 1 \<and> next_order_id x' = 3"
proof -
  let ?ss = "[\<lparr>subSymbol = ''S'', subPrice = 40, subQuantity = 1, subSide = Buy\<rparr>,
       \<lparr>subSymbol = ''S'', subPrice = 41, subQuantity = 2, subSide = Buy\<rparr>]" and ?x = "exch_add_book ''S'' emptyExchange"
  have x: "next_order_id ?x = 1" "fmlookup (symbol_map ?x) ''S'' = Some emptyBook" by (simp_all add: exch_add_book_def emptyExchange_def)
  obtain rs seen x' where run: "runSubmissions ?ss [] ?x = ((rs, seen), x')" by (metis prod.exhaust)
  have len: "length rs = 2" using submissions_draw [OF run] x(1) by (auto simp: map_eq_Cons_conv)
  obtain b where b: "exch_add_orders ?ss ?x = (Inr b, x')" "ebResults b = rs"
    using run x(2) by (simp add: exch_add_orders_def Let_def del: runSubmissions.simps)
  have "engine_history ?x (map erOrderID (ebResults b)) x'" using engine_history.batch [OF engine_history.start b(1)] by simp
  from order_ids_wrap [OF this] show ?thesis using b len x(1) by simp
qed

section \<open>The order queue\<close>

text \<open>
  C13. The worker ends: it leaves the queue empty and hands every waiting placement one answer,
  in the order of arrival.
\<close>

theorem worker_answers_all:
  assumes "0 < OrderBatchSize (cfg (qService q))"
  shows "\<exists>q'. drainOrders q = Some q' \<and> qPending q' = [] \<and> \<not> qRunning q' \<and>
    map fst (qDone q') = map fst (qDone q) @ map fst (qPending q)"
  by (rule drainOrders_result [OF assms])

theorem worker_answers_all_witness:
  "\<exists>q'. drainOrders ((newQueue sampleService)\<lparr>qPending := [(7, samplePlacement), (8, samplePlacement)]\<rparr>) = Some q' \<and>
    map fst (qDone q') = [7, 8]"
  using worker_answers_all [of "(newQueue sampleService)\<lparr>qPending := [(7, samplePlacement), (8, samplePlacement)]\<rparr>"]
  by (auto simp: newQueue_def)

text \<open>
  C14. The queue is bounded: in every reachable state at most 128 placements wait, and a
  placement that finds 128 waiting is refused with the error of a full queue and changes nothing.
\<close>

theorem queue_bounded:
  assumes "exchange_step\<^sup>*\<^sup>* (newQueue s, 0) (q, D)"
  shows "length (qPending q) \<le> 128 \<and>
    (length (qPending q) = 128 \<and> \<not> qClosed q \<longrightarrow> enqueue client None p q = (Some ErrOrderQueueFull, q))"
  using queue_run_bounded [OF assms] by (auto simp: newQueue_def queueBounded_def maxQueuedOrders_def enqueue_def)

theorem queue_bounded_witness:
  "\<exists>q. exchange_step\<^sup>*\<^sup>* (newQueue sampleService, 0) (q, 500) \<and> length (qPending q) \<le> 128"
  using sample_run queue_bounded [of sampleService] by blast

section \<open>What an operation does to the accounts\<close>

text \<open>
  C15. A successful resolution pays each user 100 cents per winning share held and releases the cash
  of the resting buy orders; it cancels every resting order of the market and marks the market
  resolved; only its owner can do it, and only once. The shares that resting sell orders had
  reserved come back after the payout: they stay in the account as shares of a resolved market and
  are not paid.
\<close>

theorem resolution_effect:
  assumes "ResolveFor ctxErr i yes owner s = (None, t)" and "funded D s"
  shows "(\<exists>m. fmlookup (markets s) i = Some m \<and> mStatus m = Open \<and> (mOwnerID m = [] \<or> mOwnerID m = owner) \<and>
      markets t = fmupd (mID m) (resolvedMarket m yes) (markets s)) \<and>
    (\<forall>u. Balance t u = Balance s u + heldFor lockedCash s (restingIn i s) u + 100 * payoutOf yes (PositionOf s u i)) \<and>
    (\<forall>u m. pYes (PositionOf t u m) = (if m = i then heldFor lockedYes s (restingIn i s) u else pYes (PositionOf s u m))) \<and>
    (\<forall>u m. pNo (PositionOf t u m) = (if m = i then heldFor lockedNo s (restingIn i s) u else pNo (PositionOf s u m))) \<and>
    (\<forall>k. fmlookup (orders t) k = (if k \<in> set (restingIn i s) then Some ((orderIn s k)\<lparr>oStatus := Cancelled\<rparr>)
      else fmlookup (orders s) k))"
  using ResolveFor_account [OF assms] by blast

theorem resolution_effect_witness:
  "\<exists>t. ResolveFor None ''m1'' True ''carol'' heldService = (None, t) \<and> Balance t ''bob'' = 500"
proof -
  obtain t where t: "ResolveFor None ''m1'' True ''carol'' heldService = (None, t)" using held_resolve by blast
  show ?thesis using resolution_effect [OF t held_funded] t
    by (simp add: held_resting heldFor_def orderIn_def lockedCash_def remaining_def payoutOf_def Balance_def PositionOf_def)
qed

text \<open>
  C16. A successful cancellation gives the owner back exactly what the order still reserves - the
  price of the unfilled quantity, or the unfilled shares - and changes nothing else but the status of
  the order, which was the user's and was open or partly filled.
\<close>

theorem cancellation_effect:
  assumes "Cancel ctxErr i user s = (None, t)" and "funded D s"
  shows "\<exists>od. fmlookup (orders s) i = Some od \<and> oUserID od = user \<and> (oStatus od = Open \<or> oStatus od = Partial) \<and>
    orders t = fmupd i (od\<lparr>oStatus := Cancelled\<rparr>) (orders s) \<and> markets t = markets s \<and>
    (\<forall>u. Balance t u = Balance s u + (if u = user then lockedCash od else 0)) \<and>
    (\<forall>u m. pYes (PositionOf t u m) = pYes (PositionOf s u m) + (if u = user \<and> m = oMarketID od then lockedYes od else 0)) \<and>
    (\<forall>u m. pNo (PositionOf t u m) = pNo (PositionOf s u m) + (if u = user \<and> m = oMarketID od then lockedNo od else 0))"
  by (rule Cancel_account [OF assms]) blast

theorem cancellation_effect_witness:
  "\<exists>t. Cancel None ''o1'' ''bob'' heldService = (None, t) \<and> Balance t ''bob'' = 500"
proof -
  obtain t where t: "Cancel None ''o1'' ''bob'' heldService = (None, t)" using held_cancel by blast
  show ?thesis using cancellation_effect [OF t held_funded] t by (auto simp: lockedCash_def remaining_def Balance_def)
qed

text \<open>
  C17. An order is admitted exactly when its ID is new, its market open, its price 1 to 99 cents, its
  quantity positive and within 32 bits, its side known, and the account covers it: the cash of a buy
  order at its limit price, the shares of a sell order. Every refusal leaves the service as it was.
\<close>

theorem admission_exact:
  assumes "submission od"
  shows "((\<exists>e es. prepareOrder s od = Inr (e # es)) \<longleftrightarrow>
      oID od \<noteq> [] \<and> oUserID od \<noteq> [] \<and> 0 < oQuantity od \<and> oQuantity od < 2 ^ 32 \<and> fmlookup (orders s) (oID od) = None \<and>
      (\<exists>m. fmlookup (markets s) (oMarketID od) = Some m \<and> mStatus m = Open) \<and> 1 \<le> oPrice od \<and> oPrice od \<le> 99 \<and>
      (case oSide od of
         BuyYes \<Rightarrow> oPrice od * oQuantity od \<le> Balance s (oUserID od)
       | BuyNo \<Rightarrow> oPrice od * oQuantity od \<le> Balance s (oUserID od)
       | SellYes \<Rightarrow> oQuantity od \<le> pYes (PositionOf s (oUserID od) (oMarketID od))
       | SellNo \<Rightarrow> oQuantity od \<le> pNo (PositionOf s (oUserID od) (oMarketID od))
       | OtherSide _ \<Rightarrow> False)) \<and>
    ((\<exists>e. prepareOrder (s::('e, 'p) Service) od = Inl e) \<longrightarrow> snd (placeSingle ctxErr od s) = s)"
  using prepareOrder_iff [OF assms, of s] by (auto simp: placeSingle_def split: option.splits)

theorem admission_exact_witness:
  "\<exists>e es. prepareOrder heldService (heldOrder\<lparr>oID := ''o2'', oPrice := 10\<rparr>) = Inr (e # es)"
  using admission_exact [of "heldOrder\<lparr>oID := ''o2'', oPrice := 10\<rparr>" heldService]
  by (simp add: submission_def in_i64_def Balance_def)

text \<open>
  C18. A client may repeat an order: the same order under the same ID is answered without an error
  and without any change; a different order under the ID is refused.
\<close>

theorem repeat_is_harmless:
  assumes "fmlookup (orders s) (oID od) = Some od'" and "failure s = None"
    and "0 < oQuantity od" and "oQuantity od \<le> uint32_max" and "oID od \<noteq> []" and "oUserID od \<noteq> []"
  shows "placeSingle None od s =
    (if sameParams od' od then None else Some (New ''order id already exists with different parameters''), s)"
proof (cases "sameParams od' od")
  case True
  then show ?thesis using repeated_placement [OF assms(1) _ assms(2-6)] by simp
next
  case False
  then show ?thesis using different_placement [OF assms(1) _ assms(2-6)] by simp
qed

theorem repeat_is_harmless_witness: "placeSingle None heldOrder heldService = (None, heldService)"
  using repeat_is_harmless [of heldService heldOrder heldOrder] by (simp add: sameParams_def)

text \<open>
  C19. Once a failure is latched no operation changes the service: each returns the latched error, which
  the health check reports, and the state stays as it was.
\<close>

theorem failure_is_latched:
  assumes "failure s = Some e"
  shows "HealthError s = Some e \<and> CreateMarketFor i symbol owner s = (Some e, s) \<and> Cancel None i user s = (Some e, s) \<and>
    ResolveFor None i yes owner s = (Some e, s) \<and> placeSingle None od s = (Some e, s) \<and>
    placeBatch requests s = (replicate (length requests) (Some e), s) \<and> QuoteOf symbol s = (Inl e, s) \<and>
    RecoverEngine None ms ids ms' s = (Some e, s) \<and>
    snd (Deposit user cents s) = s \<and> fst (Deposit user cents s) \<noteq> None \<and> freezeCheckpoint s = (Inl e, s)"
  using assms
  by (auto simp: HealthError_def CreateMarketFor_def Cancel_def ResolveFor_def placeSingle_def placeBatch_def placeBatchWithQuotes_def
      QuoteOf_def RecoverEngine_def Deposit_def freezeCheckpoint_def)

theorem failure_is_latched_witness:
  "Cancel None ''o1'' ''bob'' (heldService\<lparr>failure := Some ErrRecoveryRequired\<rparr>)
    = (Some ErrRecoveryRequired, heldService\<lparr>failure := Some ErrRecoveryRequired\<rparr>)"
  using failure_is_latched [of "heldService\<lparr>failure := Some ErrRecoveryRequired\<rparr>" ErrRecoveryRequired] by simp

text \<open>
  C20. The program's ledger, whose balances and shares are 64-bit integers that wrap, is the ledger
  over unbounded integers reduced modulo \<open>2 ^ 64\<close>, after any events: overflow never corrupts more
  than the number that overflowed, and a history that stays in range is exact.
\<close>

theorem ledger_modulo:
  "apply_all es (round_ledger s) = round_ledger (ideal_all es s)"
  by (rule round_all)

text \<open>
  C21. Recovery of the engines after a restart: whatever order the maps are visited in and whichever
  calls fail, rebuilding the books of empty engines from the ledger keeps the ledger funded; when it
  succeeds every live order is back in its engine under its new ID, nothing waits between its
  reservation and the engine, and the books mirror the ledger again.
\<close>

theorem engines_recovered:
  assumes "RecoverEngine ctxErr ms ids ms' s = (r, t)" and "EngineOf (cfg s) = Some (routedTrading net)"
    and "budget net" and "0 < n" and "engineState s = freshRouter n"
    and "funded D s" and "marketsOk s" and "liveInOpen s" and "distinct ids" and "set ids = fmdom' (orders s)"
  shows "funded D t \<and> (r = None \<longrightarrow> wellFormed t \<and>
    (failure t = None \<longrightarrow> allEntered t \<and> coupled (routerBook (engineState t)) t))"
proof -
  note fresh = fresh_router [OF assms(3,4) freshRouter_def]
  have books: "routerBook (engineState s) symbol = fmempty" for symbol using fresh(2) assms(5) by simp
  show ?thesis
    using routed.RecoverEngine_result [OF assms(1,2,6-8) _ books assms(9,10)] fresh(1) assms(5) by (auto simp: sound_def)
qed

theorem engines_recovered_witness:
  "funded 500 (snd (RecoverEngine None [''m1''] [''o1''] [''m1''] (heldService\<lparr>cfg := sampleConfig\<rparr>)))"
proof -
  let ?s = "heldService\<lparr>cfg := sampleConfig\<rparr>"
  obtain r t where r: "RecoverEngine None [''m1''] [''o1''] [''m1''] ?s = (r, t)" by (rule prod.exhaust)
  have ok: "funded 500 ?s" "marketsOk ?s" "liveInOpen ?s" "engineState ?s = freshRouter 2"
    using held_funded measures_frame [of ?s heldService]
    by (simp_all add: marketsOk_def liveInOpen_def heldService_def funded_def ledger_ok_def ledger_pos_def skew_def)
  show ?thesis using engines_recovered [OF r _ sample_budget _ ok(4) ok(1-3)] r by (simp add: fmdom'_alt_def)
qed

text \<open>
  C22. Reading quotes never changes the ledger, the latch or the files, and the quotes published after
  a commit are at most one per market it touched, each stamped with the sequence of that commit.
\<close>

theorem quotes_read_only:
  "same_ledger s (snd (QuoteOf symbol s)) \<and>
   (case readQuotes ids supplied s of (qs, t) \<Rightarrow> same_ledger s t \<and> distinct (map mqMarketID qs) \<and>
      list_all (\<lambda>q. mqMarketID q \<in> set ids \<and> mqSequence q = sequence s) qs)"
  using same_ledger_QuoteOf [of s symbol] same_ledger_readQuotes [of s ids supplied] readLoop_quotes [of "bySymbol supplied" "[]" ids s]
  by (auto simp: readQuotes_def list_all_iff split: prod.splits)

text \<open>
  C23. A deposit credits exactly one balance. It is refused, with no change, when the amount is not
  positive or the user is missing, and when a failure is latched. When its commit fails, the books of the
  process stay as they were and the failure is latched; the log may hold the deposit by then, and a
  restart credits it if so (C4).
\<close>

theorem deposit_effect:
  assumes "Deposit user cents s = (r, t)" and "funded D s" and "D + cents \<le> int64_max"
  shows "(r = None \<longrightarrow> funded (D + cents) t \<and> orders t = orders s \<and> markets t = markets s \<and>
      (\<forall>u. Balance t u = Balance s u + (if u = user then cents else 0)) \<and> (\<forall>u m. PositionOf t u m = PositionOf s u m)) \<and>
    (user = [] \<or> cents \<le> 0 \<longrightarrow> r = Some (New ''positive deposit and user are required'') \<and> t = s) \<and>
    (user \<noteq> [] \<and> 0 < cents \<and> failure s \<noteq> None \<longrightarrow> r = failure s \<and> t = s) \<and>
    (\<forall>e. r = Some e \<longrightarrow> book t = book s \<and> engineState t = engineState s \<and> cfg t = cfg s) \<and>
    (\<forall>e. user \<noteq> [] \<and> 0 < cents \<and> r = Some e \<longrightarrow> failure t = Some e)"
proof -
  have refused: "r = Some (New ''positive deposit and user are required'') \<and> t = s" if "user = [] \<or> cents \<le> 0"
    using assms(1) that by (auto simp: Deposit_def)
  have commit: "commitMany [Event0\<lparr>eType := EventBalance, eUserID := user, eAmount := cents\<rparr>] s = (r, t)" if "user \<noteq> [] \<and> 0 < cents"
    using assms(1) that by (auto simp: Deposit_def commit_def commitMany_def split: option.splits)
  have latched: "r = failure s \<and> t = s" if "user \<noteq> [] \<and> 0 < cents \<and> failure s \<noteq> None"
    using commit that by (auto simp: commitMany_def)
  have failed: "book t = book s \<and> engineState t = engineState s \<and> cfg t = cfg s \<and> failure t = Some e"
    if "user \<noteq> [] \<and> 0 < cents" "r = Some e" for e
    using commitMany_err(1,2) [of _ s e t] commit [OF that(1)] that(2) by (simp add: keeps_def)
  have paid: "funded (D + cents) t \<and> orders t = orders s \<and> markets t = markets s \<and>
      (\<forall>u. Balance t u = Balance s u + (if u = user then cents else 0)) \<and> (\<forall>u m. PositionOf t u m = PositionOf s u m)" if "r = None"
  proof -
    have d: "Deposit user cents s = (None, t)" using assms(1) that by simp
    have f: "funded (D + cents) t" using Deposit_funded(1) [OF d assms(2,3)] by simp
    show ?thesis using Deposit_account [OF d assms(2,3)] f by blast
  qed
  have "book t = book s \<and> engineState t = engineState s \<and> cfg t = cfg s" if "r = Some e" for e
    using that failed [of e] refused by (cases "user = [] \<or> cents \<le> 0") auto
  then show ?thesis using refused latched failed paid by blast
qed

theorem deposit_effect_witness:
  "(\<exists>t. Deposit ''alice'' 500 sampleService = (None, t) \<and> Balance t ''alice'' = 500 \<and> funded 500 t) \<and>
   (\<exists>e t. Deposit ''alice'' 500 tornService = (Some e, t) \<and> book t = book tornService \<and> failure t = Some e)"
proof
  obtain t where t: "Deposit ''alice'' 500 sampleService = (None, t)" using sample_deposit by blast
  have "funded 0 sampleService" using fresh_ledger(1) by (simp add: sampleService_def)
  then show "\<exists>t. Deposit ''alice'' 500 sampleService = (None, t) \<and> Balance t ''alice'' = 500 \<and> funded 500 t"
    using deposit_effect [OF t, of 0] t by (auto simp: Balance_def)
  obtain e u where u: "Deposit ''alice'' 500 tornService = (Some e, u)"
    using torn_commit [of "Event0\<lparr>eType := EventBalance, eUserID := ''alice'', eAmount := 500\<rparr>"] by (auto simp: Deposit_def commit_def)
  have "funded 0 tornService" using fresh_ledger(1) by (simp add: tornService_def)
  then show "\<exists>e t. Deposit ''alice'' 500 tornService = (Some e, t) \<and> book t = book tornService \<and> failure t = Some e"
    using deposit_effect [OF u, of 0] u by auto
qed

section \<open>Durability and projection of whole runs\<close>

text \<open>
  C24. Durability end to end, with the projection in PostgreSQL: from an exchange started on empty files
  and tables, after any run of requests, rounds of the order worker and phases of checkpoints, with
  whatever failures of the network, the files and the database, as long as no failure is latched and fewer
  than 2^64 events were recorded, a service started on the files and tables of that moment accepts them and
  has exactly the same accounting state: every balance, position, market, order and index entry.
\<close>

theorem exchange_restart:
  assumes "budget net" and "0 < n" and "EngineOf c = Some (routedTrading net)"
    and "ProjectorOf c = Some pgProjector" and "inj (newUUID c)" and "\<And>k. newUUID c k \<noteq> []"
    and "0 \<le> OrderBatchSize c" and "OrderBatchSize c \<le> 32" and "WALPath c \<noteq> []" and "SnapshotPath c \<noteq> []"
    and "logged_step\<^sup>*\<^sup>* ((newQueue (newService c (emptyDisk\<lparr>ioScript := script\<rparr>) (freshRouter n)
      (emptyTables\<lparr>dbScript := dbCalls\<rparr>)), 0), Idle) ((q, D), ph)"
    and "failure (qService q) = None" and "uuidCount (qService q) < 2 ^ 64"
  shows "\<exists>t. NewWithConfig h c ((disk (qService q))\<lparr>ioScript := []\<rparr>) e ((projection (qService q))\<lparr>dbScript := []\<rparr>) = Inr t \<and>
    ledger.truncate t = ledger.truncate (qService q) \<and> failure t = None"
proof -
  have "files.good c ph (qService q)" by (rule started_run(1) [OF assms(1-3,11)])
  moreover have "projectorOk c ((projection (qService q))\<lparr>dbScript := []\<rparr>) (loggedEvents (disk (qService q)))"
    by (rule run_accepted [OF assms(4-6) logged_run_exchange [OF assms(11)] assms(12,4)])
  ultimately show ?thesis using run_restarts [of c ph "qService q" _ h e] assms(7-10,12,13) by blast
qed

theorem exchange_restart_witness:
  "\<exists>q t. logged_step\<^sup>*\<^sup>* ((newQueue projectedService, 0), Idle) ((q, 500), Idle) \<and>
    NewWithConfig (\<lambda>_. ''h'') projectedConfig ((disk (qService q))\<lparr>ioScript := []\<rparr>) (freshRouter 2)
      ((projection (qService q))\<lparr>dbScript := []\<rparr>) = Inr t \<and>
    Balance t ''alice'' = 500"
proof -
  obtain q where q: "logged_step\<^sup>*\<^sup>* ((newQueue projectedService, 0), Idle) ((q, 500), Idle)" "failure (qService q) = None"
      "uuidCount (qService q) = 1" "Balance (qService q) ''alice'' = 500"
    by (rule projected_run)
  have "\<exists>t. NewWithConfig (\<lambda>_. ''h'') projectedConfig ((disk (qService q))\<lparr>ioScript := []\<rparr>) (freshRouter 2)
      ((projection (qService q))\<lparr>dbScript := []\<rparr>) = Inr t \<and> ledger.truncate t = ledger.truncate (qService q) \<and> failure t = None"
    using exchange_restart [OF sample_budget _ projected_config(2,1) projected_uuids, of 2 "[]" "[]" q 500 Idle "\<lambda>_. ''h''" "freshRouter 2"]
      q projected_start by simp
  then show ?thesis using q(1,4) by (auto simp: Balance_def ledger.truncate_def)
qed

text \<open>
  C25. The SQL tables mirror the ledger through every run: unless a failure is latched, each balance and
  position is the one of the ledger, the rows of markets and orders are exactly those of the ledger with
  all their columns (symbol, owner and status; user, market, side, prices, quantities, engine ID and
  status), and the table of trades has one row for each recorded trade, with its sequence number, market,
  orders, price and quantity, and no other. Every row satisfies the checks of its table, no ID still to be
  drawn is among the recorded events, and every event of the log is recorded.
\<close>

theorem projection_mirrors:
  assumes "ProjectorOf c = Some pgProjector" and "inj (newUUID c)" and "\<And>n. newUUID c n \<noteq> []"
    and "exchange_step\<^sup>*\<^sup>* (newQueue (newService c (emptyDisk\<lparr>ioScript := script\<rparr>) e (emptyTables\<lparr>dbScript := dbCalls\<rparr>)), 0) (q, D)"
    and "failure (qService q) = None"
  shows "tablesOk (projection (qService q)) \<and> mirrored (projection (qService q)) (qService q) \<and>
    tradesOk (projection (qService q)) \<and> freshUUIDs (qService q) \<and>
    (\<forall>e\<in>loggedEvents (disk (qService q)). recordedIn (projection (qService q)) e)"
  using exchange_run_mirrored [OF assms(4)] fresh_mirrored [OF assms(1-3)] assms(5)
  by (simp add: newQueue_def mirror.good_def mirroredTo_def projectedTo_def)

theorem projection_mirrors_witness:
  "\<exists>q. exchange_step\<^sup>*\<^sup>* (newQueue projectedService, 0) (q, 500) \<and> fmget 0 (tbBalances (projection (qService q))) ''alice'' = 500"
proof -
  obtain q where q: "logged_step\<^sup>*\<^sup>* ((newQueue projectedService, 0), Idle) ((q, 500), Idle)" "failure (qService q) = None"
      "Balance (qService q) ''alice'' = 500"
    by (rule projected_run)
  have run: "exchange_step\<^sup>*\<^sup>* (newQueue projectedService, 0) (q, 500)" by (rule logged_run_exchange [OF q(1)])
  then have "mirrored (projection (qService q)) (qService q)"
    using projection_mirrors [OF projected_config(1) projected_uuids, of "[]" "freshRouter 2" "[]" q 500] q(2) projected_start by simp
  then show ?thesis using run q(3) by (auto simp: mirrored_def)
qed

text \<open>
  C26. A batch is projected once: whatever happened to it the first time - applied, refused, rolled
  back, or committed with its answer lost - a retry that succeeds leaves the tables as one application
  of the batch does; before that, the tables are as if it was never sent or as after the retry.
\<close>

theorem projection_once:
  assumes "pgApplyBatch db es = (r, db1)" and "pgApplyBatch db1 es = (None, db2)"
  shows "applied es (rowsOf db) = Inr (rowsOf db2) \<and> (rowsOf db1 = rowsOf db2 \<or> r \<noteq> None \<and> rowsOf db1 = rowsOf db)"
proof -
  have 2: "applied es (rowsOf db1) = Inr (rowsOf db2)" using batch_outcome [OF assms(2)] by simp
  show ?thesis using batch_outcome [OF assms(1)]
  proof
    assume "r \<noteq> None \<and> rowsOf db1 = rowsOf db"
    then show ?thesis using 2 by simp
  next
    assume 1: "applied es (rowsOf db) = Inr (rowsOf db1)"
    then show ?thesis using applied_again [OF 1] 2 by simp
  qed
qed

theorem projection_once_witness:
  "\<exists>db1 db2. pgApplyBatch (emptyTables\<lparr>dbScript := [DbOk, DbOk, DbOk, DbOk, DbLost Canceled]\<rparr>) [creditEvent ''alice'' 500] = (Some Canceled, db1) \<and>
     pgApplyBatch db1 [creditEvent ''alice'' 500] = (None, db2) \<and> fmlookup (tbBalances db1) ''alice'' = Some 500 \<and>
     applied [creditEvent ''alice'' 500] emptyTables = Inr (rowsOf db2)"
proof -
  let ?es = "[creditEvent ''alice'' 500]" and ?db = "emptyTables\<lparr>dbScript := [DbOk, DbOk, DbOk, DbOk, DbLost Canceled]\<rparr>"
  obtain db1 where 1: "pgApplyBatch ?db ?es = (Some Canceled, db1)" "dbScript db1 = []" "fmlookup (tbBalances db1) ''alice'' = Some 500"
      "applied ?es emptyTables = Inr (rowsOf db1)"
    by (simp add: pgApplyBatch_def dbTry_def dbCall_def transaction_def admitAllIDs_def eventTexts_def emptyTables_def Event0_def
      eventStmts_def balanceStmt_def hasNul_def Market0_def Order0_def Trade0_def creditEvent_def Let_def applied_def rowsOf_def)
  have "applied ?es (rowsOf db1) = Inr (rowsOf db1)" by (rule applied_again [OF 1(4)])
  moreover have "rowsOf db1 = db1" using 1(2) by (cases db1) (simp add: rowsOf_def)
  ultimately have "applied ?es db1 = Inr db1" by simp
  then have 2: "pgApplyBatch db1 ?es = (None, db1)" by (rule batch_calm [OF 1(2)])
  have "rowsOf ?db = emptyTables" by (simp add: rowsOf_def emptyTables_def)
  then show ?thesis using projection_once [OF 1(1) 2] 1 2 by auto
qed


text \<open>
  C27. The tables are narrower than the ledger: an order that passes every check of the admission
  with a quantity of 2^31 or more does not fit its row, so its projection fails and the first such order
  latches the service. The record is in the log by then, and replay projects it again.
\<close>

theorem large_order_latches:
  assumes "placeSingle None od s = (r, t)" and "prepareOrder s od = Inr (first # rest)" and "oQuantity od > 2147483647"
    and "ProjectorOf (cfg s) = Some pgProjector" and "freshUUIDs s" and "failure s = None"
  shows "r \<noteq> None \<and> failure t = r \<and> errors_Is (the r) ErrRecoveryRequired \<and> book t = book s"
proof -
  obtain r1 u where u: "commitMany (first # rest) s = (r1, u)" by (rule prod.exhaust)
  have plain: "\<And>x. x \<in> set (first # rest) \<Longrightarrow> eID x = []"
    using prepared_fits(2) [OF assms(2)] by (auto simp: list_all_iff plainEvent_def)
  have q: "oQuantity (eOrder first) = oQuantity od"
    using assms(2) by (auto simp: prepareOrder_def reservationEvents_def Let_def split: if_splits option.splits sum.splits prod.splits)
  obtain err where err: "r1 = Some err"
    using commit_large [OF u assms(4-6) plain prepared_event(1) [OF assms(2)]] q assms(3) by auto
  then have "r = Some err \<and> t = u" using assms(1,2,6) u by (simp add: placeSingle_def)
  then show ?thesis using commitMany_err [of "first # rest" s err u] u err assms(6) by (simp add: keeps_def)
qed

theorem large_order_latches_witness:
  "\<exists>err t. placeSingle None largeOrder richService = (Some err, t) \<and> failure t = Some err \<and>
     (\<exists>es. prepareOrder richService largeOrder = Inr es)"
proof -
  obtain r t where t: "placeSingle None largeOrder richService = (r, t)" by (rule prod.exhaust)
  have rich: "projection richService = emptyTables" "cfg richService = projectedConfig" "failure richService = None" "uuidCount richService = 0"
    "markets richService = fmupd ''m1'' heldMarket fmempty" "orders richService = fmempty" "positions richService = fmempty"
    "balances richService = fmupd ''bob'' 3000000000 fmempty" "sequence richService = 0"
    by (simp_all add: richService_def projectedService_def newService_def)
  obtain first rest where p: "prepareOrder richService largeOrder = Inr (first # rest)"
    by (simp add: prepareOrder_def largeOrder_def Order0_def rich u64_def translate_def Balance_def i64_def Let_def reservationEvents_def)
  have f: "freshUUIDs richService"
    using projected_service by (simp add: projectedTo_def freshUUIDs_def rich projectedService_def newService_def)
  show ?thesis
    using large_order_latches [OF t p _ _ f] t p by (auto simp: rich largeOrder_def)
qed

section \<open>Quotes and their subscribers\<close>

text \<open>
  C28. The script in Redis compares versions as decimal strings, first by length and then by bytes:
  this is exactly the order of the numbers, so the old value is kept if and only if it is not older.
\<close>

theorem versions_ordered: "keepsOld (decimal m) (decimal n) \<longleftrightarrow> n \<le> m"
  by (rule keepsOld_iff)

text \<open>
  C29. However the calls of several writers for a market are ordered, lost or answered late, each at its
  own time, and whatever is written for other markets, the cache is one register with a lease: a version
  that has not lapsed after a minute gives way only to a newer one, which starts a new minute; a version that
  has lapsed, or none, gives way to any write, even of an older version. So the newest of all arrived
  versions is shown as long as none lapses: from a version that lives until now, and from the first write
  on when there was none.
\<close>

theorem newest_quote_wins:
  assumes "redisOk r"
  shows "leaseOf market (setAll ws r) = fold renew (arrived market ws) (leaseOf market r) \<and>
    (\<forall>v x. leaseOf market r = Some (v, x) \<and> now < x \<and> (\<forall>a\<in>set (arrived market ws). x \<le> fst a + 60000 \<and> fst a \<le> now) \<longrightarrow>
      versionAt now market (setAll ws r) = Some (Max (insert v (snd ` set (arrived market ws))))) \<and>
    (\<forall>t n rest. arrived market ws = (t, n) # rest \<and> versionAt t market r = None \<and> now < t + 60000 \<and>
      (\<forall>a\<in>set rest. t \<le> fst a \<and> fst a \<le> now) \<longrightarrow>
      versionAt now market (setAll ws r) = Some (Max (insert n (snd ` set rest))))"
  using setAll_lease [OF assms, of market ws] setAll_live [OF assms, of market _ _ now ws] setAll_first [OF assms, of _ market ws _ _ now]
  by blast

theorem newest_quote_wins_witness:
  "versionAt 50 ''S'' (setAll [(10, Delivered, ''S'', quoteAt 10), (20, Delivered, ''S'', quoteAt 9), (30, ReplyLost, ''S'', quoteAt 12),
     (40, RequestLost, ''S'', quoteAt 99), (50, Delivered, ''S'', quoteAt 11)] sampleRedis) = Some 12 \<and>
   versionAt 60001 ''S'' (setAll [(60000, Delivered, ''S'', quoteAt 1)] sampleRedis) = Some 1"
proof
  let ?ws = "[(10, Delivered, ''S'', quoteAt 10), (20, Delivered, ''S'', quoteAt 9), (30, ReplyLost, ''S'', quoteAt 12),
     (40, RequestLost, ''S'', quoteAt 99), (50, Delivered, ''S'', quoteAt 11)]" and ?late = "[(60000, Delivered, ''S'', quoteAt 1)]"
  have a: "arrived ''S'' ?ws = [(10, 10), (20, 9), (30, 12), (50, 11)]" "arrived ''S'' ?late = [(60000, 1)]"
    by (simp_all add: arrived_def quoteAt_def)
  show "versionAt 50 ''S'' (setAll ?ws sampleRedis) = Some 12"
    using newest_quote_wins [OF sample_redis(1), of "''S''" ?ws 50] sample_redis(2) a(1) by simp
  have "versionAt 60000 ''S'' sampleRedis = None" using sample_redis(2) by (simp add: versionAt_lease)
  then show "versionAt 60001 ''S'' (setAll ?late sampleRedis) = Some 1"
    using newest_quote_wins [OF sample_redis(1), of "''S''" ?late 60001] a(2) by simp
qed

text \<open>
  C30. Publishing never waits and never panics: in every hub the program can have, each channel
  subscribed to the name gets the message at the end of its buffer, or nothing when the buffer is
  full; no other channel changes, and the hub stays well formed.
\<close>

theorem publish_delivers:
  assumes "hubOk h"
  shows "\<exists>h'. Publish m h = Some h' \<and> hubOk h' \<and> subscribers h' = subscribers h \<and>
    (\<forall>k. fmlookup (channels h') k =
      (if subscribed (msgChannel m) k h then map_option (offered m) (fmlookup (channels h) k) else fmlookup (channels h) k))"
  by (rule Publish_ok [OF assms])

theorem publish_delivers_witness:
  "\<exists>h'. Publish \<lparr>msgChannel = ''market:m1'', msgType = ''order'', msgData = OrderUpdate ''o1''\<rparr> sampleHub = Some h' \<and>
     map_option (\<lambda>c. length (chBuffer c)) (fmlookup (channels h') 0) = Some 1"
proof -
  let ?m = "\<lparr>msgChannel = ''market:m1'', msgType = ''order'', msgData = OrderUpdate ''o1''\<rparr>"
  obtain h' where h': "Publish ?m sampleHub = Some h'"
      "fmlookup (channels h') 0 = map_option (offered ?m) (fmlookup (channels sampleHub) 0)"
    using publish_delivers [OF sample_hub(1), of ?m] sample_hub(2) by auto
  have "fmlookup (channels sampleHub) 0 = Some \<lparr>chBuffer = [], chCapacity = 1, chClosed = False\<rparr>"
    by (simp add: sampleHub_def Subscribe_def NewHub_def Let_def)
  then show ?thesis using h' by (simp add: offered_def)
qed

text \<open>
  C31. A subscription lives from \<^verbatim>\<open>Subscribe\<close> to its cancellation: the channel is new, open and
  empty, with room for at least one message; the cancellation closes it without a panic and leaves
  the other subscriptions as they were.
\<close>

theorem subscription_lifecycle:
  assumes "hubOk h" and "Subscribe name capacity h = (ch, h1)"
  shows "hubOk h1 \<and> fmlookup (channels h) ch = None \<and> subscribed name ch h1 \<and>
    (\<exists>c. fmlookup (channels h1) ch = Some c \<and> chBuffer c = [] \<and> \<not> chClosed c \<and> 0 < chCapacity c) \<and>
    (\<exists>h2. cancelSubscription name ch h1 = Some h2 \<and> hubOk h2 \<and> (\<forall>n k. subscribed n k h2 \<longleftrightarrow> subscribed n k h))"
proof -
  note s = Subscribe_ok [OF assms]
  have sub: "subscribed name ch h1" using s(2) [of name ch] by simp
  obtain h2 where h2: "cancelSubscription name ch h1 = Some h2" "hubOk h2" "\<And>n k. subscribed n k h2 \<longleftrightarrow> subscribed n k h1 \<and> k \<noteq> ch"
    by (rule cancelSubscription_ok [OF s(1) sub]) (rule that)
  have "\<not> subscribed n ch h" for n using hubOkD(1) [OF assms(1), of n ch] s(3) by auto
  then have "subscribed n k h2 \<longleftrightarrow> subscribed n k h" for n k using h2(3) s(2) by metis
  moreover have "\<exists>c. fmlookup (channels h1) ch = Some c \<and> chBuffer c = [] \<and> \<not> chClosed c \<and> 0 < chCapacity c"
    using assms(2) by (auto simp: Subscribe_def Let_def)
  ultimately show ?thesis using s(1,3) sub h2(1,2) by blast
qed

theorem subscription_lifecycle_witness:
  "\<exists>ch h1 h2. Subscribe ''market:m2'' 0 sampleHub = (ch, h1) \<and> cancelSubscription ''market:m2'' ch h1 = Some h2 \<and> hubOk h2"
proof -
  obtain ch h1 where "Subscribe ''market:m2'' 0 sampleHub = (ch, h1)" by (rule prod.exhaust)
  then show ?thesis using subscription_lifecycle [OF sample_hub(1)] by blast
qed

section \<open>Acknowledged orders\<close>



section \<open>Accounts and tokens\<close>

text \<open>
  C33. A signed token is accepted with the user it was made for until the moment it expires, and
  refused from then on, provided the JSON of its claims reads back as the claims.
\<close>

theorem token_roundtrip:
  assumes "claims = \<lparr>clSubject = i, clIssuer = issuer, clExpiry = now + ttl s\<rparr>"
    and "unmarshalClaims c (marshalClaims c claims) = Some claims" and "i \<noteq> []"
  shows "Parse c now' s (sign c now s i) = (if now' < now + ttl s then Inr claims else Inl (New ''expired or invalid token''))"
  by (rule Parse_sign [OF assms])

theorem token_roundtrip_witness:
  "Parse sampleCodec 86399 sampleAuth (sign sampleCodec 0 sampleAuth ''alice'') = Inr (sampleClaims ''alice'') \<and>
   Parse sampleCodec 86400 sampleAuth (sign sampleCodec 0 sampleAuth ''alice'') = Inl (New ''expired or invalid token'')"
  using token_roundtrip [of "sampleClaims ''alice''" "''alice''" 0 sampleAuth sampleCodec] sample_claims [of "''alice''"]
  by (simp add: sampleClaims_def sampleAuth_def)

text \<open>
  C34. An accepted token is genuine: it has three parts, its third part decodes to the MAC of the
  first two under the secret, and the second to claims of this issuer about a user, not yet expired.
\<close>

theorem token_genuine:
  assumes "Parse c now s token = Inr claims"
  shows "\<exists>p0 p1 p2 payload. token = p0 @ ''.'' @ p1 @ ''.'' @ p2 \<and> decode p2 = Some (mac c (secret s) (p0 @ ''.'' @ p1)) \<and>
    decode p1 = Some payload \<and> unmarshalClaims c payload = Some claims \<and> clSubject claims \<noteq> [] \<and>
    clIssuer claims = issuer \<and> now < clExpiry claims"
  by (rule Parse_genuine [OF assms]) blast

theorem token_genuine_witness:
  "\<exists>p0 p1 p2. sign sampleCodec 0 sampleAuth ''alice'' = p0 @ ''.'' @ p1 @ ''.'' @ p2 \<and>
     decode p2 = Some (''0123456789abcdef'' @ p0 @ ''.'' @ p1)"
proof -
  have "Parse sampleCodec 0 sampleAuth (sign sampleCodec 0 sampleAuth ''alice'') = Inr (sampleClaims ''alice'')"
    using Parse_sign [of "sampleClaims ''alice''" "''alice''" 0 sampleAuth sampleCodec 0] sample_claims [of "''alice''"]
    by (simp add: sampleClaims_def sampleAuth_def)
  note g = token_genuine [OF this]
  have "mac sampleCodec (secret sampleAuth) x = ''0123456789abcdef'' @ x" for x by (simp add: sampleCodec_def sampleAuth_def)
  then show ?thesis using g by (elim exE conjE) (intro exI conjI, assumption, simp)
qed

text \<open>
  C35. Registering and logging in: an accepted registration keeps emails and names unique, and the
  same email, in any case and with spaces around it, and password then open the same account, however
  many accounts there are.
\<close>

theorem account_login:
  assumes "Register c now down email username password s = (Inr (i, token), s')" and "usersOk s"
    and "\<And>hash. bcryptHash c (drawn s) password = Inr hash \<Longrightarrow> bcryptCompare c hash password"
    and "ToLower (TrimSpace again) = ToLower (TrimSpace email)"
  shows "usersOk s' \<and> Login c now' None again password s' = Inr (i, sign c now' s i) \<and> token = sign c now s i"
  using assms(1)
proof (cases rule: Register_cases)
  case (registered j hash)
  let ?r = "\<lparr>usEmail = ToLower (TrimSpace email), usName = TrimSpace username, usHash = hash\<rparr>"
  have ok: "usersOk s'" by (rule Register_ok [OF assms(1,2)])
  have j: "j = i" "token = sign c now s i" using registered(1) by auto
  have look: "fmlookup (users s') i = Some ?r" using registered(4) j by simp
  have "userByEmail (ToLower (TrimSpace again)) s' = Some i" using userByEmail_unique [OF ok look] assms(4) by simp
  moreover have "sign c now' s' i = sign c now' s i" using registered(5,6) by (simp add: sign_def)
  ultimately show ?thesis using ok j(2) look assms(3) [OF registered(2)] by (simp add: Login_def)
qed simp

theorem account_login_witness:
  "\<exists>s'. Register sampleCodec 0 None ''Alice@X'' ''alice'' ''password'' sampleAuth = (Inr (''u'', sign sampleCodec 0 sampleAuth ''u''), s') \<and>
     Login sampleCodec 5 None '' ALICE@x '' ''password'' s' = Inr (''u'', sign sampleCodec 5 sampleAuth ''u'')"
proof -
  have t: "TrimSpace ''Alice@X'' = ''Alice@X''" "TrimSpace ''alice'' = ''alice''" "TrimSpace '' ALICE@x '' = ''ALICE@x''"
    by code_simp+
  have l: "ToLower ''Alice@X'' = ''alice@x''" "ToLower ''ALICE@x'' = ''alice@x''" by code_simp+
  obtain s' where r: "Register sampleCodec 0 None ''Alice@X'' ''alice'' ''password'' sampleAuth = (Inr (''u'', sign sampleCodec 0 sampleAuth ''u''), s')"
  proof -
    have c: "bcryptHash sampleCodec 0 x = Inr ('':'' @ x)" "authUUID sampleCodec 0 = ''u''" for x by (simp_all add: sampleCodec_def)
    have "\<not> userTaken ''u'' ''alice@x'' ''alice'' sampleAuth" "drawn sampleAuth = 0" by (simp_all add: userTaken_iff sampleAuth_def)
    then show thesis by (intro that) (simp add: Register_def t l c Let_def)
  qed
  have "usersOk sampleAuth" by (simp add: usersOk_def sampleAuth_def)
  then show ?thesis using account_login [OF r, where again = "'' ALICE@x ''" and now' = 5] sample_bcrypt r t l by auto
qed

section \<open>The API\<close>

text \<open>
  C36. A request to the API, valid or not, from any user, with whatever errors of the contexts, the
  network, the cache and the files, leaves the exchange sound, provided that it fits: the price and the
  quantity of an order are 64-bit integers, a deposit keeps the sum of all deposits within 63 bits, and a
  market is resolved only when no sell order rests in it. Then the books stay funded and well formed
  and, unless a failure is latched, in step with the engines; money enters only by a request that is answered
  with 204. Nothing is said of a larger deposit, after which balances may wrap (C20), and of a resolution
  with resting sell orders, whose payouts miss the reserved shares (C15).
\<close>

theorem request_sound:
  assumes "serve d req s = (resp, s')" and "svTrading s = Some q"
    and "queueOk (routedTrading (svNet s)) routerBook (healthyRouter (svNet s)) D q" and "fits req D q"
  shows "\<exists>q' D'. svTrading s' = Some q' \<and> queueOk (routedTrading (svNet s)) routerBook (healthyRouter (svNet s)) D' q' \<and>
    funded D' (qService q') \<and> (rsStatus resp \<noteq> 204 \<longrightarrow> D' = D)"
  using serve_sound [OF assms] by (auto simp: queueOk_def sound_def)

theorem request_sound_witness:
  "\<exists>resp s' q'. serve 1 (PostDeposit sampleToken (Some (''alice'', 500))) sampleServer = (resp, s') \<and> svTrading s' = Some q' \<and>
     (\<exists>D'. funded D' (qService q'))"
proof -
  obtain resp s' where s: "serve 1 (PostDeposit sampleToken (Some (''alice'', 500))) sampleServer = (resp, s')" by (rule prod.exhaust)
  show ?thesis using request_sound [OF s, of "newQueue sampleService" 0] s sample_sound by auto
qed

text \<open>
  C37. Without a valid token nothing behind the authentication happens: the answer is 401 and the
  whole server is as before.
\<close>

theorem no_token_refused:
  assumes "authorizationOf req = Some a" and "svAuth s = Some auth" and "Middleware (svCodec s) (nowSeconds s) auth a = Inl text0"
  shows "route req s = (\<lparr>rsStatus = 401, rsBody = Plain text0\<rparr>, s)"
  by (rule no_token [OF assms])

theorem no_token_refused_witness:
  "route (PostDeposit ''Basic x'' (Some (''alice'', 500))) sampleServer = (\<lparr>rsStatus = 401, rsBody = Plain ''missing bearer token''\<rparr>, sampleServer)"
proof -
  have "Middleware sampleCodec 0 sampleAuth ''Basic x'' = Inl ''missing bearer token''" by (simp add: Middleware_def HasPrefix_def bearer_def)
  then show ?thesis using no_token_refused [of "PostDeposit ''Basic x'' (Some (''alice'', 500))" "''Basic x''" sampleServer sampleAuth] by simp
qed

text \<open>
  C38. With a token of one user, a request that names another - an order, a cancellation, a deposit,
  a balance or a position - is answered with 403 and changes nothing.
\<close>

theorem other_user_refused:
  assumes "namedUser req = Some v" and "authorizationOf req = Some a" and "svAuth s = Some auth" and "svTrading s = Some q"
    and "Middleware (svCodec s) (nowSeconds s) auth a = Inr (Some u)" and "u \<noteq> []" and "v \<noteq> []" and "v \<noteq> u"
  shows "route req s = (\<lparr>rsStatus = 403, rsBody = ErrorText (New ''resource belongs to another user'')\<rparr>, s)"
  by (rule other_user [OF assms])

theorem other_user_refused_witness:
  "route (GetBalance sampleToken ''bob'') sampleServer =
    (\<lparr>rsStatus = 403, rsBody = ErrorText (New ''resource belongs to another user'')\<rparr>, sampleServer)"
  using other_user_refused [of "GetBalance sampleToken ''bob''" "''bob''" sampleToken sampleServer sampleAuth "newQueue sampleService" "''alice''"]
    sample_middleware by simp

text \<open>
  C39. An order answered with 201 is in the ledger: the body is its ID - the client's, or the drawn one if
  the client sent none - and under that ID there is an order of the authenticated user with the market,
  side, price and quantity of the request. The ledger before is one whose orders are filed under their
  IDs, as in every run. Other answers make no claim: 503 may be the answer for an order that was
  admitted, when the context of the request ends while it waits for the worker.
\<close>

theorem acknowledged_order:
  assumes "durableOrderHandler ctx ctxErr waitErr (Some r) s = (resp, s')" and "svTrading s = Some q" and "named (qService q)"
    and "svClients s \<notin> fst ` set (qPending q)" and "svClients s \<notin> fst ` set (qDone q)" and "rsStatus resp = 201"
  shows "\<exists>i userID q' od. rsBody resp = OrderID i \<and> i = (if doID r = [] then svUUID s (svClients s) else doID r) \<and>
    RequireOwner ctx (doUserID r) = Inr userID \<and> svTrading s' = Some q' \<and> fmlookup (orders (qService q')) i = Some od \<and>
    oUserID od = userID \<and> oMarketID od = doMarketID r \<and> oSide od = doSide r \<and> oPrice od = doPrice r \<and> oQuantity od = doQuantity r"
proof -
  let ?i = "if doID r = [] then svUUID s (svClients s) else doID r"
  have r1: "(if doID r = [] then r\<lparr>doID := svUUID s (svClients s)\<rparr> else r) = r\<lparr>doID := ?i\<rparr>" by simp
  obtain userID where u: "RequireOwner ctx (doUserID r) = Inr userID"
    using assms(1,2,6) by (auto simp: durableOrderHandler_def Let_def reply_def split: sum.splits if_splits)
  obtain ans q' where w: "PlaceWait (svClients s) ctxErr waitErr (orderOf (r\<lparr>doID := ?i, doUserID := userID\<rparr>)) q = (ans, q')"
    by (rule prod.exhaust)
  have ans: "ans = None" "svTrading s' = Some q'" "rsBody resp = OrderID ?i"
    using assms(1,2,6) u w by (cases ans; auto simp: durableOrderHandler_def Let_def r1 reply_def simp del: if_split split: if_splits)+
  have "recordedAs (orderOf (r\<lparr>doID := ?i, doUserID := userID\<rparr>)) (qService q')"
    using PlaceWait_recorded(1) [OF w [unfolded ans(1)] assms(3-5)] .
  then obtain od where "fmlookup (orders (qService q')) ?i = Some od" "oUserID od = userID" "oMarketID od = doMarketID r"
      "oSide od = doSide r" "oPrice od = doPrice r" "oQuantity od = doQuantity r"
    by (auto simp: recordedAs_def sameParams_def orderOf_def simp del: if_split)
  then show ?thesis using ans(2,3) u by blast
qed

theorem acknowledged_order_witness:
  "\<exists>resp s' q' od. durableOrderHandler (Some ''bob'') None None (Some \<lparr>doID = ''o1'', doUserID = [], doMarketID = ''m1'',
     doSide = BuyYes, doPrice = 40, doQuantity = 10\<rparr>) repeatServer = (resp, s') \<and> rsStatus resp = 201 \<and> svTrading s' = Some q' \<and>
     fmlookup (orders (qService q')) ''o1'' = Some od \<and> oUserID od = ''bob'' \<and> oQuantity od = 10"
proof -
  let ?r = "\<lparr>doID = ''o1'', doUserID = [], doMarketID = ''m1'', doSide = BuyYes, doPrice = 40, doQuantity = 10\<rparr>"
  let ?q = "newQueue (heldService\<lparr>cfg := sampleConfig\<lparr>OrderBatchSize := 1\<rparr>\<rparr>)"
  obtain resp s' where h: "durableOrderHandler (Some ''bob'') None None (Some ?r) repeatServer = (resp, s')" by (rule prod.exhaust)
  have o: "RequireOwner (Some ''bob'') (doUserID ?r) = Inr ''bob''" by (simp add: RequireOwner_def UserID_def)
  have "prepareOrder (heldService\<lparr>cfg := c\<rparr>) (orderOf (?r\<lparr>doUserID := ''bob''\<rparr>)) = Inr []" for c
    by (simp add: prepareOrder_def orderOf_def Order0_def u64_def sameParams_def)
  then have p: "PlaceWait k None None (orderOf (?r\<lparr>doUserID := ''bob''\<rparr>)) ?q = (None, ?q)" for k
    by (simp add: PlaceWait_def Place_def placeSingle_def newQueue_def)
  then have ok: "rsStatus resp = 201" using h o repeat_server by (auto simp: durableOrderHandler_def Let_def reply_def)
  have "named (qService ?q)" by (auto simp: newQueue_def named_def heldService_def split: if_splits)
  then show ?thesis using acknowledged_order [OF h repeat_server] ok h o by (auto simp: newQueue_def)
qed



end
